(* ===== verification/Fossil_Prelude.thy ===== *)
theory Fossil_Prelude
  imports
    Main
    "HOL-Library.Word"
    "HOL-Library.List_Lexorder"
    "HOL-Library.Product_Lexorder"
    "HOL-Library.Sublist"
begin

text \<open>
  Shared vocabulary of the development.

  \<^item> Machine types: \<^verbatim>\<open>u8\<close>, \<^verbatim>\<open>u32\<close>, \<^verbatim>\<open>u64\<close> are words of that width, \<^verbatim>\<open>Vec<u8>\<close> and
    \<^verbatim>\<open>&[u8]\<close> are lists of 8-bit words, and a fixed array \<^verbatim>\<open>[u8; N]\<close> is a word of \<open>8 * N\<close>
    bits read big-endian, so its length is part of its type and the derived (lexicographic)
    order of the array is the numeric order of the word. A \<^verbatim>\<open>usize\<close> is a \<open>nat\<close>: every one the
    code computes is a length or a cursor below the length of a buffer in memory.
  \<^item> \<^verbatim>\<open>anyhow::Error\<close>: an error is a message, possibly under contexts, or the one typed
    error the code downcasts to (\<^verbatim>\<open>ArchiveError\<close> of the Worker).
  \<^item> \<^verbatim>\<open>Result<T>\<close> is \<open>error + 'a\<close>. A function that also changes state (a closure
    \<^verbatim>\<open>FnMut\<close>, a store, a budget) is an action \<open>'s \<Rightarrow> (error + 'a) \<times> 's\<close>; the state reached
    when an error is raised is kept, as it is in the program.
  \<^item> The operations of third-party crates are fields of the record \<open>ext\<close>, an argument of the
    definitions that call them.
\<close>

section \<open>Machine types\<close>

type_synonym u8 = "8 word"
type_synonym u32 = "32 word"
type_synonym u64 = "64 word"
type_synonym bytes = "8 word list"
type_synonym hash32 = "256 word"
type_synonym address = "160 word"

text \<open>A versioned key: what run records, fences and scanners are ordered by.\<close>

type_synonym vkey = "8 word list \<times> 64 word"

section \<open>Errors and results\<close>

text \<open>\<^verbatim>\<open>ArchiveError\<close> of \<^verbatim>\<open>worker/src/core.rs\<close>, the only error the code recovers by type.\<close>

datatype archive_error =
    Unavailable string
  | Integrity
  | Limit
  | InvalidParams string
  | Backend

datatype error =
    Bail string
  | Archive archive_error
  | Ctx string error

type_synonym 'a result = "error + 'a"

definition bail :: "string \<Rightarrow> 'a result" where
  "bail msg = Inl (Bail msg)"

definition bind_r :: "'a result \<Rightarrow> ('a \<Rightarrow> 'b result) \<Rightarrow> 'b result" where
  "bind_r r f = (case r of Inl e \<Rightarrow> Inl e | Inr x \<Rightarrow> f x)"

text \<open>\<^verbatim>\<open>Result::context\<close> and \<^verbatim>\<open>Option::context\<close>.\<close>

definition ctx_r :: "string \<Rightarrow> 'a result \<Rightarrow> 'a result" where
  "ctx_r msg r = (case r of Inl e \<Rightarrow> Inl (Ctx msg e) | Inr x \<Rightarrow> Inr x)"

definition ok_or :: "string \<Rightarrow> 'a option \<Rightarrow> 'a result" where
  "ok_or msg v = (case v of None \<Rightarrow> bail msg | Some x \<Rightarrow> Inr x)"

primrec map_r :: "('a \<Rightarrow> 'b result) \<Rightarrow> 'a list \<Rightarrow> 'b list result" where
  "map_r f [] = Inr []"
| "map_r f (x # xs) = bind_r (f x) (\<lambda>y. bind_r (map_r f xs) (\<lambda>ys. Inr (y # ys)))"

primrec fold_r :: "('b \<Rightarrow> 'a \<Rightarrow> 'b result) \<Rightarrow> 'b \<Rightarrow> 'a list \<Rightarrow> 'b result" where
  "fold_r f b [] = Inr b"
| "fold_r f b (x # xs) = bind_r (f b x) (\<lambda>b'. fold_r f b' xs)"

section \<open>Actions: results that thread a state\<close>

type_synonym ('s, 'a) act = "'s \<Rightarrow> 'a result \<times> 's"

definition ret :: "'a \<Rightarrow> ('s, 'a) act" where
  "ret x = (\<lambda>s. (Inr x, s))"

definition lift_r :: "'a result \<Rightarrow> ('s, 'a) act" where
  "lift_r r = (\<lambda>s. (r, s))"

definition bail_a :: "string \<Rightarrow> ('s, 'a) act" where
  "bail_a msg = (\<lambda>s. (Inl (Bail msg), s))"

definition bind_a :: "('s, 'a) act \<Rightarrow> ('a \<Rightarrow> ('s, 'b) act) \<Rightarrow> ('s, 'b) act" where
  "bind_a m f = (\<lambda>s. case m s of (Inl e, s') \<Rightarrow> (Inl e, s') | (Inr x, s') \<Rightarrow> f x s')"

definition ctx_a :: "string \<Rightarrow> ('s, 'a) act \<Rightarrow> ('s, 'a) act" where
  "ctx_a msg m = (\<lambda>s. case m s of (Inl e, s') \<Rightarrow> (Inl (Ctx msg e), s') | (Inr x, s') \<Rightarrow> (Inr x, s'))"

primrec fold_a :: "('b \<Rightarrow> 'a \<Rightarrow> ('s, 'b) act) \<Rightarrow> 'b \<Rightarrow> 'a list \<Rightarrow> ('s, 'b) act" where
  "fold_a f b [] = ret b"
| "fold_a f b (x # xs) = bind_a (f b x) (\<lambda>b'. fold_a f b' xs)"

primrec map_a :: "('a \<Rightarrow> ('s, 'b) act) \<Rightarrow> 'a list \<Rightarrow> ('s, 'b list) act" where
  "map_a f [] = ret []"
| "map_a f (x # xs) = bind_a (f x) (\<lambda>y. bind_a (map_a f xs) (\<lambda>ys. ret (y # ys)))"

section \<open>Third-party operations\<close>

text \<open>
  \<open>sha256\<close> is \<^verbatim>\<open>sha2::Sha256::digest\<close>, \<open>keccak256\<close> is \<^verbatim>\<open>sha3::Keccak256::digest\<close>,
  \<open>zstd_encode\<close> is the page encoder of crate \<^verbatim>\<open>zstd\<close> (level 3, window log 20) and
  \<open>zstd_decode n\<close> is \<^verbatim>\<open>ruzstd\<close>'s streaming decoder with window limit \<open>n\<close>: the bytes it
  streams, or its error. \<open>hex_encode\<close> and \<open>hex_decode\<close> are those of crate \<^verbatim>\<open>hex\<close>.
  Theories whose code calls more third-party code extend the record.
\<close>

record ext =
  sha256 :: "bytes \<Rightarrow> hash32"
  keccak256 :: "bytes \<Rightarrow> hash32"
  zstd_encode :: "bytes \<Rightarrow> bytes result"
  zstd_decode :: "nat \<Rightarrow> bytes \<Rightarrow> bytes result"
  hex_encode :: "bytes \<Rightarrow> string"
  hex_decode :: "string \<Rightarrow> bytes result"

section \<open>Byte strings\<close>

definition ascii :: "string \<Rightarrow> bytes" where
  "ascii s = map of_char s"

text \<open>\<^verbatim>\<open>to_be_bytes\<close> and \<^verbatim>\<open>from_be_bytes\<close>, on the unsigned value.\<close>

primrec to_be :: "nat \<Rightarrow> nat \<Rightarrow> bytes" where
  "to_be 0 v = []"
| "to_be (Suc n) v = to_be n (v div 256) @ [word_of_nat v]"

definition be_nat :: "bytes \<Rightarrow> nat" where
  "be_nat bs = foldl (\<lambda>n b. n * 256 + unat b) 0 bs"

definition u32_be :: "u32 \<Rightarrow> bytes" where
  "u32_be w = to_be 4 (unat w)"

definition u64_be :: "u64 \<Rightarrow> bytes" where
  "u64_be w = to_be 8 (unat w)"

definition h32_be :: "hash32 \<Rightarrow> bytes" where
  "h32_be h = to_be 32 (unat h)"

definition addr_be :: "address \<Rightarrow> bytes" where
  "addr_be a = to_be 20 (unat a)"

definition of_be :: "bytes \<Rightarrow> 'a::len word" where
  "of_be bs = word_of_nat (be_nat bs)"

text \<open>\<^verbatim>\<open>slice.get(a..b)\<close>.\<close>

definition get_range :: "'a list \<Rightarrow> nat \<Rightarrow> nat \<Rightarrow> 'a list option" where
  "get_range xs a b = (if a \<le> b \<and> b \<le> length xs then Some (take (b - a) (drop a xs)) else None)"

text \<open>\<^verbatim>\<open>slice::partition_point\<close>, on a slice that the predicate partitions.\<close>

definition partition_point :: "('a \<Rightarrow> bool) \<Rightarrow> 'a list \<Rightarrow> nat" where
  "partition_point P xs = length (takeWhile P xs)"

definition last_opt :: "'a list \<Rightarrow> 'a option" where
  "last_opt xs = (if xs = [] then None else Some (last xs))"

definition first_opt :: "'a list \<Rightarrow> 'a option" where
  "first_opt xs = (case xs of [] \<Rightarrow> None | x # _ \<Rightarrow> Some x)"

text \<open>\<^verbatim>\<open>u64::to_string\<close>: the decimal digits.\<close>

fun decimal :: "nat \<Rightarrow> string" where
  "decimal n = (if n < 10 then [char_of (48 + n)] else decimal (n div 10) @ [char_of (48 + n mod 10)])"

declare decimal.simps [simp del]

section \<open>Lemmas\<close>

named_theorems act_simps \<open>unfolding of results and actions\<close>
named_theorems eval_simps \<open>evaluation of closed byte strings\<close>

lemma bail_neq_Inr [simp]: "bail m \<noteq> Inr x" "Inr x \<noteq> bail m"
  by (simp_all add: bail_def)

lemma bind_r_simps [simp]: "bind_r (Inl e) f = Inl e" "bind_r (Inr x) f = f x" "bind_r (bail m) f = bail m"
  by (simp_all add: bind_r_def bail_def)

lemma bind_r_Inr [simp]: "bind_r r f = Inr y \<longleftrightarrow> (\<exists>x. r = Inr x \<and> f x = Inr y)"
  by (auto simp: bind_r_def split: sum.splits)

lemma bind_r_cong [fundef_cong]:
  "r = r' \<Longrightarrow> (\<And>x. r' = Inr x \<Longrightarrow> f x = f' x) \<Longrightarrow> bind_r r f = bind_r r' f'"
  by (auto simp: bind_r_def split: sum.splits)

lemma ctx_r_simps [simp]: "ctx_r m (Inr x) = Inr x" "ctx_r m (Inl e) = Inl (Ctx m e)"
  by (simp_all add: ctx_r_def)

lemma ctx_r_Inr [simp]: "ctx_r m r = Inr x \<longleftrightarrow> r = Inr x"
  by (auto simp: ctx_r_def split: sum.splits)

lemma ok_or_simps [simp]: "ok_or m (Some x) = Inr x" "ok_or m None = bail m"
  by (simp_all add: ok_or_def)

lemma ok_or_Inr [simp]: "ok_or m v = Inr x \<longleftrightarrow> v = Some x"
  by (auto simp: ok_or_def split: option.splits)

lemma if_bail_Inr [simp]:
  "(if c then bail m else r) = Inr x \<longleftrightarrow> \<not> c \<and> r = Inr x"
  "(if c then r else bail m) = Inr x \<longleftrightarrow> c \<and> r = Inr x"
  by auto

lemma map_r_Inr: "map_r f xs = Inr ys \<longleftrightarrow> list_all2 (\<lambda>x y. f x = Inr y) xs ys"
  by (induction xs arbitrary: ys) (auto simp: list_all2_Cons1)

lemma act_apply [simp]:
  "ret x s = (Inr x, s)"
  "lift_r r s = (r, s)"
  "bail_a m s = (Inl (Bail m), s)"
  by (simp_all add: ret_def lift_r_def bail_a_def)

lemma bind_a_Inr [simp]:
  "bind_a m f s = (Inr y, t) \<longleftrightarrow> (\<exists>x s'. m s = (Inr x, s') \<and> f x s' = (Inr y, t))"
  by (auto simp: bind_a_def split: prod.splits sum.splits)

lemma bind_a_step [act_simps]:
  "m s = (Inr x, s') \<Longrightarrow> bind_a m f s = f x s'"
  "m s = (Inl e, s') \<Longrightarrow> bind_a m f s = (Inl e, s')"
  by (simp_all add: bind_a_def)

lemma bind_a_ret [simp]:
  "bind_a (ret x) f = f x"
  "bind_a (lift_r (Inr x)) f = f x"
  "bind_a (lift_r (Inl e)) f s = (Inl e, s)"
  "bind_a (bail_a m) f s = (Inl (Bail m), s)"
  by (simp_all add: bind_a_def ret_def lift_r_def bail_a_def)

lemma bind_a_cong [fundef_cong]:
  "m s = m' s' \<Longrightarrow> s = s' \<Longrightarrow> (\<And>x t. m' s' = (Inr x, t) \<Longrightarrow> f x t = f' x t) \<Longrightarrow> bind_a m f s = bind_a m' f' s'"
  by (auto simp: bind_a_def split: prod.splits sum.splits)

lemma ctx_a_Inr [simp]: "ctx_a m a s = (Inr x, t) \<longleftrightarrow> a s = (Inr x, t)"
  by (auto simp: ctx_a_def split: prod.splits sum.splits)

lemma ctx_a_step [act_simps]:
  "a s = (Inr x, s') \<Longrightarrow> ctx_a m a s = (Inr x, s')"
  "a s = (Inl e, s') \<Longrightarrow> ctx_a m a s = (Inl (Ctx m e), s')"
  by (simp_all add: ctx_a_def)

lemma fold_a_Cons_Inr:
  "fold_a f b (x # xs) s = (Inr c, t) \<longleftrightarrow> (\<exists>b' s'. f b x s = (Inr b', s') \<and> fold_a f b' xs s' = (Inr c, t))"
  by simp

lemma fold_a_append:
  "fold_a f b (xs @ ys) s = (Inr c, t) \<longleftrightarrow>
     (\<exists>b' s'. fold_a f b xs s = (Inr b', s') \<and> fold_a f b' ys s' = (Inr c, t))"
  by (induction xs arbitrary: b s) auto

text \<open>The invariant rule for a loop of actions.\<close>

lemma fold_a_invariant:
  assumes "fold_a f b xs s = (Inr c, t)"
    and "P b s"
    and "\<And>b x s b' s'. x \<in> set xs \<Longrightarrow> P b s \<Longrightarrow> f b x s = (Inr b', s') \<Longrightarrow> P b' s'"
  shows "P c t"
  using assms
proof (induction xs arbitrary: b s)
  case Nil
  then show ?case by simp
next
  case (Cons x xs)
  from Cons.prems(1) obtain b' s' where "f b x s = (Inr b', s')" "fold_a f b' xs s' = (Inr c, t)"
    by auto
  with Cons.prems Cons.IH [of b' s'] show ?case by (metis list.set_intros)
qed

subsection \<open>Big-endian encodings\<close>

lemma length_to_be [simp]: "length (to_be n v) = n"
  by (induction n arbitrary: v) auto

lemma be_nat_Nil [simp]: "be_nat [] = 0"
  by (simp add: be_nat_def)

lemma be_nat_snoc [simp]: "be_nat (bs @ [b]) = be_nat bs * 256 + unat b"
  by (simp add: be_nat_def)

lemma unat_word8: "unat (word_of_nat v :: u8) = v mod 256"
  by (simp add: unat_of_nat)

lemma be_nat_to_be: "be_nat (to_be n v) = v mod 256 ^ n"
proof (induction n arbitrary: v)
  case 0
  then show ?case by simp
next
  case (Suc n)
  have "v div 256 mod 256 ^ n * 256 + v mod 256 = v mod 256 ^ Suc n"
    using mod_mult2_eq [of v 256 "256 ^ n"] by (simp add: mult.commute)
  then show ?case by (simp add: Suc.IH unat_word8)
qed

lemma be_nat_bound: "be_nat bs < 256 ^ length bs"
proof (induction bs rule: rev_induct)
  case Nil
  then show ?case by simp
next
  case (snoc b bs)
  have "unat b < 256" using unsigned_less [of b] by simp
  with snoc.IH show ?case by simp
qed

lemma to_be_be_nat: "length bs = n \<Longrightarrow> to_be n (be_nat bs) = bs"
proof (induction bs arbitrary: n rule: rev_induct)
  case Nil
  then show ?case by simp
next
  case (snoc b bs)
  have b: "unat b < 256" using unsigned_less [of b] by simp
  from snoc.prems obtain m where n: "n = Suc m" "length bs = m" by simp
  have "word_of_nat (be_nat bs * 256 + unat b) = b"
    by (rule word_unat_eq_iff [THEN iffD2]) (simp only: unat_word8 mod_mult_self3 mod_less [OF b])
  with b snoc.IH n show ?case by simp
qed

lemma be_lengths [simp]:
  "length (u32_be a) = 4" "length (u64_be b) = 8" "length (h32_be c) = 32" "length (addr_be d) = 20"
  by (simp_all add: u32_be_def u64_be_def h32_be_def addr_be_def)

lemma of_be_to_be:
  assumes "LENGTH('a::len) = 8 * n"
  shows "of_be (to_be n (unat (w :: 'a word))) = w"
proof -
  have "unat w < 256 ^ n"
    using unsigned_less [of w] by (simp add: assms power_mult)
  then show ?thesis by (simp add: of_be_def be_nat_to_be)
qed

lemma of_be_be [simp]:
  "of_be (u32_be a) = a" "of_be (u64_be b) = b" "of_be (h32_be c) = c" "of_be (addr_be d) = d"
  by (simp_all add: u32_be_def u64_be_def h32_be_def addr_be_def of_be_to_be)

lemma to_be_of_be:
  assumes "length bs = n" and "LENGTH('a::len) = 8 * n"
  shows "to_be n (unat (of_be bs :: 'a word)) = bs"
proof -
  have "be_nat bs < 2 ^ LENGTH('a)"
    using be_nat_bound [of bs] assms by (simp add: power_mult)
  then have "unat (of_be bs :: 'a word) = be_nat bs"
    by (simp add: of_be_def unat_of_nat)
  with assms(1) show ?thesis by (simp add: to_be_be_nat)
qed

lemma be_of_be:
  "length bs = 4 \<Longrightarrow> u32_be (of_be bs) = bs"
  "length bs = 8 \<Longrightarrow> u64_be (of_be bs) = bs"
  "length bs = 32 \<Longrightarrow> h32_be (of_be bs) = bs"
  "length bs = 20 \<Longrightarrow> addr_be (of_be bs) = bs"
  by (simp_all add: u32_be_def u64_be_def h32_be_def addr_be_def to_be_of_be)

lemma be_inject [simp]:
  "u32_be a = u32_be a' \<longleftrightarrow> a = a'"
  "u64_be b = u64_be b' \<longleftrightarrow> b = b'"
  "h32_be c = h32_be c' \<longleftrightarrow> c = c'"
  "addr_be d = addr_be d' \<longleftrightarrow> d = d'"
  by (metis of_be_be(1), metis of_be_be(2), metis of_be_be(3), metis of_be_be(4))

lemma to_be_numeral [eval_simps]:
  "to_be (numeral k) v = to_be (pred_numeral k) (v div 256) @ [word_of_nat v]"
  by (metis numeral_eq_Suc to_be.simps(2))

lemma length_ascii [simp]: "length (ascii s) = length s"
  by (simp add: ascii_def)

subsection \<open>Decimal strings\<close>

lemma digit_char_inject:
  assumes "m < 10" "n < 10"
  shows "(char_of (48 + m) :: char) = char_of (48 + n) \<longleftrightarrow> m = (n :: nat)"
proof
  assume "(char_of (48 + m) :: char) = char_of (48 + n)"
  then have "of_char (char_of (48 + m) :: char) = (of_char (char_of (48 + n) :: char) :: nat)" by simp
  with assms show "m = n" by (simp only: of_char_of) simp
qed simp

lemma decimal_inject [simp]: "decimal m = decimal n \<longleftrightarrow> m = n"
proof
  show "decimal m = decimal n \<Longrightarrow> m = n"
  proof (induction m arbitrary: n rule: decimal.induct)
    case (1 m)
    have single: "decimal k \<noteq> []" for k by (subst decimal.simps) simp
    show ?case
    proof (cases "m < 10")
      case True
      then have "decimal n = [char_of (48 + m)]" using 1(2) by (simp add: decimal.simps [of m])
      then have "n < 10" "char_of (48 + n) = (char_of (48 + m) :: char)"
        using single by (subst (asm) (1) decimal.simps; simp split: if_splits)+
      with True show ?thesis by (simp add: digit_char_inject)
    next
      case False
      then have m: "decimal n = decimal (m div 10) @ [char_of (48 + m mod 10)]" using 1(2) by (simp add: decimal.simps [of m])
      have n: "\<not> n < 10" using m single [of "m div 10"] by (subst (asm) (1) decimal.simps) (auto split: if_splits)
      then have "decimal (m div 10) = decimal (n div 10)" "(char_of (48 + m mod 10) :: char) = char_of (48 + n mod 10)"
        using m by (simp_all add: decimal.simps [of n])
      then have "m div 10 = n div 10" "m mod 10 = n mod 10" using 1(1) [OF False] by (simp_all add: digit_char_inject)
      then show ?thesis by (metis div_mult_mod_eq)
    qed
  qed
qed simp

subsection \<open>Slices\<close>

lemma get_range_append:
  "n = length xs \<Longrightarrow> m = n + length ys \<Longrightarrow> get_range (xs @ ys @ zs) n m = Some ys"
  by (simp add: get_range_def)

lemma last_opt_simps [simp]: "last_opt [] = None" "last_opt (xs @ [x]) = Some x" "last_opt [x] = Some x"
  by (simp_all add: last_opt_def)

lemma last_opt_eq [simp]: "last_opt xs = None \<longleftrightarrow> xs = []" "last_opt xs = Some x \<longleftrightarrow> xs \<noteq> [] \<and> last xs = x"
  by (auto simp: last_opt_def)

lemma first_opt_simps [simp]: "first_opt [] = None" "first_opt (x # xs) = Some x"
  by (simp_all add: first_opt_def)

lemma first_opt_eq [simp]: "first_opt xs = None \<longleftrightarrow> xs = []" "first_opt xs = Some x \<longleftrightarrow> (\<exists>ys. xs = x # ys)"
  by (auto simp: first_opt_def split: list.splits)

lemma get_range_iff:
  "get_range xs a b = Some ys \<longleftrightarrow> a \<le> b \<and> b \<le> length xs \<and> length ys = b - a \<and> drop a xs = ys @ drop b xs"
proof
  assume "get_range xs a b = Some ys"
  then have *: "a \<le> b" "b \<le> length xs" "ys = take (b - a) (drop a xs)"
    by (auto simp: get_range_def split: if_splits)
  then have "drop a xs = ys @ drop b xs"
    by (metis append_take_drop_id drop_drop le_add_diff_inverse2)
  moreover have "length ys = b - a" using * by simp
  ultimately show "a \<le> b \<and> b \<le> length xs \<and> length ys = b - a \<and> drop a xs = ys @ drop b xs"
    using * by blast
next
  assume *: "a \<le> b \<and> b \<le> length xs \<and> length ys = b - a \<and> drop a xs = ys @ drop b xs"
  then have "take (b - a) (drop a xs) = ys" by simp
  with * show "get_range xs a b = Some ys" by (simp add: get_range_def)
qed

subsection \<open>Strictly sorted lists and predecessors\<close>

abbreviation ssorted :: "'a::linorder list \<Rightarrow> bool" where
  "ssorted \<equiv> sorted_wrt (<)"

lemma ssorted_snoc:
  "ssorted (xs @ [x]) \<longleftrightarrow> ssorted xs \<and> (xs = [] \<or> last xs < x)"
proof (cases xs rule: rev_cases)
  case Nil
  then show ?thesis by simp
next
  case (snoc ys y)
  then show ?thesis
    by (auto simp: sorted_wrt_append dest: less_trans)
qed

lemma ssorted_append:
  "ssorted (xs @ ys) \<longleftrightarrow> ssorted xs \<and> ssorted ys \<and> (\<forall>x\<in>set xs. \<forall>y\<in>set ys. x < y)"
  by (auto simp: sorted_wrt_append)

lemma ssorted_filter: "ssorted (map f xs) \<Longrightarrow> ssorted (map f (filter P xs))"
  by (induction xs) auto

text \<open>A list sorted by an injective-on-it key is determined by its elements.\<close>

lemma ssorted_unique:
  assumes "ssorted (map f xs)" "ssorted (map f ys)" "set xs = set ys"
  shows "xs = ys"
proof -
  have "map f xs = map f ys" using assms by (intro strict_sorted_equal) simp_all
  moreover have "inj_on f (set xs \<union> set ys)" using assms by (simp add: strict_sorted_iff distinct_map)
  ultimately show ?thesis by (metis map_inj_on)
qed

lemma ssorted_hd_le: "ssorted (map f xs) \<Longrightarrow> x \<in> set xs \<Longrightarrow> f (hd xs) \<le> f x"
  by (cases xs) (auto intro: less_imp_le)

lemma ssorted_heads:
  assumes "ssorted (map f (concat xss))" and "\<forall>xs\<in>set xss. xs \<noteq> []"
  shows "ssorted (map (\<lambda>xs. f (hd xs)) xss)"
  using assms
proof (induction xss)
  case Nil
  then show ?case by simp
next
  case (Cons xs xss)
  have "f (hd xs) < f (hd ys)" if "ys \<in> set xss" for ys
  proof -
    have "hd xs \<in> set xs" "hd ys \<in> set ys" using Cons.prems(2) that by auto
    with Cons.prems(1) that show ?thesis by (auto simp: ssorted_append)
  qed
  with Cons show ?case by (simp add: ssorted_append)
qed

lemma ssorted_takeWhile:
  assumes "ssorted (map f xs)"
  shows "takeWhile (\<lambda>x. f x \<le> t) xs = filter (\<lambda>x. f x \<le> t) xs"
  using assms
proof (induction xs)
  case Nil
  then show ?case by simp
next
  case (Cons x xs)
  have "filter (\<lambda>x. f x \<le> t) xs = []" if "\<not> f x \<le> t"
    using Cons.prems that by (force simp: filter_empty_conv)
  with Cons show ?case by auto
qed

text \<open>
  The element before \<^verbatim>\<open>xs.partition_point(|x| f(x) <= target)\<close>: \<^verbatim>\<open>lookup\<close> finds the fence and
  the record to follow this way, returning early when the point is 0.
\<close>

definition predecessor :: "('a \<Rightarrow> 'k::linorder) \<Rightarrow> 'k \<Rightarrow> 'a list \<Rightarrow> 'a option" where
  "predecessor f target xs =
     (let position = partition_point (\<lambda>x. f x \<le> target) xs
      in if position = 0 then None else Some (xs ! (position - 1)))"

lemma predecessor_last: "predecessor f t xs = last_opt (takeWhile (\<lambda>x. f x \<le> t) xs)"
proof (cases "takeWhile (\<lambda>x. f x \<le> t) xs = []")
  case True
  then show ?thesis by (simp add: predecessor_def partition_point_def)
next
  case False
  then show ?thesis
    by (simp add: predecessor_def partition_point_def last_opt_def last_conv_nth takeWhile_nth)
qed

lemma predecessor_sorted:
  "ssorted (map f xs) \<Longrightarrow> predecessor f t xs = last_opt (filter (\<lambda>x. f x \<le> t) xs)"
  by (simp add: predecessor_last ssorted_takeWhile)

lemma predecessor_None:
  assumes "predecessor g t fs = None"
    and "list_all2 (\<lambda>h xs. xs \<noteq> [] \<and> g h = f (hd xs)) fs xss"
    and "ssorted (map f (concat xss))"
  shows "filter (\<lambda>x. f x \<le> t) (concat xss) = []"
proof (cases xss)
  case Nil
  then show ?thesis by simp
next
  case (Cons xs rest)
  with assms(2) obtain h fs' where fs: "fs = h # fs'" "xs \<noteq> []" "g h = f (hd xs)"
    by (auto simp: list_all2_Cons2)
  with assms(1) have "t < f (hd xs)"
    by (auto simp: predecessor_last split: if_splits)
  moreover have "f (hd xs) \<le> f x" if "x \<in> set (concat xss)" for x
    using ssorted_hd_le [OF assms(3) that] fs(2) Cons by simp
  ultimately show ?thesis by (fastforce simp: filter_empty_conv)
qed

lemma predecessor_Some:
  assumes "predecessor g t fs = Some h"
    and "list_all2 (\<lambda>h xs. xs \<noteq> [] \<and> g h = f (hd xs)) fs xss"
    and "ssorted (map f (concat xss))"
  obtains i where "i < length fs" "fs ! i = h"
    "last_opt (filter (\<lambda>x. f x \<le> t) (concat xss)) = last_opt (filter (\<lambda>x. f x \<le> t) (xss ! i))"
proof -
  let ?n = "length (takeWhile (\<lambda>h. g h \<le> t) fs)"
  let ?P = "\<lambda>x. f x \<le> t"
  from assms(1) have n: "?n \<noteq> 0" "fs ! (?n - 1) = h"
    by (auto simp: predecessor_def partition_point_def Let_def split: if_splits)
  have le: "?n \<le> length fs" by (rule length_takeWhile_le)
  have len: "length fs = length xss" using assms(2) by (rule list_all2_lengthD)
  have at: "xss ! j \<noteq> [] \<and> g (fs ! j) = f (hd (xss ! j))" if "j < length fs" for j
    using assms(2) that by (rule list_all2_nthD)
  let ?i = "?n - 1"
  have i: "?i < length fs" using n le by linarith
  have split: "concat xss = concat (take ?i xss) @ xss ! ?i @ concat (drop ?n xss)"
    using i len n id_take_nth_drop [of ?i xss] by (metis Suc_diff_1 concat.simps(2) concat_append neq0_conv)
  have "takeWhile (\<lambda>h. g h \<le> t) fs ! ?i \<in> set (takeWhile (\<lambda>h. g h \<le> t) fs)"
    using n by (intro nth_mem) simp
  then have "g (fs ! ?i) \<le> t"
    using n by (auto dest: set_takeWhileD simp: takeWhile_nth)
  then have "hd (xss ! ?i) \<in> set (filter ?P (xss ! ?i))" using at [OF i] by simp
  then have ne: "filter ?P (xss ! ?i) \<noteq> []" by (metis empty_iff list.set(1))
  have "filter ?P (concat (drop ?n xss)) = []"
  proof (cases "?n < length fs")
    case True
    then have "t < f (hd (xss ! ?n))"
      using nth_length_takeWhile [of "\<lambda>h. g h \<le> t" fs] at [of ?n] by auto
    moreover have "f (hd (xss ! ?n)) \<le> f x" if "x \<in> set (concat (drop ?n xss))" for x
    proof -
      have *: "concat (drop ?n xss) = xss ! ?n @ concat (drop (Suc ?n) xss)"
        using True len by (metis Cons_nth_drop_Suc concat.simps(2))
      moreover have "ssorted (map f (concat (drop ?n xss)))"
        using assms(3) split by (simp add: ssorted_append)
      ultimately show ?thesis
        using that at [OF True] ssorted_hd_le [of f "concat (drop ?n xss)" x] by simp
    qed
    ultimately show ?thesis by (fastforce simp: filter_empty_conv)
  next
    case False
    then show ?thesis using len by simp
  qed
  with split ne have "last_opt (filter ?P (concat xss)) = last_opt (filter ?P (xss ! ?i))"
    by (simp add: last_opt_def)
  with i n that show thesis by blast
qed

lemma unat_plus_le: "unat (x + word_of_nat n) \<le> unat (x :: 'a::len word) + n"
proof -
  have "unat (x + word_of_nat n) \<le> unat x + unat (word_of_nat n :: 'a word)" by (simp add: unat_word_ariths)
  also have "\<dots> \<le> unat x + n" by (simp add: unat_of_nat)
  finally show ?thesis .
qed

section \<open>Outcomes of actions\<close>

text \<open>
  A postcondition for a run of an action: an error satisfies \<open>F\<close>, or a result and the state
  reached satisfy \<open>Q\<close>. With \<open>F = (\<lambda>_. False)\<close> it states that the action succeeds.
\<close>

definition outcome :: "(error \<Rightarrow> bool) \<Rightarrow> ('a \<Rightarrow> 's \<Rightarrow> bool) \<Rightarrow> 'a result \<times> 's \<Rightarrow> bool" where
  "outcome F Q rs = (case rs of (Inl e, _) \<Rightarrow> F e | (Inr x, s) \<Rightarrow> Q x s)"

lemma outcome_simps [simp]:
  "outcome F Q (Inl e, s) = F e"
  "outcome F Q (Inr x, s) = Q x s"
  by (simp_all add: outcome_def)

lemma outcome_bind [simp]:
  "outcome F Q (bind_a m f s) = outcome F (\<lambda>x t. outcome F Q (f x t)) (m s)"
  by (auto simp: outcome_def bind_a_def split: prod.splits sum.splits)

lemma outcome_ctx [simp]: "outcome F Q (ctx_a msg m s) = outcome (\<lambda>e. F (Ctx msg e)) Q (m s)"
  by (auto simp: outcome_def ctx_a_def split: prod.splits sum.splits)

lemma outcome_mono:
  "outcome F Q rs \<Longrightarrow> (\<And>e. F e \<Longrightarrow> F' e) \<Longrightarrow> (\<And>x s. Q x s \<Longrightarrow> Q' x s) \<Longrightarrow> outcome F' Q' rs"
  by (auto simp: outcome_def split: prod.splits sum.splits)

lemma outcome_Inr: "outcome F Q rs \<Longrightarrow> rs = (Inr x, s) \<Longrightarrow> Q x s"
  by simp

lemma outcome_total: "outcome (\<lambda>_. False) Q rs \<Longrightarrow> \<exists>x s. rs = (Inr x, s) \<and> Q x s"
  by (auto simp: outcome_def split: prod.splits sum.splits)

lemma outcome_fold:
  assumes "I [] b s"
    and "\<And>ys x b s. prefix (ys @ [x]) xs \<Longrightarrow> I ys b s \<Longrightarrow> outcome F (I (ys @ [x])) (f b x s)"
  shows "outcome F (I xs) (fold_a f b xs s)"
proof -
  have "outcome F (I (ys @ zs)) (fold_a f b zs s)" if "I ys b s" "ys @ zs = xs" for ys zs b s
    using that
  proof (induction zs arbitrary: ys b s)
    case Nil
    then show ?case by simp
  next
    case (Cons z zs)
    then have "prefix (ys @ [z]) xs" by (auto simp: prefix_def)
    with Cons.prems(1) have "outcome F (I (ys @ [z])) (f b z s)" by (intro assms(2))
    then show ?case
      using Cons.IH [of "ys @ [z]"] Cons.prems(2) by (auto elim!: outcome_mono)
  qed
  from this [of "[]" b s xs] assms(1) show ?thesis by simp
qed

lemma outcome_map:
  assumes "K s" and "\<And>i s. i < length xs \<Longrightarrow> K s \<Longrightarrow> outcome F (\<lambda>y s'. K s' \<and> P i y) (f (xs ! i) s)"
  shows "outcome F (\<lambda>ys s'. K s' \<and> length ys = length xs \<and> (\<forall>i<length xs. P i (ys ! i))) (map_a f xs s)"
  using assms
proof (induction xs arbitrary: s P)
  case Nil
  then show ?case by simp
next
  case (Cons x xs)
  have head: "outcome F (\<lambda>y s'. K s' \<and> P 0 y) (f x s)" using Cons.prems(1) Cons.prems(2) [of 0 s] by simp
  have tail: "outcome F (\<lambda>ys s'. K s' \<and> length ys = length xs \<and> (\<forall>i<length xs. P (Suc i) (ys ! i))) (map_a f xs t)" if "K t" for t
    using that Cons.prems(2) [of "Suc _"] by (intro Cons.IH) auto
  show ?case
    by simp (rule outcome_mono [OF head], assumption, rule outcome_mono [OF tail], auto simp: All_less_Suc2)
qed

section \<open>What an action keeps of its state\<close>

text \<open>Every run of \<open>m\<close>, failing or not, relates the state before to the state after by \<open>R\<close>.\<close>

definition keeps :: "('s \<Rightarrow> 's \<Rightarrow> bool) \<Rightarrow> ('s, 'a) act \<Rightarrow> bool" where
  "keeps R m \<longleftrightarrow> (\<forall>s. R s (snd (m s)))"

named_theorems keeps_rules \<open>compositional rules for keeps\<close>

lemma keepsD: "keeps R m \<Longrightarrow> m s = (x, s') \<Longrightarrow> R s s'"
  by (metis keeps_def snd_conv)

lemma keepsI: "(\<And>s x s'. m s = (x, s') \<Longrightarrow> R s s') \<Longrightarrow> keeps R m"
  unfolding keeps_def by (metis prod.collapse)

text \<open>The relations of interest compare a quantity of the two states in a preorder.\<close>

abbreviation grows :: "('s \<Rightarrow> 'p::preorder) \<Rightarrow> 's \<Rightarrow> 's \<Rightarrow> bool" where
  "grows f \<equiv> (\<lambda>s s'. f s \<le> f s')"

lemma keeps_pure [keeps_rules]:
  "keeps (grows f) (ret x)" "keeps (grows f) (lift_r r)" "keeps (grows f) (bail_a msg)" "keeps (grows f) (Pair r)"
  by (simp_all add: keeps_def)

lemma keeps_bind [keeps_rules]:
  assumes "keeps (grows f) m" "\<And>x. keeps (grows f) (g x)"
  shows "keeps (grows f) (bind_a m g)"
proof (rule keepsI)
  fix s y s' assume "bind_a m g s = (y, s')"
  moreover obtain r t where "m s = (r, t)" by (cases "m s")
  ultimately show "f s \<le> f s'"
    using keepsD [OF assms(1), of s] keepsD [OF assms(2)] by (cases r) (auto simp: bind_a_step intro: order_trans)
qed

lemma keeps_ctx [keeps_rules]: "keeps R m \<Longrightarrow> keeps R (ctx_a msg m)"
  by (auto simp: keeps_def ctx_a_def split: prod.splits sum.splits) (metis snd_conv)+

lemma keeps_fold [keeps_rules]: "(\<And>b x. keeps (grows f) (g b x)) \<Longrightarrow> keeps (grows f) (fold_a g b xs)"
  by (induction xs arbitrary: b) (auto intro!: keeps_rules)

lemma keeps_map [keeps_rules]: "(\<And>x. keeps (grows f) (g x)) \<Longrightarrow> keeps (grows f) (map_a g xs)"
  by (induction xs) (auto intro!: keeps_rules)

end
