(* ===== verification/Run_Codec.thy ===== *)
theory Run_Codec
  imports Fossil_Prelude
begin

text \<open>
  The encodings of a run: the free functions of \<^verbatim>\<open>codec/src/run.rs\<close> and \<^verbatim>\<open>Hash32::object_key\<close>.
  Data pages, fence indexes and object references are byte strings; encoders and decoders are
  written over them as the code writes them, with a cursor into the buffer. The lemmas are
  the round trips of each pair, the facts a successful decode establishes, and that a decoder
  accepts bytes only under their SHA-256 and exact length.
\<close>

section \<open>Constants\<close>

definition ROOT_MAGIC :: bytes where "ROOT_MAGIC = ascii ''FTRT''"
definition INDEX_MAGIC :: bytes where "INDEX_MAGIC = ascii ''FTIX''"
definition DATA_MAGIC :: bytes where "DATA_MAGIC = ascii ''FTDP''"
definition INTERNAL_MAGIC :: bytes where "INTERNAL_MAGIC = ascii ''FTIR''"
definition COMPRESSED_MAGIC :: bytes where "COMPRESSED_MAGIC = ascii ''FTRZ''"
definition VERSION :: u8 where "VERSION = 1"
definition PARTITIONS :: nat where "PARTITIONS = 16"
definition MAX_PAGE_BYTES :: nat where "MAX_PAGE_BYTES = 1024 * 1024"
definition MAX_INDEX_BYTES :: nat where "MAX_INDEX_BYTES = 512 * 1024"
definition ROOT_BYTES :: nat where "ROOT_BYTES = 4 + 1 + PARTITIONS * 36"
definition REF_BYTES :: nat where "REF_BYTES = 36"

section \<open>Data\<close>

record obj_ref =
  ref_digest :: hash32
  ref_length :: u32

definition default_ref :: obj_ref where
  "default_ref = \<lparr>ref_digest = 0, ref_length = 0\<rparr>"

record encoded_object =
  obj_reference :: obj_ref
  obj_bytes :: bytes

record krecord =
  rec_key :: bytes
  rec_block :: u64
  rec_value :: bytes

record fence =
  fence_key :: bytes
  fence_block :: u64
  fence_data :: obj_ref

text \<open>The tuples \<^verbatim>\<open>(&record.key, record.block)\<close> and \<^verbatim>\<open>(&fence.key, fence.block)\<close> the code compares.\<close>

definition rec_vkey :: "krecord \<Rightarrow> vkey" where
  "rec_vkey r = (rec_key r, rec_block r)"

definition fence_vkey :: "fence \<Rightarrow> vkey" where
  "fence_vkey f = (fence_key f, fence_block f)"

section \<open>Operations\<close>

definition object_key :: "'x ext_scheme \<Rightarrow> hash32 \<Rightarrow> string" where
  "object_key E h =
     (let hex = hex_encode E (h32_be h)
      in ''objects/sha256/'' @ take 2 hex @ ''/'' @ hex)"

definition validate_index_ref :: "obj_ref \<Rightarrow> unit result" where
  "validate_index_ref r =
     (if ref_length r = 0 \<or> unat (ref_length r) > MAX_INDEX_BYTES \<or> ref_digest r = 0
      then bail ''run fence reference exceeds the 512 KiB pre-fetch bound''
      else Inr ())"

text \<open>The check of a data reference before its page is fetched, as \<^verbatim>\<open>lookup\<close> and the scanner write it.\<close>

definition validate_data_ref :: "obj_ref \<Rightarrow> unit result" where
  "validate_data_ref r =
     (if ref_length r = 0 \<or> unat (ref_length r) > MAX_PAGE_BYTES \<or> ref_digest r = 0
      then bail ''run data reference exceeds the 1 MiB pre-fetch bound''
      else Inr ())"

definition run_partition :: "'x ext_scheme \<Rightarrow> bytes \<Rightarrow> nat" where
  "run_partition E key = unat (drop_bit 4 (h32_be (sha256 E key) ! 0))"

definition data_page_start :: bytes where
  "data_page_start = DATA_MAGIC @ [VERSION] @ u32_be 0"

text \<open>\<^verbatim>\<open>u32::try_from(len)\<close>.\<close>

definition u32_try_from :: "string \<Rightarrow> nat \<Rightarrow> u32 result" where
  "u32_try_from msg n = (if n < 2 ^ 32 then Inr (word_of_nat n) else bail msg)"

definition encode_record :: "krecord \<Rightarrow> bytes result" where
  "encode_record r =
     bind_r (u32_try_from ''run key too long'' (length (rec_key r))) (\<lambda>key_len.
     bind_r (u32_try_from ''run value too long'' (length (rec_value r))) (\<lambda>value_len.
       Inr (u32_be key_len @ rec_key r @ u64_be (rec_block r) @ u32_be value_len @ rec_value r)))"

definition make_object :: "'x ext_scheme \<Rightarrow> bytes \<Rightarrow> encoded_object result" where
  "make_object E bs =
     bind_r (u32_try_from ''run object exceeds u32 reference length'' (length bs)) (\<lambda>len.
       Inr \<lparr>obj_reference = \<lparr>ref_digest = sha256 E bs, ref_length = len\<rparr>, obj_bytes = bs\<rparr>)"

definition verify_object :: "'x ext_scheme \<Rightarrow> obj_ref \<Rightarrow> bytes \<Rightarrow> unit result" where
  "verify_object E r bs =
     (if unat (ref_length r) \<noteq> length bs \<or> ref_digest r \<noteq> sha256 E bs
      then bail ''run object reference length or SHA-256 mismatch''
      else Inr ())"

definition put_bytes :: "bytes \<Rightarrow> bytes \<Rightarrow> bytes result" where
  "put_bytes out bs =
     bind_r (u32_try_from ''run key exceeds u32 length'' (length bs)) (\<lambda>len.
       Inr (out @ u32_be len @ bs))"

definition put_ref :: "bytes \<Rightarrow> obj_ref \<Rightarrow> bytes" where
  "put_ref out r = out @ h32_be (ref_digest r) @ u32_be (ref_length r)"

definition read_ref :: "bytes \<Rightarrow> nat \<Rightarrow> obj_ref result" where
  "read_ref bs offset =
     bind_r (ok_or ''truncated run object ref'' (get_range bs offset (offset + REF_BYTES))) (\<lambda>raw.
       Inr \<lparr>ref_digest = of_be (take 32 raw), ref_length = of_be (take 4 (drop 32 raw))\<rparr>)"

definition read_u32 :: "bytes \<Rightarrow> nat \<Rightarrow> (u32 \<times> nat) result" where
  "read_u32 bs cursor =
     bind_r (ok_or ''truncated run u32'' (get_range bs cursor (cursor + 4))) (\<lambda>raw.
       Inr (of_be raw, cursor + 4))"

definition read_u64 :: "bytes \<Rightarrow> nat \<Rightarrow> (u64 \<times> nat) result" where
  "read_u64 bs cursor =
     bind_r (ok_or ''truncated run u64'' (get_range bs cursor (cursor + 8))) (\<lambda>raw.
       Inr (of_be raw, cursor + 8))"

text \<open>One iteration of the record loop of \<^verbatim>\<open>parse_data_payload\<close>, on the cursor and the records so far.\<close>

definition parse_record ::
  "'x ext_scheme \<Rightarrow> bytes \<Rightarrow> nat option \<Rightarrow> nat \<Rightarrow> krecord list \<Rightarrow> (nat \<times> krecord list) result" where
  "parse_record E bs expected_partition cursor records =
     bind_r (read_u32 bs cursor) (\<lambda>(key_len, cursor).
     bind_r (ok_or ''truncated run key'' (get_range bs cursor (cursor + unat key_len))) (\<lambda>key.
     bind_r (read_u64 bs (cursor + unat key_len)) (\<lambda>(block, cursor).
     bind_r (read_u32 bs cursor) (\<lambda>(value_len, cursor).
     bind_r (ok_or ''truncated run value'' (get_range bs cursor (cursor + unat value_len))) (\<lambda>value.
       if key = [] \<or> (case expected_partition of None \<Rightarrow> False | Some p \<Rightarrow> run_partition E key \<noteq> p)
       then bail ''run page contains invalid or misrouted full key''
       else
         let record = \<lparr>rec_key = key, rec_block = block, rec_value = value\<rparr>
         in if (case last_opt records of None \<Rightarrow> False | Some prior \<Rightarrow> rec_vkey prior \<ge> rec_vkey record)
            then bail ''run data page records are not strictly sorted''
            else Inr (cursor + unat value_len, records @ [record]))))))"

primrec parse_records ::
  "'x ext_scheme \<Rightarrow> bytes \<Rightarrow> nat option \<Rightarrow> nat \<Rightarrow> nat \<Rightarrow> krecord list \<Rightarrow> (nat \<times> krecord list) result" where
  "parse_records E bs p 0 cursor records = Inr (cursor, records)"
| "parse_records E bs p (Suc n) cursor records =
     bind_r (parse_record E bs p cursor records) (\<lambda>(cursor, records).
       parse_records E bs p n cursor records)"

definition parse_data_payload :: "'x ext_scheme \<Rightarrow> bytes \<Rightarrow> nat option \<Rightarrow> krecord list result" where
  "parse_data_payload E bs expected_partition =
     (if length bs < 9 \<or> take 4 bs \<noteq> DATA_MAGIC \<or> bs ! 4 \<noteq> VERSION
      then bail ''invalid run data page header''
      else
        let count = unat (of_be (take 4 (drop 5 bs)) :: u32)
        in if count > (length bs - 9) div 17
           then bail ''run data page record count exceeds encoded payload bound''
           else
             bind_r (parse_records E bs expected_partition count 9 []) (\<lambda>(cursor, records).
               if cursor \<noteq> length bs \<or> records = []
               then bail ''run data page length or record count mismatch''
               else Inr records))"

definition decode_first_record :: "'x ext_scheme \<Rightarrow> bytes \<Rightarrow> krecord result" where
  "decode_first_record E page =
     bind_r (parse_data_payload E page None) (\<lambda>records.
       ok_or ''run data page unexpectedly empty'' (first_opt records))"

definition decode_compressed :: "'x ext_scheme \<Rightarrow> obj_ref \<Rightarrow> bytes \<Rightarrow> nat \<Rightarrow> bytes result" where
  "decode_compressed E r bs maximum =
     (if length bs > maximum then bail ''compressed run page exceeds encoded bound''
      else
        bind_r (verify_object E r bs) (\<lambda>_.
          if length bs > maximum \<or> length bs < 13 \<or> take 4 bs \<noteq> COMPRESSED_MAGIC \<or> bs ! 4 \<noteq> VERSION
          then bail ''invalid or oversized compressed run page''
          else
            let decoded_len = unat (of_be (take 4 (drop 5 bs)) :: u32);
                compressed_len = unat (of_be (take 4 (drop 9 bs)) :: u32)
            in if decoded_len > maximum \<or> compressed_len \<noteq> length bs - 13
               then bail ''compressed run page length exceeds bound or mismatches header''
               else
                 bind_r (zstd_decode E maximum (drop 13 bs)) (\<lambda>stream.
                   let decoded = take (maximum + 1) stream
                   in if length decoded \<noteq> decoded_len
                      then bail ''compressed run page decoded length mismatch''
                      else Inr decoded)))"

definition decode_data_page :: "'x ext_scheme \<Rightarrow> obj_ref \<Rightarrow> bytes \<Rightarrow> nat \<Rightarrow> krecord list result" where
  "decode_data_page E r bs shard =
     bind_r (decode_compressed E r bs MAX_PAGE_BYTES) (\<lambda>decoded.
       parse_data_payload E decoded (Some shard))"

definition index_size :: "fence list \<Rightarrow> nat" where
  "index_size entries = 9 + sum_list (map (\<lambda>f. 4 + length (fence_key f) + 8 + REF_BYTES) entries)"

primrec put_fences :: "bytes \<Rightarrow> fence list \<Rightarrow> bytes result" where
  "put_fences out [] = Inr out"
| "put_fences out (f # fs) =
     bind_r (put_bytes out (fence_key f)) (\<lambda>out.
       put_fences (put_ref (out @ u64_be (fence_block f)) (fence_data f)) fs)"

definition encode_index :: "fence list \<Rightarrow> bytes \<Rightarrow> bytes result" where
  "encode_index entries magic =
     (if index_size entries > MAX_INDEX_BYTES
      then bail ''run fence index exceeds 512 KiB bound''
      else put_fences (magic @ [VERSION] @ u32_be (word_of_nat (length entries))) entries)"

definition decode_fence ::
  "'x ext_scheme \<Rightarrow> bytes \<Rightarrow> nat \<Rightarrow> bytes \<Rightarrow> nat \<Rightarrow> fence list \<Rightarrow> (nat \<times> fence list) result" where
  "decode_fence E bs shard magic cursor fences =
     bind_r (read_u32 bs cursor) (\<lambda>(key_len, cursor).
     bind_r (ok_or ''truncated run fence key'' (get_range bs cursor (cursor + unat key_len))) (\<lambda>key.
     bind_r (read_u64 bs (cursor + unat key_len)) (\<lambda>(block, cursor).
     bind_r (read_ref bs cursor) (\<lambda>data.
       if key = [] \<or> run_partition E key \<noteq> shard \<or> data = default_ref \<or> ref_length data = 0
          \<or> unat (ref_length data) > (if magic = INTERNAL_MAGIC then MAX_INDEX_BYTES else MAX_PAGE_BYTES)
          \<or> ref_digest data = 0
       then bail ''invalid run fence''
       else
         let fence = \<lparr>fence_key = key, fence_block = block, fence_data = data\<rparr>
         in if (case last_opt fences of None \<Rightarrow> False | Some prior \<Rightarrow> fence_vkey prior \<ge> fence_vkey fence)
            then bail ''run fences are not strictly sorted''
            else Inr (cursor + REF_BYTES, fences @ [fence])))))"

primrec decode_fences ::
  "'x ext_scheme \<Rightarrow> bytes \<Rightarrow> nat \<Rightarrow> bytes \<Rightarrow> nat \<Rightarrow> nat \<Rightarrow> fence list \<Rightarrow> (nat \<times> fence list) result" where
  "decode_fences E bs shard magic 0 cursor fences = Inr (cursor, fences)"
| "decode_fences E bs shard magic (Suc n) cursor fences =
     bind_r (decode_fence E bs shard magic cursor fences) (\<lambda>(cursor, fences).
       decode_fences E bs shard magic n cursor fences)"

definition decode_index ::
  "'x ext_scheme \<Rightarrow> obj_ref \<Rightarrow> bytes \<Rightarrow> nat \<Rightarrow> bytes \<Rightarrow> fence list result" where
  "decode_index E r bs shard magic =
     (if length bs > MAX_INDEX_BYTES then bail ''run fence index exceeds 512 KiB pre-decode bound''
      else
        bind_r (verify_object E r bs) (\<lambda>_.
          if length bs > MAX_INDEX_BYTES \<or> length bs < 9 \<or> take 4 bs \<noteq> magic \<or> bs ! 4 \<noteq> VERSION
          then bail ''invalid or oversized run fence index''
          else
            let count = unat (of_be (take 4 (drop 5 bs)) :: u32)
            in if count > (length bs - 9) div (4 + 1 + 8 + REF_BYTES)
               then bail ''run fence count exceeds encoded index bound''
               else
                 bind_r (decode_fences E bs shard magic count 9 []) (\<lambda>(cursor, fences).
                   if cursor \<noteq> length bs \<or> fences = []
                   then bail ''run fence index length or count mismatch''
                   else Inr fences)))"

text \<open>\<^verbatim>\<open>RunReader\<close> and \<^verbatim>\<open>RunReader::decode\<close>.\<close>

record run_reader =
  rr_indexes :: "obj_ref list"

definition decode_root_slot :: "bytes \<Rightarrow> nat \<Rightarrow> obj_ref result" where
  "decode_root_slot bs index =
     bind_r (read_ref bs (5 + index * REF_BYTES)) (\<lambda>slot.
       if slot \<noteq> default_ref \<and> (ref_length slot = 0 \<or> ref_digest slot = 0 \<or> unat (ref_length slot) > MAX_INDEX_BYTES)
       then bail ''invalid run fence reference in root''
       else Inr slot)"

definition decode_root :: "'x ext_scheme \<Rightarrow> obj_ref \<Rightarrow> bytes \<Rightarrow> run_reader result" where
  "decode_root E r bs =
     (if length bs \<noteq> ROOT_BYTES then bail ''invalid run root length''
      else
        bind_r (verify_object E r bs) (\<lambda>_.
          if length bs \<noteq> ROOT_BYTES \<or> take 4 bs \<noteq> ROOT_MAGIC \<or> bs ! 4 \<noteq> VERSION
          then bail ''invalid run root''
          else
            bind_r (map_r (decode_root_slot bs) [0..<PARTITIONS]) (\<lambda>indexes.
              Inr \<lparr>rr_indexes = indexes\<rparr>)))"

section \<open>Counted sequences\<close>

text \<open>
  The record loop of a data page and the fence loop of an index share one contract: a step at
  cursor \<open>c\<close> succeeds exactly when the buffer continues with the serialisation of an
  acceptable item that is above the previous one, and the loop repeats the step a fixed
  number of times.
\<close>

locale counted_sequence =
  fixes bs :: bytes
    and step :: "nat \<Rightarrow> 'a list \<Rightarrow> (nat \<times> 'a list) result"
    and loop :: "nat \<Rightarrow> nat \<Rightarrow> 'a list \<Rightarrow> (nat \<times> 'a list) result"
    and ser :: "'a \<Rightarrow> bytes"
    and ok :: "'a \<Rightarrow> bool"
    and vk :: "'a \<Rightarrow> vkey"
  assumes loop_0: "loop 0 c xs = Inr (c, xs)"
    and loop_Suc: "loop (Suc n) c xs = bind_r (step c xs) (\<lambda>(c, xs). loop n c xs)"
    and step_iff: "step c xs = Inr (c', xs') \<longleftrightarrow>
      (\<exists>x. xs' = xs @ [x] \<and> ok x \<and> (xs = [] \<or> vk (last xs) < vk x) \<and>
           c' = c + length (ser x) \<and> c' \<le> length bs \<and> drop c bs = ser x @ drop c' bs)"
begin

lemma loop_iff:
  assumes "c \<le> length bs" and "ssorted (map vk xs)"
  shows "loop n c xs = Inr (c', xs') \<longleftrightarrow>
    (\<exists>new. xs' = xs @ new \<and> length new = n \<and> (\<forall>x\<in>set new. ok x) \<and> ssorted (map vk xs') \<and>
       c' = c + length (concat (map ser new)) \<and> c' \<le> length bs \<and>
       drop c bs = concat (map ser new) @ drop c' bs)"
  using assms
proof (induction n arbitrary: c xs)
  case 0
  then show ?case by (auto simp: loop_0)
next
  case (Suc n)
  have sorted_snoc: "ssorted (map vk (xs @ [x]))" if "xs = [] \<or> vk (last xs) < vk x" for x
    using that Suc.prems(2) by (cases "xs = []") (simp_all add: ssorted_snoc last_map)
  show ?case
  proof
    assume "loop (Suc n) c xs = Inr (c', xs')"
    then obtain c1 xs1 where st: "step c xs = Inr (c1, xs1)" and lp: "loop n c1 xs1 = Inr (c', xs')"
      by (auto simp: loop_Suc)
    from st obtain x where x: "xs1 = xs @ [x]" "ok x" "xs = [] \<or> vk (last xs) < vk x"
      "c1 = c + length (ser x)" "c1 \<le> length bs" "drop c bs = ser x @ drop c1 bs"
      by (auto simp: step_iff)
    with Suc.IH [of c1 xs1] sorted_snoc [of x] lp obtain new where
      "xs' = xs1 @ new" "length new = n" "\<forall>x\<in>set new. ok x" "ssorted (map vk xs')"
      "c' = c1 + length (concat (map ser new))" "c' \<le> length bs"
      "drop c1 bs = concat (map ser new) @ drop c' bs"
      by auto
    with x show "\<exists>new. xs' = xs @ new \<and> length new = Suc n \<and> (\<forall>x\<in>set new. ok x) \<and> ssorted (map vk xs') \<and>
       c' = c + length (concat (map ser new)) \<and> c' \<le> length bs \<and>
       drop c bs = concat (map ser new) @ drop c' bs"
      by (intro exI [of _ "x # new"]) auto
  next
    assume "\<exists>new. xs' = xs @ new \<and> length new = Suc n \<and> (\<forall>x\<in>set new. ok x) \<and> ssorted (map vk xs') \<and>
       c' = c + length (concat (map ser new)) \<and> c' \<le> length bs \<and>
       drop c bs = concat (map ser new) @ drop c' bs"
    then obtain x new where new: "xs' = xs @ x # new" "length new = n" "ok x" "\<forall>x\<in>set new. ok x"
      "ssorted (map vk xs')" "c' = c + length (ser x) + length (concat (map ser new))" "c' \<le> length bs"
      "drop c bs = ser x @ concat (map ser new) @ drop c' bs"
      by (auto simp: length_Suc_conv add.assoc)
    let ?c = "c + length (ser x)"
    have dr: "drop ?c bs = concat (map ser new) @ drop c' bs"
      using arg_cong [OF new(8), of "drop (length (ser x))"] by (simp add: add.commute)
    have lt: "xs = [] \<or> vk (last xs) < vk x"
      using new(1,5) by (cases "xs = []") (auto simp: sorted_wrt_append)
    have "step c xs = Inr (?c, xs @ [x])"
      using new dr lt by (auto simp: step_iff)
    moreover have "loop n ?c (xs @ [x]) = Inr (c', xs')"
      using new dr Suc.IH [of ?c "xs @ [x]"] sorted_snoc [OF lt] by auto
    ultimately show "loop (Suc n) c xs = Inr (c', xs')" by (simp add: loop_Suc)
  qed
qed

end

section \<open>Reading at a cursor\<close>

lemma record_eta [simp]:
  "\<lparr>rec_key = rec_key r, rec_block = rec_block r, rec_value = rec_value r\<rparr> = r"
  "\<lparr>fence_key = fence_key f, fence_block = fence_block f, fence_data = fence_data f\<rparr> = f"
  "\<lparr>ref_digest = ref_digest d, ref_length = ref_length d\<rparr> = d"
  "\<lparr>obj_reference = obj_reference ob, obj_bytes = obj_bytes ob\<rparr> = ob"
  by simp_all

lemma read_u32_iff:
  "read_u32 bs c = Inr (w, c') \<longleftrightarrow> c' = c + 4 \<and> c' \<le> length bs \<and> drop c bs = u32_be w @ drop c' bs"
  by (auto simp: read_u32_def get_range_iff be_of_be)

lemma read_u64_iff:
  "read_u64 bs c = Inr (w, c') \<longleftrightarrow> c' = c + 8 \<and> c' \<le> length bs \<and> drop c bs = u64_be w @ drop c' bs"
  by (auto simp: read_u64_def get_range_iff be_of_be)

definition ref_bytes :: "obj_ref \<Rightarrow> bytes" where
  "ref_bytes r = h32_be (ref_digest r) @ u32_be (ref_length r)"

lemma length_ref_bytes [simp]: "length (ref_bytes r) = 36"
  by (simp add: ref_bytes_def)

lemma ref_bytes_of_be:
  assumes "length raw = 36"
  shows "ref_bytes \<lparr>ref_digest = of_be (take 32 raw), ref_length = of_be (drop 32 raw)\<rparr> = raw"
  using assms by (simp add: ref_bytes_def be_of_be)

lemma ref_of_ref_bytes:
  "of_be (take 32 (ref_bytes r)) = ref_digest r" "of_be (drop 32 (ref_bytes r)) = ref_length r"
  by (simp_all add: ref_bytes_def)

lemma read_ref_iff:
  "read_ref bs c = Inr r \<longleftrightarrow> c + 36 \<le> length bs \<and> drop c bs = ref_bytes r @ drop (c + 36) bs"
proof
  assume "read_ref bs c = Inr r"
  then show "c + 36 \<le> length bs \<and> drop c bs = ref_bytes r @ drop (c + 36) bs"
    by (auto simp: read_ref_def REF_BYTES_def get_range_iff ref_bytes_of_be)
next
  assume "c + 36 \<le> length bs \<and> drop c bs = ref_bytes r @ drop (c + 36) bs"
  then have "get_range bs c (c + 36) = Some (ref_bytes r)" by (simp add: get_range_iff)
  then show "read_ref bs c = Inr r"
    by (simp add: read_ref_def REF_BYTES_def ref_of_ref_bytes)
qed

lemma put_ref_eq: "put_ref out r = out @ ref_bytes r"
  by (simp add: put_ref_def ref_bytes_def)

section \<open>Data pages\<close>

text \<open>The serialisation of a record and of a page, as total functions.\<close>

definition rec_bytes :: "krecord \<Rightarrow> bytes" where
  "rec_bytes r = u32_be (word_of_nat (length (rec_key r))) @ rec_key r @ u64_be (rec_block r) @
     u32_be (word_of_nat (length (rec_value r))) @ rec_value r"

definition page_payload :: "krecord list \<Rightarrow> bytes" where
  "page_payload rs = DATA_MAGIC @ [VERSION] @ u32_be (word_of_nat (length rs)) @ concat (map rec_bytes rs)"

definition rec_ok :: "'x ext_scheme \<Rightarrow> nat option \<Rightarrow> krecord \<Rightarrow> bool" where
  "rec_ok E p r \<longleftrightarrow> rec_key r \<noteq> [] \<and> (case p of None \<Rightarrow> True | Some q \<Rightarrow> run_partition E (rec_key r) = q) \<and>
     length (rec_key r) < 2 ^ 32 \<and> length (rec_value r) < 2 ^ 32"

lemma length_rec_bytes: "length (rec_bytes r) = 16 + length (rec_key r) + length (rec_value r)"
  by (simp add: rec_bytes_def)

lemma encode_record_iff:
  "encode_record r = Inr e \<longleftrightarrow> length (rec_key r) < 2 ^ 32 \<and> length (rec_value r) < 2 ^ 32 \<and> e = rec_bytes r"
  by (auto simp: encode_record_def u32_try_from_def rec_bytes_def)

lemma unat_u32: "n < 2 ^ 32 \<Longrightarrow> unat (word_of_nat n :: u32) = n"
  by (simp add: unat_of_nat)

lemma unat_u32_lt: "unat (w :: u32) < 2 ^ 32"
  using unsigned_less [of w] by simp

lemma parse_record_iff:
  "parse_record E bs p c xs = Inr (c', xs') \<longleftrightarrow>
     (\<exists>x. xs' = xs @ [x] \<and> rec_ok E p x \<and> (xs = [] \<or> rec_vkey (last xs) < rec_vkey x) \<and>
          c' = c + length (rec_bytes x) \<and> c' \<le> length bs \<and> drop c bs = rec_bytes x @ drop c' bs)"
  (is "?L = ?R")
proof
  assume ?L
  then obtain kl key block vl val where
    kl: "drop c bs = u32_be kl @ drop (c + 4) bs" and
    key: "drop (c + 4) bs = key @ drop (c + 4 + unat kl) bs" "length key = unat kl" and
    block: "drop (c + 4 + unat kl) bs = u64_be block @ drop (c + 4 + unat kl + 8) bs" and
    vl: "drop (c + 4 + unat kl + 8) bs = u32_be vl @ drop (c + 4 + unat kl + 8 + 4) bs" and
    val: "drop (c + 4 + unat kl + 8 + 4) bs = val @ drop (c + 4 + unat kl + 8 + 4 + unat vl) bs"
      "length val = unat vl" and
    le: "c + 4 + unat kl + 8 + 4 + unat vl \<le> length bs" and
    ok: "key \<noteq> []" "case p of None \<Rightarrow> True | Some q \<Rightarrow> run_partition E key = q"
      "case last_opt xs of None \<Rightarrow> True | Some prior \<Rightarrow> rec_vkey prior < rec_vkey \<lparr>rec_key = key, rec_block = block, rec_value = val\<rparr>" and
    res: "xs' = xs @ [\<lparr>rec_key = key, rec_block = block, rec_value = val\<rparr>]"
      "c' = c + 4 + unat kl + 8 + 4 + unat vl"
    by (auto simp: parse_record_def read_u32_iff read_u64_iff get_range_iff Let_def split: option.splits)
  let ?x = "\<lparr>rec_key = key, rec_block = block, rec_value = val\<rparr>"
  have "drop c bs = rec_bytes ?x @ drop c' bs"
    using kl key block vl val res(2) by (simp add: rec_bytes_def)
  moreover have "c' = c + length (rec_bytes ?x)"
    using res(2) key(2) val(2) by (simp add: length_rec_bytes)
  moreover have "rec_ok E p ?x"
    using ok key(2) val(2) unat_u32_lt [of kl] unat_u32_lt [of vl] by (cases p) (simp_all add: rec_ok_def)
  moreover have "xs = [] \<or> rec_vkey (last xs) < rec_vkey ?x"
    using ok(3) by (cases "xs = []") (simp_all add: last_opt_def)
  moreover have "c' \<le> length bs" using le res(2) by simp
  ultimately show ?R using res(1) by (intro exI [of _ ?x] conjI)
next
  assume ?R
  then obtain x where x: "xs' = xs @ [x]" "rec_ok E p x" "xs = [] \<or> rec_vkey (last xs) < rec_vkey x"
    "c' = c + length (rec_bytes x)" "c' \<le> length bs" "drop c bs = rec_bytes x @ drop c' bs" by blast
  let ?kl = "word_of_nat (length (rec_key x)) :: u32" and ?vl = "word_of_nat (length (rec_value x)) :: u32"
  have lens: "unat ?kl = length (rec_key x)" "unat ?vl = length (rec_value x)"
    using x(2) by (simp_all add: rec_ok_def unat_u32)
  let ?c1 = "c + 4" let ?c2 = "?c1 + length (rec_key x)" let ?c3 = "?c2 + 8" let ?c4 = "?c3 + 4"
  have c': "c' = ?c4 + length (rec_value x)" using x(4) by (simp add: length_rec_bytes)
  have d0: "drop c bs = u32_be ?kl @ rec_key x @ u64_be (rec_block x) @ u32_be ?vl @ rec_value x @ drop c' bs"
    using x(6) by (simp add: rec_bytes_def)
  have d1: "drop ?c1 bs = rec_key x @ u64_be (rec_block x) @ u32_be ?vl @ rec_value x @ drop c' bs"
    using arg_cong [OF d0, of "drop 4"] by (simp add: add.commute)
  have d2: "drop ?c2 bs = u64_be (rec_block x) @ u32_be ?vl @ rec_value x @ drop c' bs"
    using arg_cong [OF d1, of "drop (length (rec_key x))"] by (simp add: ac_simps)
  have d3: "drop ?c3 bs = u32_be ?vl @ rec_value x @ drop c' bs"
    using arg_cong [OF d2, of "drop 8"] by (simp add: ac_simps)
  have d4: "drop ?c4 bs = rec_value x @ drop c' bs"
    using arg_cong [OF d3, of "drop 4"] by (simp add: ac_simps)
  have r1: "read_u32 bs c = Inr (?kl, ?c1)" using d0 d1 x(5) c' by (simp add: read_u32_iff)
  have r2: "get_range bs ?c1 ?c2 = Some (rec_key x)" using d1 d2 x(5) c' by (simp add: get_range_iff)
  have r3: "read_u64 bs ?c2 = Inr (rec_block x, ?c3)" using d2 d3 x(5) c' by (simp add: read_u64_iff)
  have r4: "read_u32 bs ?c3 = Inr (?vl, ?c4)" using d3 d4 x(5) c' by (simp add: read_u32_iff)
  have r5: "get_range bs ?c4 (?c4 + length (rec_value x)) = Some (rec_value x)"
    using d4 x(5) c' by (simp add: get_range_iff)
  have key: "\<not> (rec_key x = [] \<or> (case p of None \<Rightarrow> False | Some q \<Rightarrow> run_partition E (rec_key x) \<noteq> q))"
    using x(2) by (cases p) (simp_all add: rec_ok_def)
  have order: "\<not> (case last_opt xs of None \<Rightarrow> False | Some prior \<Rightarrow> rec_vkey prior \<ge> rec_vkey x)"
    using x(3) by (auto simp: last_opt_def)
  show ?L
    unfolding parse_record_def r1 bind_r_simps prod.case lens r2 ok_or_simps r3 r4 r5 if_not_P [OF key] Let_def record_eta if_not_P [OF order]
    by (simp add: x(1) c')
qed

interpretation rec_seq: counted_sequence bs "parse_record E bs p" "parse_records E bs p" rec_bytes "rec_ok E p" rec_vkey
  for E :: "'x ext_scheme" and bs p
  by unfold_locales (simp_all add: parse_record_iff)

lemma magic_lengths [simp]:
  "length ROOT_MAGIC = 4" "length INDEX_MAGIC = 4" "length DATA_MAGIC = 4" "length INTERNAL_MAGIC = 4"
  "length COMPRESSED_MAGIC = 4"
  by (simp_all add: ROOT_MAGIC_def INDEX_MAGIC_def DATA_MAGIC_def INTERNAL_MAGIC_def COMPRESSED_MAGIC_def)

lemma magic_neq [simp]: "INTERNAL_MAGIC \<noteq> INDEX_MAGIC" "INDEX_MAGIC \<noteq> INTERNAL_MAGIC"
  by (simp_all add: INTERNAL_MAGIC_def INDEX_MAGIC_def ascii_def)

text \<open>The header of a page or an index: four magic bytes, the version and a big-endian count.\<close>

lemma counted_header_iff:
  assumes "length magic = 4"
  shows "\<not> (length bs < 9 \<or> take 4 bs \<noteq> magic \<or> bs ! 4 \<noteq> v) \<longleftrightarrow>
    (\<exists>w rest. bs = magic @ [v] @ u32_be w @ rest)"
proof
  assume ok: "\<not> (length bs < 9 \<or> take 4 bs \<noteq> magic \<or> bs ! 4 \<noteq> v)"
  have "bs = take 4 bs @ [bs ! 4] @ take 4 (drop 5 bs) @ drop 9 bs"
  proof -
    have "bs = take 4 bs @ drop 4 bs" by simp
    moreover have "drop 4 bs = bs ! 4 # drop 5 bs"
      using ok Cons_nth_drop_Suc [of 4 bs] by simp
    moreover have "drop 5 bs = take 4 (drop 5 bs) @ drop 9 bs"
      using append_take_drop_id [of 4 "drop 5 bs"] by simp
    ultimately show ?thesis by simp
  qed
  moreover have "length (take 4 (drop 5 bs)) = 4" using ok by auto
  ultimately show "\<exists>w rest. bs = magic @ [v] @ u32_be w @ rest"
    using ok be_of_be(1) [of "take 4 (drop 5 bs)"] by metis
next
  assume "\<exists>w rest. bs = magic @ [v] @ u32_be w @ rest"
  with assms show "\<not> (length bs < 9 \<or> take 4 bs \<noteq> magic \<or> bs ! 4 \<noteq> v)"
    by (auto simp: nth_append)
qed

lemma length_concat_ge:
  "(\<And>x. x \<in> set xs \<Longrightarrow> k \<le> length (f x)) \<Longrightarrow> length xs * k \<le> length (concat (map f xs))"
  by (induction xs) (auto intro: add_mono)

lemma length_page_payload: "length (page_payload rs) = 9 + length (concat (map rec_bytes rs))"
  by (simp add: page_payload_def)

text \<open>
  A payload is accepted exactly when it is the encoding of the records returned, which are
  non-empty in number, strictly sorted and routed to the expected partition.
\<close>

lemma parse_data_payload_iff:
  "parse_data_payload E bs p = Inr rs \<longleftrightarrow>
     bs = page_payload rs \<and> rs \<noteq> [] \<and> length rs < 2 ^ 32 \<and> ssorted (map rec_vkey rs) \<and> (\<forall>r\<in>set rs. rec_ok E p r)"
  (is "?L = ?R")
proof
  assume L: ?L
  then have hd: "\<not> (length bs < 9 \<or> take 4 bs \<noteq> DATA_MAGIC \<or> bs ! 4 \<noteq> VERSION)"
    by (auto simp: parse_data_payload_def)
  then obtain w rest where bs: "bs = DATA_MAGIC @ [VERSION] @ u32_be w @ rest"
    using counted_header_iff [of DATA_MAGIC] by auto
  then have w: "take 4 (drop 5 bs) = u32_be w" and "drop 9 bs = rest" by simp_all
  from L hd w obtain c where "parse_records E bs p (unat w) 9 [] = Inr (c, rs)" "c = length bs" "rs \<noteq> []"
    by (auto simp: parse_data_payload_def Let_def)
  with hd rec_seq.loop_iff [of 9 bs "[]" E p "unat w" c rs]
  have rs: "length rs = unat w" "\<forall>x\<in>set rs. rec_ok E p x" "ssorted (map rec_vkey rs)"
    "drop 9 bs = concat (map rec_bytes rs)"
    by auto
  then have "page_payload rs = bs"
    using \<open>drop 9 bs = rest\<close> by (simp add: page_payload_def bs)
  with rs \<open>rs \<noteq> []\<close> unat_u32_lt [of w] show ?R by simp
next
  assume R: ?R
  let ?w = "word_of_nat (length rs) :: u32"
  have w: "unat ?w = length rs" using R by (simp add: unat_u32)
  have hd: "\<not> (length bs < 9 \<or> take 4 bs \<noteq> DATA_MAGIC \<or> bs ! 4 \<noteq> VERSION)"
    using R counted_header_iff [of DATA_MAGIC bs VERSION] by (auto simp: page_payload_def)
  have cnt: "take 4 (drop 5 bs) = u32_be ?w" and dr: "drop 9 bs = concat (map rec_bytes rs)"
    using R by (simp_all add: page_payload_def)
  have "length rs * 17 \<le> length (concat (map rec_bytes rs))"
  proof (rule length_concat_ge)
    fix r assume "r \<in> set rs"
    then have "rec_key r \<noteq> []" using R by (simp add: rec_ok_def)
    then show "17 \<le> length (rec_bytes r)" by (cases "rec_key r") (simp_all add: length_rec_bytes)
  qed
  then have bound: "\<not> (length rs > (length bs - 9) div 17)"
    using R length_page_payload [of rs] by simp
  have "parse_records E bs p (length rs) 9 [] = Inr (length bs, rs)"
    using R dr hd rec_seq.loop_iff [of 9 bs "[]" E p "length rs" "length bs" rs]
    by (auto simp: length_page_payload)
  with hd cnt w bound R show ?L
    by (simp add: parse_data_payload_def)
qed

section \<open>Fence indexes\<close>

definition fence_bytes :: "fence \<Rightarrow> bytes" where
  "fence_bytes f = u32_be (word_of_nat (length (fence_key f))) @ fence_key f @ u64_be (fence_block f) @
     ref_bytes (fence_data f)"

definition index_payload :: "bytes \<Rightarrow> fence list \<Rightarrow> bytes" where
  "index_payload magic fs = magic @ [VERSION] @ u32_be (word_of_nat (length fs)) @ concat (map fence_bytes fs)"

text \<open>What \<^verbatim>\<open>decode_index\<close> demands of each fence: the pre-fetch bounds of the object it points to.\<close>

definition index_limit :: "bytes \<Rightarrow> nat" where
  "index_limit magic = (if magic = INTERNAL_MAGIC then MAX_INDEX_BYTES else MAX_PAGE_BYTES)"

definition ref_ok :: "nat \<Rightarrow> obj_ref \<Rightarrow> bool" where
  "ref_ok limit r \<longleftrightarrow> ref_length r \<noteq> 0 \<and> unat (ref_length r) \<le> limit \<and> ref_digest r \<noteq> 0"

definition fence_ok :: "'x ext_scheme \<Rightarrow> nat \<Rightarrow> bytes \<Rightarrow> fence \<Rightarrow> bool" where
  "fence_ok E shard magic f \<longleftrightarrow> fence_key f \<noteq> [] \<and> run_partition E (fence_key f) = shard \<and>
     ref_ok (index_limit magic) (fence_data f) \<and> length (fence_key f) < 2 ^ 32"

lemma length_fence_bytes: "length (fence_bytes f) = 48 + length (fence_key f)"
  by (simp add: fence_bytes_def)

lemma decode_fence_iff:
  "decode_fence E bs shard magic c xs = Inr (c', xs') \<longleftrightarrow>
     (\<exists>x. xs' = xs @ [x] \<and> fence_ok E shard magic x \<and> (xs = [] \<or> fence_vkey (last xs) < fence_vkey x) \<and>
          c' = c + length (fence_bytes x) \<and> c' \<le> length bs \<and> drop c bs = fence_bytes x @ drop c' bs)"
  (is "?L = ?R")
proof
  assume ?L
  then obtain kl key block data where
    kl: "drop c bs = u32_be kl @ drop (c + 4) bs" and
    key: "drop (c + 4) bs = key @ drop (c + 4 + unat kl) bs" "length key = unat kl" and
    block: "drop (c + 4 + unat kl) bs = u64_be block @ drop (c + 4 + unat kl + 8) bs" and
    data: "drop (c + 4 + unat kl + 8) bs = ref_bytes data @ drop (c + 4 + unat kl + 8 + 36) bs" and
    le: "c + 4 + unat kl + 8 + 36 \<le> length bs" and
    ok: "key \<noteq> []" "run_partition E key = shard" "ref_ok (index_limit magic) data"
      "case last_opt xs of None \<Rightarrow> True | Some prior \<Rightarrow> fence_vkey prior < fence_vkey \<lparr>fence_key = key, fence_block = block, fence_data = data\<rparr>" and
    res: "xs' = xs @ [\<lparr>fence_key = key, fence_block = block, fence_data = data\<rparr>]"
      "c' = c + 4 + unat kl + 8 + 36"
    by (auto simp: decode_fence_def read_u32_iff read_u64_iff read_ref_iff get_range_iff Let_def REF_BYTES_def
        ref_ok_def index_limit_def not_less split: option.splits)
  let ?x = "\<lparr>fence_key = key, fence_block = block, fence_data = data\<rparr>"
  have "drop c bs = fence_bytes ?x @ drop c' bs"
    using kl key block data res(2) by (simp add: fence_bytes_def)
  moreover have "c' = c + length (fence_bytes ?x)"
    using res(2) key(2) by (simp add: length_fence_bytes)
  moreover have "fence_ok E shard magic ?x"
    using ok key(2) unat_u32_lt [of kl] by (simp add: fence_ok_def)
  moreover have "xs = [] \<or> fence_vkey (last xs) < fence_vkey ?x"
    using ok(4) by (cases "xs = []") (simp_all add: last_opt_def)
  moreover have "c' \<le> length bs" using le res(2) by simp
  ultimately show ?R using res(1) by (intro exI [of _ ?x] conjI)
next
  assume ?R
  then obtain x where x: "xs' = xs @ [x]" "fence_ok E shard magic x" "xs = [] \<or> fence_vkey (last xs) < fence_vkey x"
    "c' = c + length (fence_bytes x)" "c' \<le> length bs" "drop c bs = fence_bytes x @ drop c' bs" by blast
  let ?kl = "word_of_nat (length (fence_key x)) :: u32"
  have len: "unat ?kl = length (fence_key x)" using x(2) by (simp add: fence_ok_def unat_u32)
  let ?c1 = "c + 4" let ?c2 = "?c1 + length (fence_key x)" let ?c3 = "?c2 + 8"
  have c': "c' = ?c3 + 36" using x(4) by (simp add: length_fence_bytes)
  have d0: "drop c bs = u32_be ?kl @ fence_key x @ u64_be (fence_block x) @ ref_bytes (fence_data x) @ drop c' bs"
    using x(6) by (simp add: fence_bytes_def)
  have d1: "drop ?c1 bs = fence_key x @ u64_be (fence_block x) @ ref_bytes (fence_data x) @ drop c' bs"
    using arg_cong [OF d0, of "drop 4"] by (simp add: add.commute)
  have d2: "drop ?c2 bs = u64_be (fence_block x) @ ref_bytes (fence_data x) @ drop c' bs"
    using arg_cong [OF d1, of "drop (length (fence_key x))"] by (simp add: ac_simps)
  have d3: "drop ?c3 bs = ref_bytes (fence_data x) @ drop c' bs"
    using arg_cong [OF d2, of "drop 8"] by (simp add: ac_simps)
  have r1: "read_u32 bs c = Inr (?kl, ?c1)" using d0 d1 x(5) c' by (simp add: read_u32_iff)
  have r2: "get_range bs ?c1 ?c2 = Some (fence_key x)" using d1 d2 x(5) c' by (simp add: get_range_iff)
  have r3: "read_u64 bs ?c2 = Inr (fence_block x, ?c3)" using d2 d3 x(5) c' by (simp add: read_u64_iff)
  have r4: "read_ref bs ?c3 = Inr (fence_data x)" using d3 x(5) c' by (simp add: read_ref_iff)
  have ok: "\<not> (fence_key x = [] \<or> run_partition E (fence_key x) \<noteq> shard \<or> fence_data x = default_ref
      \<or> ref_length (fence_data x) = 0
      \<or> unat (ref_length (fence_data x)) > (if magic = INTERNAL_MAGIC then MAX_INDEX_BYTES else MAX_PAGE_BYTES)
      \<or> ref_digest (fence_data x) = 0)"
    using x(2) by (auto simp: fence_ok_def ref_ok_def index_limit_def default_ref_def)
  have order: "\<not> (case last_opt xs of None \<Rightarrow> False | Some prior \<Rightarrow> fence_vkey prior \<ge> fence_vkey x)"
    using x(3) by (auto simp: last_opt_def)
  show ?L
    unfolding decode_fence_def r1 bind_r_simps prod.case len r2 ok_or_simps r3 r4 if_not_P [OF ok] Let_def
      record_eta if_not_P [OF order]
    by (simp add: x(1) c' REF_BYTES_def)
qed

interpretation fence_seq: counted_sequence bs "decode_fence E bs shard magic" "decode_fences E bs shard magic"
    fence_bytes "fence_ok E shard magic" fence_vkey
  for E :: "'x ext_scheme" and bs shard magic
  by unfold_locales (simp_all add: decode_fence_iff)

lemma length_index_payload:
  assumes "length magic = 4"
  shows "length (index_payload magic fs) = index_size fs"
proof -
  have "length (concat (map fence_bytes fs)) = (\<Sum>f\<leftarrow>fs. 4 + length (fence_key f) + 8 + REF_BYTES)"
    by (induction fs) (simp_all add: length_fence_bytes REF_BYTES_def)
  with assms show ?thesis by (simp add: index_payload_def index_size_def)
qed

lemma put_fences_iff:
  "put_fences out fs = Inr bs \<longleftrightarrow> (\<forall>f\<in>set fs. length (fence_key f) < 2 ^ 32) \<and> bs = out @ concat (map fence_bytes fs)"
proof (induction fs arbitrary: out)
  case Nil
  then show ?case by auto
next
  case (Cons f fs)
  then show ?case
    by (auto simp: put_bytes_def u32_try_from_def put_ref_eq fence_bytes_def)
qed

lemma index_size_key: "f \<in> set fs \<Longrightarrow> length (fence_key f) < index_size fs"
  by (induction fs) (auto simp: index_size_def)

lemma index_size_length: "length fs < index_size fs"
proof -
  have "length fs \<le> (\<Sum>f\<leftarrow>fs. 4 + length (fence_key f) + 8 + REF_BYTES)"
    by (induction fs) auto
  then show ?thesis by (simp add: index_size_def)
qed

lemma bounds_u32: "MAX_INDEX_BYTES < 2 ^ 32" "MAX_PAGE_BYTES < 2 ^ 32" "MAX_INDEX_BYTES \<le> MAX_PAGE_BYTES"
  by (simp_all add: MAX_INDEX_BYTES_def MAX_PAGE_BYTES_def)

lemma encode_index_iff:
  "encode_index fs magic = Inr bs \<longleftrightarrow> index_size fs \<le> MAX_INDEX_BYTES \<and> bs = index_payload magic fs"
proof (cases "index_size fs \<le> MAX_INDEX_BYTES")
  case True
  then have "\<forall>f\<in>set fs. length (fence_key f) < 2 ^ 32"
    using index_size_key bounds_u32(1) by fastforce
  with True show ?thesis
    by (auto simp: encode_index_def put_fences_iff index_payload_def)
next
  case False
  then show ?thesis by (simp add: encode_index_def)
qed

lemma verify_object_iff [simp]:
  "verify_object E r bs = Inr u \<longleftrightarrow> unat (ref_length r) = length bs \<and> ref_digest r = sha256 E bs"
  by (auto simp: verify_object_def)

lemma make_object_iff:
  "make_object E bs = Inr ob \<longleftrightarrow> length bs < 2 ^ 32 \<and>
     ob = \<lparr>obj_reference = \<lparr>ref_digest = sha256 E bs, ref_length = word_of_nat (length bs)\<rparr>, obj_bytes = bs\<rparr>"
  by (auto simp: make_object_def u32_try_from_def)

lemma decode_index_iff:
  assumes m: "length magic = 4"
  shows "decode_index E r bs shard magic = Inr fs \<longleftrightarrow>
     unat (ref_length r) = length bs \<and> ref_digest r = sha256 E bs \<and> index_size fs \<le> MAX_INDEX_BYTES \<and>
     bs = index_payload magic fs \<and> fs \<noteq> [] \<and> ssorted (map fence_vkey fs) \<and> (\<forall>f\<in>set fs. fence_ok E shard magic f)"
  (is "?L = ?R")
proof
  assume L: ?L
  then have hd: "\<not> (length bs < 9 \<or> take 4 bs \<noteq> magic \<or> bs ! 4 \<noteq> VERSION)"
    and max: "length bs \<le> MAX_INDEX_BYTES"
    and obj: "unat (ref_length r) = length bs" "ref_digest r = sha256 E bs"
    by (auto simp: decode_index_def)
  from hd obtain w rest where bs: "bs = magic @ [VERSION] @ u32_be w @ rest"
    using counted_header_iff [OF m] by auto
  then have w: "take 4 (drop 5 bs) = u32_be w" and "drop 9 bs = rest" using m by simp_all
  from L hd max w obtain c where "decode_fences E bs shard magic (unat w) 9 [] = Inr (c, fs)" "c = length bs" "fs \<noteq> []"
    by (auto simp: decode_index_def Let_def)
  with hd fence_seq.loop_iff [of 9 bs "[]" E shard magic "unat w" c fs]
  have fs: "length fs = unat w" "\<forall>x\<in>set fs. fence_ok E shard magic x" "ssorted (map fence_vkey fs)"
    "drop 9 bs = concat (map fence_bytes fs)"
    by auto
  then have payload: "bs = index_payload magic fs"
    using \<open>drop 9 bs = rest\<close> by (simp add: index_payload_def bs)
  with max have "index_size fs \<le> MAX_INDEX_BYTES" by (simp add: length_index_payload [OF m])
  with payload fs \<open>fs \<noteq> []\<close> obj show ?R by simp
next
  assume R: ?R
  let ?w = "word_of_nat (length fs) :: u32"
  have len: "length bs = index_size fs" using R length_index_payload [OF m] by simp
  have w: "unat ?w = length fs"
    using R index_size_length [of fs] bounds_u32(1) by (intro unat_u32) linarith
  have hd: "\<not> (length bs < 9 \<or> take 4 bs \<noteq> magic \<or> bs ! 4 \<noteq> VERSION)"
    using R counted_header_iff [OF m, of bs VERSION] by (auto simp: index_payload_def)
  have cnt: "take 4 (drop 5 bs) = u32_be ?w" and dr: "drop 9 bs = concat (map fence_bytes fs)"
    using R m by (simp_all add: index_payload_def)
  have "length fs * 49 \<le> length (concat (map fence_bytes fs))"
  proof (rule length_concat_ge)
    fix f assume "f \<in> set fs"
    then have "fence_key f \<noteq> []" using R by (simp add: fence_ok_def)
    then show "49 \<le> length (fence_bytes f)" by (cases "fence_key f") (simp_all add: length_fence_bytes)
  qed
  then have bound: "\<not> (length fs > (length bs - 9) div (4 + 1 + 8 + REF_BYTES))"
    using dr by (simp add: REF_BYTES_def flip: length_drop)
  have "decode_fences E bs shard magic (length fs) 9 [] = Inr (length bs, fs)"
    using R dr hd fence_seq.loop_iff [of 9 bs "[]" E shard magic "length fs" "length bs" fs]
    by (auto simp flip: dr)
  with hd cnt w bound R len show ?L
    by (simp add: decode_index_def)
qed

section \<open>Compressed pages\<close>

definition page_object_bytes :: "bytes \<Rightarrow> bytes \<Rightarrow> bytes" where
  "page_object_bytes page compressed =
     COMPRESSED_MAGIC @ [VERSION] @ u32_be (word_of_nat (length page)) @ u32_be (word_of_nat (length compressed)) @ compressed"

lemma length_page_object_bytes: "length (page_object_bytes page c) = 13 + length c"
  by (simp add: page_object_bytes_def)

lemma decode_compressed_page:
  assumes "zstd_decode E maximum c = Inr page" and "length page \<le> maximum" "maximum < 2 ^ 32"
    and "length (page_object_bytes page c) \<le> maximum"
    and "unat (ref_length r) = length (page_object_bytes page c)"
    and "ref_digest r = sha256 E (page_object_bytes page c)"
  shows "decode_compressed E r (page_object_bytes page c) maximum = Inr page"
proof -
  let ?bs = "page_object_bytes page c"
  have "take 4 ?bs = COMPRESSED_MAGIC" "?bs ! 4 = VERSION" "drop 13 ?bs = c"
    "take 4 (drop 5 ?bs) = u32_be (word_of_nat (length page))"
    "take 4 (drop 9 ?bs) = u32_be (word_of_nat (length c))"
    by (simp_all add: page_object_bytes_def nth_append)
  moreover have "length c < 2 ^ 32" "length page < 2 ^ 32"
    using assms by (simp_all add: length_page_object_bytes)
  ultimately show ?thesis
    using assms by (simp add: decode_compressed_def verify_object_def length_page_object_bytes unat_u32)
qed

lemma decode_compressed_sound:
  assumes "decode_compressed E r bs maximum = Inr page"
  shows "unat (ref_length r) = length bs" "ref_digest r = sha256 E bs" "length bs \<le> maximum" "13 \<le> length bs"
  using assms by (auto simp: decode_compressed_def Let_def)

lemma decode_data_page_sound:
  assumes "decode_data_page E r bs shard = Inr rs"
  shows "unat (ref_length r) = length bs" "ref_digest r = sha256 E bs" "rs \<noteq> []" "ssorted (map rec_vkey rs)"
    "\<forall>r\<in>set rs. rec_key r \<noteq> [] \<and> run_partition E (rec_key r) = shard" "length bs \<le> MAX_PAGE_BYTES" "13 \<le> length bs"
  using assms
  by (auto simp: decode_data_page_def parse_data_payload_iff rec_ok_def dest: decode_compressed_sound)

lemma run_partition_less: "run_partition E key < PARTITIONS"
proof -
  have "unat (drop_bit 4 (b :: u8)) < 16" for b
  proof -
    have "unat (drop_bit 4 b) = unat b div 16"
      unfolding unat_drop_bit_eq by (simp add: drop_bit_eq_div)
    moreover have "unat b < 256" using unsigned_less [of b] by simp
    ultimately show ?thesis by simp
  qed
  then show ?thesis by (simp add: run_partition_def PARTITIONS_def)
qed

section \<open>Run roots\<close>

definition root_bytes :: "obj_ref list \<Rightarrow> bytes" where
  "root_bytes idx = ROOT_MAGIC @ [VERSION] @ concat (map ref_bytes idx)"

definition slot_ok :: "obj_ref \<Rightarrow> bool" where
  "slot_ok r \<longleftrightarrow> r = default_ref \<or> validate_index_ref r = Inr ()"

lemma validate_ref_iff:
  "validate_index_ref r = Inr u \<longleftrightarrow> ref_length r \<noteq> 0 \<and> unat (ref_length r) \<le> MAX_INDEX_BYTES \<and> ref_digest r \<noteq> 0"
  "validate_data_ref r = Inr u \<longleftrightarrow> ref_length r \<noteq> 0 \<and> unat (ref_length r) \<le> MAX_PAGE_BYTES \<and> ref_digest r \<noteq> 0"
  by (auto simp: validate_index_ref_def validate_data_ref_def)

lemma refs_at:
  "(\<forall>i<length xs. a + i * 36 + 36 \<le> length bs \<and> drop (a + i * 36) bs = ref_bytes (xs ! i) @ drop (a + i * 36 + 36) bs) \<longleftrightarrow>
   (xs = [] \<or> a + length xs * 36 \<le> length bs) \<and> drop a bs = concat (map ref_bytes xs) @ drop (a + length xs * 36) bs"
proof (induction xs arbitrary: a)
  case Nil
  then show ?case by simp
next
  case (Cons x xs)
  have "(\<forall>i<length (x # xs). a + i * 36 + 36 \<le> length bs \<and> drop (a + i * 36) bs = ref_bytes ((x # xs) ! i) @ drop (a + i * 36 + 36) bs)
    \<longleftrightarrow> (a + 36 \<le> length bs \<and> drop a bs = ref_bytes x @ drop (a + 36) bs) \<and>
      (\<forall>i<length xs. (a + 36) + i * 36 + 36 \<le> length bs \<and>
         drop ((a + 36) + i * 36) bs = ref_bytes (xs ! i) @ drop ((a + 36) + i * 36 + 36) bs)"
    by (simp add: All_less_Suc2 ac_simps)
  also have "\<dots> \<longleftrightarrow> (a + 36 \<le> length bs \<and> drop a bs = ref_bytes x @ drop (a + 36) bs) \<and>
     (xs = [] \<or> a + 36 + length xs * 36 \<le> length bs) \<and>
     drop (a + 36) bs = concat (map ref_bytes xs) @ drop (a + 36 + length xs * 36) bs"
    by (simp only: Cons.IH)
  also have "\<dots> \<longleftrightarrow> (a + length (x # xs) * 36 \<le> length bs) \<and>
     drop a bs = ref_bytes x @ concat (map ref_bytes xs) @ drop (a + length (x # xs) * 36) bs" (is "?A \<longleftrightarrow> ?B")
  proof
    assume ?A
    then show ?B by (cases "xs = []") (auto simp: ac_simps)
  next
    assume B: ?B
    have "drop (a + 36) bs = drop 36 (drop a bs)" by (simp add: add.commute)
    also have "\<dots> = concat (map ref_bytes xs) @ drop (a + 36 + length xs * 36) bs"
      by (subst conjunct2 [OF B]) (simp add: ac_simps)
    finally have "drop (a + 36) bs = concat (map ref_bytes xs) @ drop (a + 36 + length xs * 36) bs" .
    with B show ?A by (simp add: ac_simps)
  qed
  finally show ?case by simp
qed

lemma decode_root_iff:
  "decode_root E r bs = Inr rr \<longleftrightarrow>
     unat (ref_length r) = length bs \<and> ref_digest r = sha256 E bs \<and> bs = root_bytes (rr_indexes rr) \<and>
     length (rr_indexes rr) = PARTITIONS \<and> (\<forall>s\<in>set (rr_indexes rr). slot_ok s)"
  (is "?L = ?R")
proof -
  let ?idx = "rr_indexes rr"
  have slots: "map_r (decode_root_slot bs) [0..<PARTITIONS] = Inr idx \<longleftrightarrow> length idx = PARTITIONS \<and>
      (\<forall>s\<in>set idx. slot_ok s) \<and> (\<forall>i<length idx. read_ref bs (5 + i * 36) = Inr (idx ! i))" for idx
    by (auto simp: map_r_Inr list_all2_conv_all_nth decode_root_slot_def REF_BYTES_def slot_ok_def validate_ref_iff
        all_set_conv_all_nth default_ref_def)
  have refs: "(\<forall>i<length idx. read_ref bs (5 + i * 36) = Inr (idx ! i)) \<longleftrightarrow>
      (idx = [] \<or> 5 + length idx * 36 \<le> length bs) \<and> drop 5 bs = concat (map ref_bytes idx) @ drop (5 + length idx * 36) bs" for idx
    using refs_at [of idx 5 bs] by (simp add: read_ref_iff)
  have len: "length (root_bytes idx) = 5 + length idx * 36" for idx
    by (simp add: root_bytes_def length_concat comp_def sum_list_triv)
  have header: "bs = ROOT_MAGIC @ [VERSION] @ rest" if "length bs = ROOT_BYTES" "take 4 bs = ROOT_MAGIC" "bs ! 4 = VERSION" "drop 5 bs = rest" for rest
    using that id_take_nth_drop [of 4 bs] by (simp add: ROOT_BYTES_def PARTITIONS_def)
  have rr: "rr = \<lparr>rr_indexes = idx\<rparr> \<longleftrightarrow> ?idx = idx" for idx by (cases rr) auto
  show ?thesis
  proof
    assume L: ?L
    then have "map_r (decode_root_slot bs) [0..<PARTITIONS] = Inr ?idx" and obj: "unat (ref_length r) = length bs" "ref_digest r = sha256 E bs"
      and lbs: "length bs = ROOT_BYTES" and "take 4 bs = ROOT_MAGIC" "bs ! 4 = VERSION"
      by (auto simp: decode_root_def)
    moreover from this have "drop 5 bs = concat (map ref_bytes ?idx)"
      unfolding slots refs by (simp add: ROOT_BYTES_def)
    ultimately show ?R using header [of "concat (map ref_bytes ?idx)"] by (simp add: slots root_bytes_def)
  next
    assume R: ?R
    then have "length bs = 5 + length ?idx * 36" "take 4 bs = ROOT_MAGIC" "bs ! 4 = VERSION" "drop 5 bs = concat (map ref_bytes ?idx)"
      using len [of ?idx] by (simp_all add: root_bytes_def nth_append)
    moreover from this R have "map_r (decode_root_slot bs) [0..<PARTITIONS] = Inr ?idx"
      unfolding slots refs by simp
    ultimately show ?L using R by (simp add: decode_root_def ROOT_BYTES_def verify_object_def)
  qed
qed

end
