(* ===== verification/Summary.thy ===== *)
theory Summary
  imports Run_Codec
begin

text \<open>
  \<^verbatim>\<open>codec/src/summary.rs\<close>: the Bloom summaries of a run. Each run has a power of two of
  address-routed shards and as many key-routed spill shards. The keys of an address go to its
  address shard, unless there are more than \<^verbatim>\<open>HEAVY_GROUP\<close> of them, in which case the address
  shard holds a marker and the keys go to spill shards. The main lemma is that a key that was
  added is found by the probe a reader makes, whatever the order of the keys.
\<close>

unbundle bit_operations_syntax

section \<open>Constants and data\<close>

definition SUMMARY_MAGIC :: bytes where "SUMMARY_MAGIC = ascii ''FTSM''"
definition HEADER_BYTES :: nat where "HEADER_BYTES = 4 + 1 + 32 + 1 + 4 + 4"
definition SHARD_KEYS :: nat where "SHARD_KEYS = 32 * 1024"
definition BITS_PER_KEY :: nat where "BITS_PER_KEY = 16"
definition HASHES :: nat where "HASHES = 11"
definition HEAVY_GROUP :: nat where "HEAVY_GROUP = 4096"
definition MAX_SHARD_BYTES :: nat where "MAX_SHARD_BYTES = 1024 * 1024"

datatype shard_kind = Address | Spill

text \<open>The discriminants \<^verbatim>\<open>kind as u8\<close>.\<close>

fun kind_byte :: "shard_kind \<Rightarrow> u8" where
  "kind_byte Address = 0"
| "kind_byte Spill = 1"

record summary_builder =
  sb_shards :: u32
  sb_address :: "bytes list"
  sb_spill :: "bytes list"
  sb_group :: bytes
  sb_pending :: "hash32 list"
  sb_heavy :: bool
  sb_keys :: u64

record shard =
  shard_bits :: bytes

record probe =
  probe_address_index :: u32
  probe_spill_index :: u32
  probe_marker :: bytes

section \<open>Operations\<close>

definition group_of :: "bytes \<Rightarrow> bytes" where
  "group_of key = take (min (length key) 21) key"

definition route :: "bytes \<Rightarrow> bytes" where
  "route g = drop (min 1 (length g)) g"

definition marker :: "bytes \<Rightarrow> bytes" where
  "marker g = 0xff # g"

definition shard_index :: "'x ext_scheme \<Rightarrow> bytes \<Rightarrow> u32 \<Rightarrow> u32" where
  "shard_index E bs shards = of_be (take 4 (h32_be (sha256 E bs))) AND (shards - 1)"

definition spill_index :: "hash32 \<Rightarrow> u32 \<Rightarrow> u32" where
  "spill_index digest shards = of_be (take 4 (drop 16 (h32_be digest))) AND (shards - 1)"

definition hashes :: "hash32 \<Rightarrow> u64 \<times> u64" where
  "hashes digest = (of_be (take 8 (h32_be digest)), of_be (take 8 (drop 8 (h32_be digest))) OR 1)"

text \<open>The bit of the \<open>i\<close>-th hash: \<^verbatim>\<open>h1.wrapping_add(i.wrapping_mul(h2)) % total\<close>.\<close>

definition hash_bit :: "hash32 \<Rightarrow> u64 \<Rightarrow> nat \<Rightarrow> u64" where
  "hash_bit digest total_bits i = (fst (hashes digest) + word_of_nat i * snd (hashes digest)) mod total_bits"

definition bits_insert :: "bytes \<Rightarrow> hash32 \<Rightarrow> bytes" where
  "bits_insert bits digest =
     (let total_bits = word_of_nat (length bits) * 8
      in fold (\<lambda>i bits.
           let b = hash_bit digest total_bits i; j = unat (b div 8)
           in bits[j := bits ! j OR push_bit (unat (b mod 8)) 1]) [0..<HASHES] bits)"

definition bits_contains :: "bytes \<Rightarrow> hash32 \<Rightarrow> bool" where
  "bits_contains bits digest =
     (let total_bits = word_of_nat (length bits) * 8
      in list_all (\<lambda>i. let b = hash_bit digest total_bits i
                        in bits ! unat (b div 8) AND push_bit (unat (b mod 8)) 1 \<noteq> 0) [0..<HASHES])"

text \<open>\<^verbatim>\<open>u64::next_power_of_two\<close> and \<^verbatim>\<open>u64::div_ceil\<close>.\<close>

fun next_power_of_two :: "nat \<Rightarrow> nat" where
  "next_power_of_two n = (if n \<le> 1 then 1 else 2 * next_power_of_two ((n + 1) div 2))"

declare next_power_of_two.simps [simp del]

definition div_ceil :: "nat \<Rightarrow> nat \<Rightarrow> nat" where
  "div_ceil a b = (a + b - 1) div b"

definition shard_count :: "u64 \<Rightarrow> u32" where
  "shard_count keys = word_of_nat (next_power_of_two (max (div_ceil (unat keys) SHARD_KEYS) 1))"

text \<open>\<^verbatim>\<open>u32::is_power_of_two\<close>.\<close>

definition is_power_of_two :: "u32 \<Rightarrow> bool" where
  "is_power_of_two w \<longleftrightarrow> w \<noteq> 0 \<and> w AND (w - 1) = 0"

text \<open>The format directive \<^verbatim>\<open>{:08x}\<close>: eight lowercase hexadecimal digits.\<close>

definition hex_digit :: "nat \<Rightarrow> char" where
  "hex_digit n = ''0123456789abcdef'' ! n"

definition hex8 :: "u32 \<Rightarrow> string" where
  "hex8 w = concat (map (\<lambda>b. [hex_digit (unat b div 16), hex_digit (unat b mod 16)]) (u32_be w))"

definition shard_path :: "'x ext_scheme \<Rightarrow> hash32 \<Rightarrow> u32 \<Rightarrow> shard_kind \<Rightarrow> u32 \<Rightarrow> string" where
  "shard_path E run shards kind index =
     ''summaries/'' @ hex_encode E (h32_be run) @ ''/'' @ hex8 shards @ ''/'' @
     [case kind of Address \<Rightarrow> CHR ''a'' | Spill \<Rightarrow> CHR ''s''] @ hex8 index"

text \<open>A shard count that the cast to \<^verbatim>\<open>u32\<close> truncates to 0 makes \<^verbatim>\<open>div_ceil\<close> panic.\<close>

definition summary_new :: "u64 \<Rightarrow> summary_builder result" where
  "summary_new expected_keys =
     (let shards = shard_count expected_keys
      in if shards = 0 then bail ''attempt to divide by zero''
         else
           let per_shard = max (div_ceil (unat expected_keys) (unat shards)) 64;
               bytes = div_ceil (per_shard * BITS_PER_KEY) 8
           in if HEADER_BYTES + bytes + 32 > MAX_SHARD_BYTES then bail ''summary shard exceeds the 1 MiB bound''
              else Inr \<lparr>sb_shards = shards, sb_address = replicate (unat shards) (replicate bytes 0),
                     sb_spill = replicate (unat shards) (replicate bytes 0), sb_group = [], sb_pending = [],
                     sb_heavy = False, sb_keys = 0\<rparr>)"

definition insert_at :: "bytes list \<Rightarrow> u32 \<Rightarrow> hash32 \<Rightarrow> bytes list" where
  "insert_at rows index digest = rows[unat index := bits_insert (rows ! unat index) digest]"

definition insert_spill :: "u32 \<Rightarrow> hash32 \<Rightarrow> bytes list \<Rightarrow> bytes list" where
  "insert_spill shards digest rows = insert_at rows (spill_index digest shards) digest"

definition summary_flush :: "'x ext_scheme \<Rightarrow> summary_builder \<Rightarrow> summary_builder" where
  "summary_flush E b =
     (let b = (if \<not> sb_heavy b \<and> sb_pending b \<noteq> []
               then b\<lparr>sb_address := fold (\<lambda>d rows. insert_at rows (shard_index E (route (sb_group b)) (sb_shards b)) d)
                        (sb_pending b) (sb_address b)\<rparr>
               else b)
      in b\<lparr>sb_pending := [], sb_heavy := False\<rparr>)"

definition summary_add :: "'x ext_scheme \<Rightarrow> summary_builder \<Rightarrow> bytes \<Rightarrow> summary_builder" where
  "summary_add E b key =
     (let b = b\<lparr>sb_keys := sb_keys b + 1\<rparr>;
          b = (if group_of key \<noteq> sb_group b then (summary_flush E b)\<lparr>sb_group := group_of key\<rparr> else b);
          digest = sha256 E key
      in if sb_heavy b then b\<lparr>sb_spill := insert_spill (sb_shards b) digest (sb_spill b)\<rparr>
         else
           let b = b\<lparr>sb_pending := sb_pending b @ [digest]\<rparr>
           in if length (sb_pending b) > HEAVY_GROUP
              then b\<lparr>sb_heavy := True,
                     sb_address := insert_at (sb_address b) (shard_index E (route (sb_group b)) (sb_shards b))
                       (sha256 E (marker (sb_group b))),
                     sb_spill := fold (insert_spill (sb_shards b)) (sb_pending b) (sb_spill b),
                     sb_pending := []\<rparr>
              else b)"

definition encode_shard :: "'x ext_scheme \<Rightarrow> hash32 \<Rightarrow> u32 \<Rightarrow> shard_kind \<Rightarrow> u32 \<Rightarrow> bytes \<Rightarrow> bytes" where
  "encode_shard E run shards kind index bits =
     (let out = SUMMARY_MAGIC @ [VERSION] @ h32_be run @ [kind_byte kind] @ u32_be index @ u32_be shards @ bits
      in out @ h32_be (sha256 E out))"

definition summary_finish :: "'x ext_scheme \<Rightarrow> summary_builder \<Rightarrow> hash32 \<Rightarrow> (string \<times> bytes) list" where
  "summary_finish E b run =
     (let b = summary_flush E b;
          encode = (\<lambda>kind (i, bits). (shard_path E run (sb_shards b) kind (word_of_nat i),
                      encode_shard E run (sb_shards b) kind (word_of_nat i) bits))
      in map (encode Address) (enumerate 0 (sb_address b)) @ map (encode Spill) (enumerate 0 (sb_spill b)))"

definition shard_decode :: "'x ext_scheme \<Rightarrow> hash32 \<Rightarrow> shard_kind \<Rightarrow> u32 \<Rightarrow> u32 \<Rightarrow> bytes \<Rightarrow> shard result" where
  "shard_decode E run kind index shards bs =
     (if length bs \<le> HEADER_BYTES + 32 \<or> length bs > MAX_SHARD_BYTES then bail ''invalid summary shard length''
      else
        let body = take (length bs - 32) bs; check = drop (length bs - 32) bs
        in if h32_be (sha256 E body) \<noteq> check \<or> take 4 body \<noteq> SUMMARY_MAGIC \<or> body ! 4 \<noteq> VERSION
              \<or> take 32 (drop 5 body) \<noteq> h32_be run \<or> body ! 37 \<noteq> kind_byte kind
              \<or> take 4 (drop 38 body) \<noteq> u32_be index \<or> take 4 (drop 42 body) \<noteq> u32_be shards
           then bail ''summary shard does not match its run''
           else Inr \<lparr>shard_bits = drop HEADER_BYTES body\<rparr>)"

definition shard_contains :: "'x ext_scheme \<Rightarrow> shard \<Rightarrow> bytes \<Rightarrow> bool" where
  "shard_contains E sh item = bits_contains (shard_bits sh) (sha256 E item)"

definition probe_new :: "'x ext_scheme \<Rightarrow> bytes \<Rightarrow> u32 \<Rightarrow> probe" where
  "probe_new E key shards =
     \<lparr>probe_address_index = shard_index E (route (group_of key)) shards,
      probe_spill_index = spill_index (sha256 E key) shards, probe_marker = marker (group_of key)\<rparr>"

section \<open>Bitsets only grow\<close>

definition bits_le :: "bytes \<Rightarrow> bytes \<Rightarrow> bool" where
  "bits_le xs ys \<longleftrightarrow> length xs = length ys \<and> (\<forall>i<length xs. \<forall>n. bit (xs ! i) n \<longrightarrow> bit (ys ! i) n)"

definition bits_wf :: "bytes \<Rightarrow> bool" where
  "bits_wf bits \<longleftrightarrow> 0 < length bits \<and> HEADER_BYTES + length bits + 32 \<le> MAX_SHARD_BYTES"

lemma bits_le_refl [simp]: "bits_le xs xs"
  by (simp add: bits_le_def)

lemma bits_le_trans: "bits_le xs ys \<Longrightarrow> bits_le ys zs \<Longrightarrow> bits_le xs zs"
  by (simp add: bits_le_def)

lemma bits_le_length: "bits_le xs ys \<Longrightarrow> length ys = length xs"
  by (simp add: bits_le_def)

lemma bits_le_wf: "bits_le xs ys \<Longrightarrow> bits_wf xs \<Longrightarrow> bits_wf ys"
  by (simp add: bits_le_def bits_wf_def)

lemma bits_le_set: "bits_le bits (bits[j := bits ! j OR m])"
  by (cases "j < length bits") (auto simp: bits_le_def nth_list_update bit_or_iff)

lemma fold_set_bits:
  assumes "\<forall>i\<in>set is. j i < length bits \<and> k i < 8"
  shows "bits_le bits (fold (\<lambda>i bits. bits[j i := bits ! j i OR push_bit (k i) 1]) is bits) \<and>
    (\<forall>i\<in>set is. bit (fold (\<lambda>i bits. bits[j i := bits ! j i OR push_bit (k i) 1]) is bits ! j i) (k i))"
  using assms
proof (induction "is" arbitrary: bits)
  case Nil
  then show ?case by simp
next
  case (Cons i "is")
  let ?f = "\<lambda>i bits. bits[j i := bits ! j i OR push_bit (k i) 1]" and ?b = "bits[j i := bits ! j i OR push_bit (k i) 1]"
  have len: "length ?b = length bits" by simp
  have IH: "bits_le ?b (fold ?f is ?b)" "\<forall>i\<in>set is. bit (fold ?f is ?b ! j i) (k i)"
    using Cons.IH [of ?b] Cons.prems by simp_all
  have "bit (?b ! j i) (k i)" using Cons.prems by (simp add: bit_or_iff bit_exp_iff)
  with IH(1) Cons.prems have "bit (fold ?f is ?b ! j i) (k i)" by (simp add: bits_le_def)
  moreover have "bits_le bits (fold ?f is ?b)" using bits_le_set IH(1) by (rule bits_le_trans)
  ultimately show ?case using IH(2) by simp
qed

lemma hash_bit_bound:
  assumes "bits_wf bits"
  shows "unat (hash_bit d (word_of_nat (length bits) * 8) i div 8) < length bits"
    and "unat (hash_bit d (word_of_nat (length bits) * 8) i mod 8) < 8"
proof -
  let ?t = "word_of_nat (length bits) * 8 :: u64"
  have "length bits * 8 < 2 ^ 64" "0 < length bits" using assms by (simp_all add: bits_wf_def MAX_SHARD_BYTES_def)
  then have t: "unat ?t = length bits * 8"
    by (simp add: unat_mult_lem [THEN iffD1] unat_of_nat unat_word_ariths)
  have "unat (hash_bit d ?t i) < length bits * 8"
    using \<open>0 < length bits\<close> by (simp add: hash_bit_def unat_mod t)
  then show "unat (hash_bit d ?t i div 8) < length bits" by (simp add: unat_div less_mult_imp_div_less)
  show "unat (hash_bit d ?t i mod 8) < 8" by (simp add: unat_mod)
qed

lemma bits_contains_iff:
  "bits_contains bits d \<longleftrightarrow> (\<forall>i<HASHES. let b = hash_bit d (word_of_nat (length bits) * 8) i in bit (bits ! unat (b div 8)) (unat (b mod 8)))"
  by (auto simp: bits_contains_def list_all_iff Let_def bit_iff_and_push_bit_not_eq_0)

lemma bits_insert_facts:
  assumes "bits_wf bits"
  shows "bits_le bits (bits_insert bits d)" "bits_contains (bits_insert bits d) d"
proof -
  let ?b = "\<lambda>i. hash_bit d (word_of_nat (length bits) * 8) i"
  have "\<forall>i\<in>set [0..<HASHES]. unat (?b i div 8) < length bits \<and> unat (?b i mod 8) < 8"
    using hash_bit_bound [OF assms] by simp
  note * = fold_set_bits [OF this]
  then show le: "bits_le bits (bits_insert bits d)" by (simp add: bits_insert_def Let_def)
  from * show "bits_contains (bits_insert bits d) d"
    by (simp add: bits_contains_iff bits_le_length [OF le] Let_def) (simp add: bits_insert_def Let_def)
qed

lemma bits_contains_mono:
  assumes "bits_wf xs" "bits_le xs ys" "bits_contains xs d"
  shows "bits_contains ys d"
  using assms hash_bit_bound [OF assms(1)] by (auto simp: bits_contains_iff bits_le_def Let_def)

section \<open>Rows of shards\<close>

definition rows_wf :: "nat \<Rightarrow> bytes list \<Rightarrow> bool" where
  "rows_wf n rows \<longleftrightarrow> length rows = n \<and> (\<forall>r\<in>set rows. bits_wf r)"

definition rows_le :: "bytes list \<Rightarrow> bytes list \<Rightarrow> bool" where
  "rows_le = list_all2 bits_le"

definition row_has :: "bytes list \<Rightarrow> u32 \<Rightarrow> hash32 \<Rightarrow> bool" where
  "row_has rows i d \<longleftrightarrow> bits_contains (rows ! unat i) d"

lemma rows_le_refl [simp]: "rows_le rows rows"
  by (simp add: rows_le_def list_all2_refl)

lemma rows_le_trans: "rows_le a b \<Longrightarrow> rows_le b c \<Longrightarrow> rows_le a c"
  unfolding rows_le_def by (rule list_all2_trans [OF bits_le_trans])

lemma rows_le_wf: "rows_le a b \<Longrightarrow> rows_wf n a \<Longrightarrow> rows_wf n b"
  unfolding rows_le_def rows_wf_def
  by (auto simp: list_all2_conv_all_nth in_set_conv_nth) (metis bits_le_wf nth_mem)

lemma row_has_mono: "rows_wf n a \<Longrightarrow> rows_le a b \<Longrightarrow> unat i < n \<Longrightarrow> row_has a i d \<Longrightarrow> row_has b i d"
  unfolding rows_le_def rows_wf_def row_has_def
  by (auto simp: list_all2_conv_all_nth) (metis bits_contains_mono nth_mem)

lemma insert_at_facts:
  assumes "rows_wf n rows" "unat i < n"
  shows "rows_le rows (insert_at rows i d)" "row_has (insert_at rows i d) i d"
proof -
  have "bits_wf (rows ! unat i)" using assms by (simp add: rows_wf_def)
  note * = bits_insert_facts [OF this, of d]
  with assms show "rows_le rows (insert_at rows i d)" "row_has (insert_at rows i d) i d"
    by (auto simp: rows_le_def insert_at_def row_has_def list_all2_conv_all_nth nth_list_update rows_wf_def)
qed

lemma fold_insert_facts:
  assumes "rows_wf n rows" "\<forall>d\<in>set ds. unat (ix d) < n"
  shows "rows_le rows (fold (\<lambda>d rows. insert_at rows (ix d) d) ds rows) \<and>
    (\<forall>d\<in>set ds. row_has (fold (\<lambda>d rows. insert_at rows (ix d) d) ds rows) (ix d) d)"
  using assms
proof (induction ds arbitrary: rows)
  case Nil
  then show ?case by simp
next
  case (Cons d ds)
  let ?r = "insert_at rows (ix d) d"
  have r: "rows_le rows ?r" "row_has ?r (ix d) d" using insert_at_facts Cons.prems by simp_all
  have wf: "rows_wf n ?r" using rows_le_wf [OF r(1) Cons.prems(1)] .
  from Cons.IH [OF wf] Cons.prems(2) row_has_mono [OF wf _ _ r(2)] rows_le_trans [OF r(1)] show ?case by auto
qed

section \<open>No false negatives\<close>

text \<open>A key is found when its address shard has it, or has its marker and the spill shard has it.\<close>

definition found :: "'x ext_scheme \<Rightarrow> summary_builder \<Rightarrow> bytes \<Rightarrow> bool" where
  "found E b key \<longleftrightarrow>
     (let p = probe_new E key (sb_shards b)
      in row_has (sb_address b) (probe_address_index p) (sha256 E key) \<or>
         row_has (sb_address b) (probe_address_index p) (sha256 E (probe_marker p)) \<and>
         row_has (sb_spill b) (probe_spill_index p) (sha256 E key))"

definition summary_wf :: "summary_builder \<Rightarrow> bool" where
  "summary_wf b \<longleftrightarrow> sb_shards b \<noteq> 0 \<and> rows_wf (unat (sb_shards b)) (sb_address b) \<and> rows_wf (unat (sb_shards b)) (sb_spill b)"

text \<open>
  While a heavy group is open its marker is present; the digests of an open light group are
  pending; every key added so far is found or pending.
\<close>

definition summary_inv :: "'x ext_scheme \<Rightarrow> summary_builder \<Rightarrow> bytes set \<Rightarrow> bool" where
  "summary_inv E b added \<longleftrightarrow> summary_wf b \<and>
     (sb_heavy b \<longrightarrow> row_has (sb_address b) (shard_index E (route (sb_group b)) (sb_shards b)) (sha256 E (marker (sb_group b)))) \<and>
     (\<forall>k\<in>added. found E b k \<or> \<not> sb_heavy b \<and> group_of k = sb_group b \<and> sha256 E k \<in> set (sb_pending b))"

lemma index_less: "shards \<noteq> 0 \<Longrightarrow> unat (w AND (shards - 1) :: u32) < unat shards"
proof -
  assume "shards \<noteq> 0"
  then have "unat (shards - 1) < unat shards" by (simp add: unat_minus_one unat_gt_0)
  moreover have "unat (w AND (shards - 1)) \<le> unat (shards - 1)" using word_and_le1 by (simp add: word_le_nat_alt [symmetric])
  ultimately show ?thesis by linarith
qed

lemma indexes_less:
  assumes "summary_wf b"
  shows "unat (shard_index E bs (sb_shards b)) < unat (sb_shards b)" "unat (spill_index d (sb_shards b)) < unat (sb_shards b)"
  using assms index_less by (simp_all add: summary_wf_def shard_index_def spill_index_def)

text \<open>Growing either row keeps the invariant's row facts.\<close>

lemma summary_grow:
  assumes "summary_wf b" "sb_shards b' = sb_shards b" "rows_le (sb_address b) (sb_address b')" "rows_le (sb_spill b) (sb_spill b')"
  shows "summary_wf b'" "found E b k \<Longrightarrow> found E b' k"
    "row_has (sb_address b) (shard_index E bs (sb_shards b)) d \<Longrightarrow> row_has (sb_address b') (shard_index E bs (sb_shards b)) d"
proof -
  have wf: "rows_wf (unat (sb_shards b)) (sb_address b)" "rows_wf (unat (sb_shards b)) (sb_spill b)"
    using assms(1) by (simp_all add: summary_wf_def)
  show "summary_wf b'" using assms rows_le_wf [OF assms(3) wf(1)] rows_le_wf [OF assms(4) wf(2)] by (simp add: summary_wf_def)
  note addr = row_has_mono [OF wf(1) assms(3)] and sp = row_has_mono [OF wf(2) assms(4)]
  show "row_has (sb_address b) (shard_index E bs (sb_shards b)) d \<Longrightarrow> row_has (sb_address b') (shard_index E bs (sb_shards b)) d"
    using addr indexes_less(1) [OF assms(1)] by blast
  show "found E b k \<Longrightarrow> found E b' k"
    unfolding found_def Let_def probe_new_def assms(2)
    using addr [OF indexes_less(1) [OF assms(1), where E = E]] sp [OF indexes_less(2) [OF assms(1)]] by auto
qed

lemma summary_flush_inv:
  assumes "summary_inv E b added"
  shows "summary_inv E (summary_flush E b) added"
proof -
  let ?ix = "shard_index E (route (sb_group b)) (sb_shards b)"
  let ?addr = "fold (\<lambda>d rows. insert_at rows ?ix d) (sb_pending b) (sb_address b)"
  have wf: "summary_wf b" using assms by (simp add: summary_inv_def)
  show ?thesis
  proof (cases "\<not> sb_heavy b \<and> sb_pending b \<noteq> []")
    case True
    let ?b = "b\<lparr>sb_address := ?addr, sb_pending := [], sb_heavy := False\<rparr>"
    have rows: "rows_le (sb_address b) ?addr" "\<forall>d\<in>set (sb_pending b). row_has ?addr ?ix d"
      using fold_insert_facts [of "unat (sb_shards b)" "sb_address b" "sb_pending b" "\<lambda>_. ?ix"] wf indexes_less(1) [OF wf, where E = E]
      by (simp_all add: summary_wf_def)
    have "found E ?b k" if "k \<in> added" for k
    proof (cases "found E b k")
      case True
      then show ?thesis using summary_grow(2) [OF wf, of ?b E k] rows(1) by simp
    next
      case False
      with assms that have "group_of k = sb_group b" "sha256 E k \<in> set (sb_pending b)" by (auto simp: summary_inv_def)
      with rows(2) show ?thesis by (simp add: found_def probe_new_def)
    qed
    moreover have "summary_wf ?b" using summary_grow(1) [OF wf, of ?b] rows(1) by simp
    moreover have "summary_flush E b = ?b" using True by (simp add: summary_flush_def)
    ultimately show ?thesis by (simp add: summary_inv_def)
  next
    case False
    have "summary_flush E b = b\<lparr>sb_pending := [], sb_heavy := False\<rparr>" by (simp add: summary_flush_def if_not_P [OF False])
    moreover have "found E (b\<lparr>sb_pending := [], sb_heavy := False\<rparr>) k" if "k \<in> added" for k
      using assms that False by (auto simp: summary_inv_def found_def)
    ultimately show ?thesis using wf by (simp add: summary_inv_def summary_wf_def)
  qed
qed

lemma summary_flush_fields [simp]:
  "sb_pending (summary_flush E b) = []" "\<not> sb_heavy (summary_flush E b)" "sb_shards (summary_flush E b) = sb_shards b"
  by (simp_all add: summary_flush_def Let_def)

lemma summary_wf_rows:
  "summary_wf b \<Longrightarrow> rows_wf (unat (sb_shards b)) (sb_address b)"
  "summary_wf b \<Longrightarrow> rows_wf (unat (sb_shards b)) (sb_spill b)"
  by (simp_all add: summary_wf_def)

lemma summary_inv_regroup:
  assumes "summary_inv E b added" "sb_pending b = []" "\<not> sb_heavy b"
  shows "summary_inv E (b\<lparr>sb_group := g\<rparr>) added"
  using assms by (auto simp: summary_inv_def summary_wf_def found_def)

text \<open>The three ways \<^verbatim>\<open>add\<close> ends, on a builder whose open group is the key's.\<close>

lemma summary_add_heavy:
  assumes inv: "summary_inv E b added" and "group_of key = sb_group b" "sb_heavy b"
  shows "summary_inv E (b\<lparr>sb_spill := insert_spill (sb_shards b) (sha256 E key) (sb_spill b)\<rparr>) (insert key added)"
proof -
  let ?b = "b\<lparr>sb_spill := insert_spill (sb_shards b) (sha256 E key) (sb_spill b)\<rparr>"
  have wf: "summary_wf b" using inv by (simp add: summary_inv_def)
  have "rows_le (sb_spill b) (sb_spill ?b)" and new: "row_has (sb_spill ?b) (spill_index (sha256 E key) (sb_shards b)) (sha256 E key)"
    using insert_at_facts [OF summary_wf_rows(2) [OF wf] indexes_less(2) [OF wf]] by (simp_all add: insert_spill_def)
  then have wf': "summary_wf ?b" and grow: "\<And>k. found E b k \<Longrightarrow> found E ?b k"
    using summary_grow(1) [OF wf, of ?b] summary_grow(2) [OF wf, of ?b E] by simp_all
  have "found E ?b key" using inv assms(2,3) new by (simp add: found_def probe_new_def summary_inv_def)
  with wf' grow inv assms(3) show ?thesis by (auto simp: summary_inv_def)
qed

lemma summary_add_overflow:
  assumes inv: "summary_inv E b added" and key: "group_of key = sb_group b" "\<not> sb_heavy b"
  shows "summary_inv E (b\<lparr>sb_heavy := True,
      sb_address := insert_at (sb_address b) (shard_index E (route (sb_group b)) (sb_shards b)) (sha256 E (marker (sb_group b))),
      sb_spill := fold (insert_spill (sb_shards b)) (sb_pending b @ [sha256 E key]) (sb_spill b), sb_pending := []\<rparr>) (insert key added)"
    (is "summary_inv E ?b _")
proof -
  have wf: "summary_wf b" using inv by (simp add: summary_inv_def)
  have spill: "insert_spill (sb_shards b) = (\<lambda>d rows. insert_at rows (spill_index d (sb_shards b)) d)"
    by (simp add: fun_eq_iff insert_spill_def)
  have addr: "rows_le (sb_address b) (sb_address ?b)"
    and mk: "row_has (sb_address ?b) (shard_index E (route (sb_group b)) (sb_shards b)) (sha256 E (marker (sb_group b)))"
    using insert_at_facts [OF summary_wf_rows(1) [OF wf] indexes_less(1) [OF wf, where E = E]] by simp_all
  have sp: "rows_le (sb_spill b) (sb_spill ?b)"
    "\<forall>d\<in>set (sb_pending b @ [sha256 E key]). row_has (sb_spill ?b) (spill_index d (sb_shards b)) d"
    using fold_insert_facts [of "unat (sb_shards b)" "sb_spill b" "sb_pending b @ [sha256 E key]" "\<lambda>d. spill_index d (sb_shards b)"]
      indexes_less(2) [OF wf] wf unfolding spill by (simp_all add: summary_wf_def)
  have wf': "summary_wf ?b" and grow: "\<And>k. found E b k \<Longrightarrow> found E ?b k"
    using summary_grow(1) [OF wf, of ?b] summary_grow(2) [OF wf, of ?b E] addr sp(1) by simp_all
  have spilled: "found E ?b k" if "group_of k = sb_group b" "sha256 E k \<in> set (sb_pending b @ [sha256 E key])" for k
    using that(1) sp(2) [rule_format, OF that(2)] mk by (simp add: found_def probe_new_def)
  have "found E ?b k" if "k \<in> insert key added" for k
    using that inv key(1) grow [of k] spilled [of k] unfolding summary_inv_def by (cases "k = key") auto
  with wf' mk show ?thesis unfolding summary_inv_def by simp
qed

lemma summary_add_inv:
  assumes inv: "summary_inv E b added"
  shows "summary_inv E (summary_add E b key) (insert key added)"
proof -
  let ?b = "b\<lparr>sb_keys := sb_keys b + 1\<rparr>"
  define b1 where "b1 = (if group_of key \<noteq> sb_group ?b then (summary_flush E ?b)\<lparr>sb_group := group_of key\<rparr> else ?b)"
  have inv0: "summary_inv E ?b added" using inv by (auto simp: summary_inv_def summary_wf_def found_def)
  then have inv1: "summary_inv E b1 added" and g: "group_of key = sb_group b1"
    using summary_inv_regroup [OF summary_flush_inv [OF inv0]] by (simp_all add: b1_def)
  have add: "summary_add E b key =
      (if sb_heavy b1 then b1\<lparr>sb_spill := insert_spill (sb_shards b1) (sha256 E key) (sb_spill b1)\<rparr>
       else if length (sb_pending b1 @ [sha256 E key]) > HEAVY_GROUP
       then b1\<lparr>sb_heavy := True,
          sb_address := insert_at (sb_address b1) (shard_index E (route (sb_group b1)) (sb_shards b1)) (sha256 E (marker (sb_group b1))),
          sb_spill := fold (insert_spill (sb_shards b1)) (sb_pending b1 @ [sha256 E key]) (sb_spill b1), sb_pending := []\<rparr>
       else b1\<lparr>sb_pending := sb_pending b1 @ [sha256 E key]\<rparr>)"
    by (simp add: summary_add_def Let_def b1_def)
  show ?thesis
  proof (cases "sb_heavy b1")
    case True
    with summary_add_heavy [OF inv1 g] show ?thesis by (simp add: add)
  next
    case False
    with summary_add_overflow [OF inv1 g] inv1 g show ?thesis
      by (auto simp: add summary_inv_def summary_wf_def found_def)
  qed
qed

lemma next_power_of_two_ge: "n \<le> next_power_of_two n"
proof (induction n rule: next_power_of_two.induct)
  case (1 n)
  show ?case
  proof (cases "n \<le> 1")
    case True
    then show ?thesis by (subst next_power_of_two.simps) simp
  next
    case False
    with 1 have "(n + 1) div 2 \<le> next_power_of_two ((n + 1) div 2)" by simp
    with False show ?thesis by (subst next_power_of_two.simps) simp
  qed
qed

lemma next_power_of_two_le: "n \<le> 2 ^ k \<Longrightarrow> next_power_of_two n \<le> 2 ^ k"
proof (induction n arbitrary: k rule: next_power_of_two.induct)
  case (1 n)
  show ?case
  proof (cases "n \<le> 1")
    case True
    then show ?thesis by (subst next_power_of_two.simps) simp
  next
    case False
    with 1(2) obtain j where k: "k = Suc j" by (cases k) auto
    with False 1 have "next_power_of_two ((n + 1) div 2) \<le> 2 ^ j" by simp
    with False k show ?thesis by (subst next_power_of_two.simps) simp
  qed
qed

lemma next_power_of_two_power: "\<exists>k. next_power_of_two n = 2 ^ k"
proof (induction n rule: next_power_of_two.induct)
  case (1 n)
  show ?case
  proof (cases "n \<le> 1")
    case True
    then show ?thesis by (subst next_power_of_two.simps) (auto intro: exI [of _ 0])
  next
    case False
    with 1 obtain k where "next_power_of_two ((n + 1) div 2) = 2 ^ k" by auto
    with False show ?thesis by (subst next_power_of_two.simps) (auto intro: exI [of _ "Suc k"])
  qed
qed

lemma div_ceil_mult: "0 < b \<Longrightarrow> a \<le> div_ceil a b * b"
  using div_mult_mod_eq [of "a + b - 1" b] mod_less_divisor [of b "a + b - 1"] unfolding div_ceil_def by linarith

lemma div_ceil_le: "0 < b \<Longrightarrow> a \<le> b * c \<Longrightarrow> div_ceil a b \<le> c"
proof -
  assume "0 < b" "a \<le> b * c"
  then have "a + b - 1 < Suc c * b" by (simp add: mult.commute)
  then show ?thesis unfolding div_ceil_def by (metis less_Suc_eq_le less_mult_imp_div_less)
qed

lemma shard_count_power: "shard_count keys \<noteq> 0 \<Longrightarrow> is_power_of_two (shard_count keys)"
proof -
  obtain k where k: "shard_count keys = 2 ^ k"
    using next_power_of_two_power [of "max (div_ceil (unat keys) SHARD_KEYS) 1"] by (auto simp: shard_count_def)
  have "(2 ^ k :: u32) AND (2 ^ k - 1) = 0"
    by (rule bit_word_eqI) (auto simp: bit_simps mask_eq_decr_exp [symmetric])
  then show "shard_count keys \<noteq> 0 \<Longrightarrow> is_power_of_two (shard_count keys)" by (simp add: is_power_of_two_def k)
qed

lemma shard_count_unat:
  assumes "unat keys \<le> 2 ^ 46"
  shows "unat (shard_count keys) = next_power_of_two (max (div_ceil (unat keys) SHARD_KEYS) 1)"
    and "unat (shard_count keys) \<le> 2 ^ 31" and "unat keys \<le> unat (shard_count keys) * SHARD_KEYS"
proof -
  let ?n = "max (div_ceil (unat keys) SHARD_KEYS) 1"
  have "?n \<le> 2 ^ 31" using assms by (simp add: div_ceil_def SHARD_KEYS_def)
  then have le: "next_power_of_two ?n \<le> 2 ^ 31" by (rule next_power_of_two_le)
  then show eq: "unat (shard_count keys) = next_power_of_two ?n" by (simp add: shard_count_def unat_of_nat)
  with le show "unat (shard_count keys) \<le> 2 ^ 31" by simp
  have "unat keys \<le> div_ceil (unat keys) SHARD_KEYS * SHARD_KEYS" by (rule div_ceil_mult) (simp add: SHARD_KEYS_def)
  also have "\<dots> \<le> ?n * SHARD_KEYS" by simp
  also have "\<dots> \<le> next_power_of_two ?n * SHARD_KEYS" using next_power_of_two_ge by (rule mult_le_mono1)
  finally show "unat keys \<le> unat (shard_count keys) * SHARD_KEYS" by (simp only: eq)
qed

text \<open>No shard of a run of up to $2^{46}$ keys comes near the size bound.\<close>

lemma summary_new_total:
  assumes "unat keys \<le> 2 ^ 46"
  shows "\<exists>b. summary_new keys = Inr b"
proof -
  let ?s = "unat (shard_count keys)"
  have s: "0 < ?s" using next_power_of_two_ge [of "max (div_ceil (unat keys) SHARD_KEYS) 1"] by (simp add: shard_count_unat(1) [OF assms])
  then have "div_ceil (unat keys) ?s \<le> SHARD_KEYS"
    using shard_count_unat(3) [OF assms] by (rule div_ceil_le)
  then have "div_ceil (max (div_ceil (unat keys) ?s) 64 * BITS_PER_KEY) 8 \<le> 65536"
    by (simp add: SHARD_KEYS_def BITS_PER_KEY_def div_ceil_def [of _ 8])
  moreover have "shard_count keys \<noteq> 0" using s by auto
  ultimately show ?thesis by (simp add: summary_new_def Let_def HEADER_BYTES_def MAX_SHARD_BYTES_def)
qed

lemma summary_new_inv:
  assumes "summary_new keys = Inr b"
  shows "summary_inv E b {}" "sb_shards b = shard_count keys"
proof -
  let ?bytes = "div_ceil (max (div_ceil (unat keys) (unat (shard_count keys))) 64 * BITS_PER_KEY) 8"
  have "0 < div_ceil (max m 64 * BITS_PER_KEY) 8" for m
    using max.cobounded2 [of 64 m] by (simp add: div_ceil_def BITS_PER_KEY_def del: max.cobounded2)
  then have "0 < ?bytes" .
  moreover from assms have "shard_count keys \<noteq> 0" "HEADER_BYTES + ?bytes + 32 \<le> MAX_SHARD_BYTES"
    and b: "b = \<lparr>sb_shards = shard_count keys, sb_address = replicate (unat (shard_count keys)) (replicate ?bytes 0),
      sb_spill = replicate (unat (shard_count keys)) (replicate ?bytes 0), sb_group = [], sb_pending = [],
      sb_heavy = False, sb_keys = 0\<rparr>"
    by (auto simp: summary_new_def Let_def split: if_splits)
  ultimately show "summary_inv E b {}" "sb_shards b = shard_count keys"
    by (auto simp: summary_inv_def summary_wf_def rows_wf_def bits_wf_def)
qed

definition summary_adds :: "'x ext_scheme \<Rightarrow> bytes list \<Rightarrow> summary_builder \<Rightarrow> summary_builder" where
  "summary_adds E keys b = fold (\<lambda>k b. summary_add E b k) keys b"

lemma summary_adds_inv:
  "summary_inv E b added \<Longrightarrow> summary_inv E (summary_adds E keys b) (set keys \<union> added)"
proof (induction keys arbitrary: b added)
  case Nil
  then show ?case by (simp add: summary_adds_def)
next
  case (Cons k keys)
  from Cons.IH [OF summary_add_inv [OF Cons.prems]] show ?case by (simp add: summary_adds_def)
qed

lemma summary_add_shards: "sb_shards (summary_add E b k) = sb_shards b"
  by (simp add: summary_add_def Let_def)

lemma summary_adds_shards [simp]: "sb_shards (summary_adds E keys b) = sb_shards b"
  unfolding summary_adds_def by (induction keys arbitrary: b) (simp_all add: summary_add_shards)

lemma shard_roundtrip:
  assumes "bits_wf bits"
  shows "shard_decode E run kind index shards (encode_shard E run shards kind index bits) = Inr \<lparr>shard_bits = bits\<rparr>"
proof -
  define out where "out = SUMMARY_MAGIC @ [VERSION] @ h32_be run @ [kind_byte kind] @ u32_be index @ u32_be shards @ bits"
  have m: "length SUMMARY_MAGIC = 4" by (simp add: SUMMARY_MAGIC_def)
  then have len: "length out = HEADER_BYTES + length bits" by (simp add: out_def HEADER_BYTES_def)
  have fields: "take 4 out = SUMMARY_MAGIC" "out ! 4 = VERSION" "take 32 (drop 5 out) = h32_be run" "out ! 37 = kind_byte kind"
    "take 4 (drop 38 out) = u32_be index" "take 4 (drop 42 out) = u32_be shards" "drop HEADER_BYTES out = bits"
    using m by (simp_all add: out_def HEADER_BYTES_def nth_append)
  have "encode_shard E run shards kind index bits = out @ h32_be (sha256 E out)"
    by (simp add: encode_shard_def out_def Let_def)
  then show ?thesis
    using assms len by (simp add: shard_decode_def Let_def fields bits_wf_def)
qed

text \<open>The encoded shards hold every row of the flushed builder.\<close>

lemma summary_finish_row:
  fixes kind :: shard_kind
  assumes "summary_wf (summary_flush E b)" "unat i < unat (sb_shards b)"
  defines "row \<equiv> (case kind of Address \<Rightarrow> sb_address | Spill \<Rightarrow> sb_spill) (summary_flush E b) ! unat i"
  shows "(shard_path E run (sb_shards b) kind i, encode_shard E run (sb_shards b) kind i row) \<in> set (summary_finish E b run)"
    and "shard_decode E run kind i (sb_shards b) (encode_shard E run (sb_shards b) kind i row) = Inr \<lparr>shard_bits = row\<rparr>"
proof -
  let ?rows = "(case kind of Address \<Rightarrow> sb_address | Spill \<Rightarrow> sb_spill) (summary_flush E b)"
  have rows: "rows_wf (unat (sb_shards b)) ?rows" using assms(1) by (cases kind) (auto simp: summary_wf_def)
  then have "(unat i, row) \<in> set (enumerate 0 ?rows)"
    unfolding row_def using assms(2) by (cases kind) (simp_all add: in_set_enumerate_eq rows_wf_def)
  then show "(shard_path E run (sb_shards b) kind i, encode_shard E run (sb_shards b) kind i row) \<in> set (summary_finish E b run)"
    by (cases kind) (force simp: summary_finish_def Let_def image_iff)+
  show "shard_decode E run kind i (sb_shards b) (encode_shard E run (sb_shards b) kind i row) = Inr \<lparr>shard_bits = row\<rparr>"
    by (rule shard_roundtrip) (use rows assms(2) in \<open>cases kind; auto simp: rows_wf_def row_def\<close>)
qed

lemma summary_flushed:
  assumes "summary_new n = Inr b0"
  shows "summary_inv E (summary_flush E (summary_adds E keys b0)) (set keys)"
    and "summary_wf (summary_flush E (summary_adds E keys b0))" and "is_power_of_two (sb_shards b0)"
proof -
  show inv: "summary_inv E (summary_flush E (summary_adds E keys b0)) (set keys)"
    using summary_flush_inv [OF summary_adds_inv [OF summary_new_inv(1) [OF assms], of E keys]] by simp
  then show "summary_wf (summary_flush E (summary_adds E keys b0))" by (simp add: summary_inv_def)
  then show "is_power_of_two (sb_shards b0)"
    using shard_count_power by (simp add: summary_new_inv(2) [OF assms] summary_wf_def)
qed

text \<open>Every shard of a run is encoded and decodes.\<close>

lemma summary_shards:
  assumes "summary_new n = Inr b0" "b = summary_adds E keys b0" "unat i < unat (sb_shards b)"
  shows "\<exists>bs sh. (shard_path E run (sb_shards b) kind i, bs) \<in> set (summary_finish E b run) \<and>
    shard_decode E run kind i (sb_shards b) bs = Inr sh"
  using summary_finish_row [OF summary_flushed(2) [OF assms(1)], of i E keys run kind] assms(2,3) by auto

text \<open>Every key that was added is found in the encoded shards by the probe of a reader.\<close>

theorem summary_complete:
  assumes "summary_new n = Inr b0" "b = summary_adds E keys b0" "k \<in> set keys"
  defines "p \<equiv> probe_new E k (sb_shards b)"
  shows "\<exists>bs sh. (shard_path E run (sb_shards b) Address (probe_address_index p), bs) \<in> set (summary_finish E b run) \<and>
    shard_decode E run Address (probe_address_index p) (sb_shards b) bs = Inr sh \<and>
    (shard_contains E sh k \<or> shard_contains E sh (probe_marker p) \<and>
      (\<exists>bs' sh'. (shard_path E run (sb_shards b) Spill (probe_spill_index p), bs') \<in> set (summary_finish E b run) \<and>
        shard_decode E run Spill (probe_spill_index p) (sb_shards b) bs' = Inr sh' \<and> shard_contains E sh' k))"
proof -
  let ?f = "summary_flush E b"
  have wf: "summary_wf ?f" using summary_flushed(2) [OF assms(1)] assms(2) by simp
  have "found E ?f k" using summary_flushed(1) [OF assms(1), of E keys] assms(2,3) by (auto simp: summary_inv_def)
  have ix: "unat (probe_address_index p) < unat (sb_shards b)" "unat (probe_spill_index p) < unat (sb_shards b)"
    using indexes_less(1) [OF wf, where E = E] indexes_less(2) [OF wf] by (simp_all add: p_def probe_new_def)
  note addr = summary_finish_row [OF wf ix(1), of run Address] and spill = summary_finish_row [OF wf ix(2), of run Spill]
  show ?thesis
    using \<open>found E ?f k\<close> addr spill
    unfolding found_def row_has_def shard_contains_def Let_def summary_flush_fields p_def [symmetric] shard_kind.case
    by (metis shard.select_convs(1))
qed

end
