(* ===== verification/Head.thy ===== *)
theory Head
  imports Run_Codec Summary
begin

text \<open>
  \<^verbatim>\<open>codec/src/head.rs\<close>: the mutable head with its inline manifest of runs, the key layout and the
  account encoding; and the text form of a digest (\<^verbatim>\<open>codec/src/hash.rs\<close>). The two structs
  \<^verbatim>\<open>Ref\<close> and \<^verbatim>\<open>ObjectRef\<close> have the same fields and are one record here. The JSON form of a head is
  produced by code that \<^verbatim>\<open>serde\<close> generates: its two directions are fields of the record \<open>ext_head\<close>.
  The lemmas show which heads \<^verbatim>\<open>Head::decode\<close> accepts, that their runs partition the history,
  and that keys and account states are encoded injectively.
\<close>

section \<open>The head\<close>

definition L0_TRIGGER :: nat where "L0_TRIGGER = 4"
definition MAX_L0_BACKLOG :: nat where "MAX_L0_BACKLOG = 16"
definition FANOUT :: u64 where "FANOUT = 8"
definition MAX_LEVELS :: nat where "MAX_LEVELS = 8"
definition MAX_HEAD :: nat where "MAX_HEAD = 256 * 1024"

record head_run =
  hr_start :: u64
  hr_end :: u64
  hr_weight :: u64
  hr_keys :: u64
  hr_shards :: u32
  hr_root :: obj_ref
  hr_root_bytes :: string

record head =
  hd_magic :: string
  hd_chain_id :: u64
  hd_genesis :: hash32
  hd_number :: u64
  hd_hash :: hash32
  hd_state_root :: hash32
  hd_input_sha256 :: hash32
  hd_parent :: "obj_ref option"
  hd_l0 :: "head_run list"
  hd_levels :: "head_run option list"

text \<open>\<^verbatim>\<open>serde_json::to_vec\<close> and \<^verbatim>\<open>serde_json::from_slice\<close> at type \<^verbatim>\<open>Head\<close>.\<close>

record ext_head = ext +
  head_to_json :: "head \<Rightarrow> bytes result"
  head_from_json :: "bytes \<Rightarrow> head result"

definition level_unit :: "nat \<Rightarrow> u64" where
  "level_unit level = word_of_nat L0_TRIGGER * FANOUT ^ level"

definition run_input :: "'x ext_scheme \<Rightarrow> head_run \<Rightarrow> (obj_ref \<times> bytes) result" where
  "run_input E r = bind_r (hex_decode E (hr_root_bytes r)) (\<lambda>bs. Inr (hr_root r, bs))"

text \<open>Runs oldest first.\<close>

definition head_runs :: "head \<Rightarrow> head_run list" where
  "head_runs h = concat (map (\<lambda>l. case l of None \<Rightarrow> [] | Some r \<Rightarrow> [r]) (rev (hd_levels h))) @ hd_l0 h"

text \<open>The loop over the runs: the next expected start and the number of runs seen.\<close>

fun check_runs :: "'x ext_scheme \<Rightarrow> head_run list \<Rightarrow> u64 \<Rightarrow> nat \<Rightarrow> (u64 \<times> nat) result" where
  "check_runs E [] expected_start count = Inr (expected_start, count)"
| "check_runs E (run # runs) expected_start count =
     bind_r (hex_decode E (hr_root_bytes run)) (\<lambda>root.
       if hr_start run \<noteq> expected_start \<or> hr_start run > hr_end run \<or> \<not> is_power_of_two (hr_shards run)
          \<or> length root \<noteq> unat (ref_length (hr_root run)) \<or> sha256 E root \<noteq> ref_digest (hr_root run)
       then bail ''invalid tiered run interval, root or summary''
       else check_runs E runs (hr_end run + 1) (count + 1))"

definition bad_level :: "nat \<times> head_run option \<Rightarrow> bool" where
  "bad_level = (\<lambda>(index, level). case level of
     None \<Rightarrow> False
   | Some run \<Rightarrow> hr_weight run = 0 \<or> hr_weight run mod level_unit index \<noteq> 0 \<or> hr_weight run \<ge> level_unit index * FANOUT)"

definition head_decode :: "'x ext_head_scheme \<Rightarrow> bytes \<Rightarrow> head result" where
  "head_decode E bs =
     bind_r (head_from_json E bs) (\<lambda>h.
       if hd_magic h \<noteq> ''FTVH1'' \<or> length (hd_l0 h) > MAX_L0_BACKLOG \<or> length (hd_levels h) > MAX_LEVELS
       then bail ''invalid tiered head''
       else if list_ex (\<lambda>run. hr_weight run \<noteq> 1) (hd_l0 h) then bail ''invalid L0 run weight''
       else if list_ex bad_level (enumerate 0 (hd_levels h)) then bail ''invalid tiered level weight''
       else
         bind_r (check_runs E (head_runs h) 0 0) (\<lambda>(expected_start, count).
           if count = 0 \<or> expected_start \<noteq> hd_number h + 1
           then bail ''tiered runs do not cover genesis through the head''
           else Inr h))"

text \<open>The path of the head, with the chain identifier in decimal.\<close>

definition head_key :: "u64 \<Rightarrow> string" where
  "head_key chain_id = ''chains/'' @ decimal (unat chain_id) @ ''/heads/tiered-v1.json''"

section \<open>Keys and account states\<close>

definition account_key :: "address \<Rightarrow> bytes" where
  "account_key a = [1] @ addr_be a"

definition storage_key :: "address \<Rightarrow> u64 \<Rightarrow> hash32 \<Rightarrow> bytes" where
  "storage_key a incarnation slot = [2] @ addr_be a @ u64_be incarnation @ h32_be slot"

definition code_key :: "hash32 \<Rightarrow> bytes" where
  "code_key h = [3] @ h32_be h"

record account_state =
  as_exists :: bool
  as_incarnation :: u64
  as_nonce :: u64
  as_balance :: hash32
  as_code_hash :: hash32

definition account_encode :: "account_state \<Rightarrow> bytes" where
  "account_encode a = [if as_exists a then 1 else 0] @ u64_be (as_incarnation a) @ u64_be (as_nonce a) @
     h32_be (as_balance a) @ h32_be (as_code_hash a)"

definition account_decode :: "bytes \<Rightarrow> account_state result" where
  "account_decode value =
     (if length value \<noteq> 81 \<or> value ! 0 > 1 then bail ''invalid full-key account poststate''
      else
        let state = \<lparr>as_exists = (value ! 0 = 1), as_incarnation = of_be (take 8 (drop 1 value)),
              as_nonce = of_be (take 8 (drop 9 value)), as_balance = of_be (take 32 (drop 17 value)),
              as_code_hash = of_be (take 32 (drop 49 value))\<rparr>
        in if \<not> as_exists state \<and> (as_nonce state \<noteq> 0 \<or> as_balance state \<noteq> 0 \<or> as_code_hash state \<noteq> 0)
           then bail ''invalid account tombstone''
           else Inr state)"

section \<open>The text form of a digest\<close>

text \<open>\<^verbatim>\<open>Display\<close>, \<^verbatim>\<open>From<Hash32> for String\<close> and \<^verbatim>\<open>FromStr\<close>.\<close>

definition hash32_string :: "'x ext_scheme \<Rightarrow> hash32 \<Rightarrow> string" where
  "hash32_string E h = ''0x'' @ hex_encode E (h32_be h)"

definition strip_prefix :: "string \<Rightarrow> string \<Rightarrow> string option" where
  "strip_prefix pre s = (if prefix pre s then Some (drop (length pre) s) else None)"

definition is_ascii_uppercase :: "char \<Rightarrow> bool" where
  "is_ascii_uppercase c \<longleftrightarrow> c \<in> set ''ABCDEFGHIJKLMNOPQRSTUVWXYZ''"

definition hash32_parse :: "'x ext_scheme \<Rightarrow> string \<Rightarrow> hash32 result" where
  "hash32_parse E value =
     bind_r (ok_or ''fixed hex value must have a 0x prefix'' (strip_prefix ''0x'' value)) (\<lambda>raw.
       if length raw \<noteq> 64 \<or> list_ex is_ascii_uppercase raw then bail ''expected exactly 32 lowercase hex bytes''
       else
         bind_r (ctx_r ''invalid hex'' (hex_decode E raw)) (\<lambda>decoded.
           if length decoded \<noteq> 32 then bail ''expected exactly 32 bytes'' else Inr (of_be decoded)))"

section \<open>The heads that decode\<close>

text \<open>
  What the crates document: \<open>hex_encode\<close> writes two lowercase digits a byte and \<open>hex_decode\<close> reads
  them back; parsing the JSON that was written gives back the value.
\<close>

definition byte_hex :: "u8 \<Rightarrow> string" where
  "byte_hex b = [hex_digit (unat b div 16), hex_digit (unat b mod 16)]"

definition hex_roundtrip :: "'x ext_scheme \<Rightarrow> bool" where
  "hex_roundtrip E \<longleftrightarrow> (\<forall>bs. hex_encode E bs = concat (map byte_hex bs) \<and> hex_decode E (concat (map byte_hex bs)) = Inr bs)"

definition lower_hex :: "char set" where
  "lower_hex = set ''0123456789abcdef''"

lemma hex_digit_range: "n < 16 \<Longrightarrow> hex_digit n \<in> lower_hex"
  unfolding hex_digit_def lower_hex_def by (rule nth_mem) simp

lemma byte_hex_range: "set (concat (map byte_hex bs)) \<subseteq> lower_hex"
proof -
  have "set (byte_hex b) \<subseteq> lower_hex" for b
  proof -
    have "unat b < 256" using unsigned_less [of b, where ?'a = nat] by simp
    then have "unat b div 16 < 16" "unat b mod 16 < 16" by simp_all
    then show ?thesis by (simp add: byte_hex_def hex_digit_range)
  qed
  then show ?thesis by auto
qed

lemma length_byte_hex [simp]: "length (concat (map byte_hex bs)) = 2 * length bs"
  by (induction bs) (simp_all add: byte_hex_def)

lemma no_uppercase: "set s \<subseteq> lower_hex \<Longrightarrow> \<not> list_ex is_ascii_uppercase s"
  by (auto simp: list_ex_iff is_ascii_uppercase_def lower_hex_def)

lemma hex_roundtripD:
  assumes "hex_roundtrip E"
  shows "hex_decode E (hex_encode E bs) = Inr bs" "length (hex_encode E bs) = 2 * length bs"
    "\<not> list_ex is_ascii_uppercase (hex_encode E bs)" "hex_encode E bs = concat (map byte_hex bs)"
  using assms no_uppercase [OF byte_hex_range] by (simp_all add: hex_roundtrip_def)

definition json_roundtrip :: "'x ext_head_scheme \<Rightarrow> bool" where
  "json_roundtrip E \<longleftrightarrow> (\<forall>h bs. head_to_json E h = Inr bs \<longrightarrow> head_from_json E bs = Inr h)"

text \<open>The runs follow one another from \<open>a\<close> up to before \<open>b\<close>.\<close>

fun contiguous :: "u64 \<Rightarrow> head_run list \<Rightarrow> u64 \<Rightarrow> bool" where
  "contiguous a [] b \<longleftrightarrow> a = b"
| "contiguous a (r # rs) b \<longleftrightarrow> hr_start r = a \<and> hr_start r \<le> hr_end r \<and> contiguous (hr_end r + 1) rs b"

definition run_ok :: "'x ext_scheme \<Rightarrow> head_run \<Rightarrow> bool" where
  "run_ok E r \<longleftrightarrow> is_power_of_two (hr_shards r) \<and>
     (\<exists>root. hex_decode E (hr_root_bytes r) = Inr root \<and> length root = unat (ref_length (hr_root r)) \<and> sha256 E root = ref_digest (hr_root r))"

definition level_ok :: "nat \<Rightarrow> u64 \<Rightarrow> bool" where
  "level_ok i w \<longleftrightarrow> w \<noteq> 0 \<and> w mod level_unit i = 0 \<and> w < level_unit i * FANOUT"

definition levels_ok :: "head_run option list \<Rightarrow> bool" where
  "levels_ok levels \<longleftrightarrow> length levels \<le> MAX_LEVELS \<and>
     (\<forall>i<length levels. \<forall>r. levels ! i = Some r \<longrightarrow> level_ok i (hr_weight r))"

definition head_wf :: "'x ext_scheme \<Rightarrow> head \<Rightarrow> bool" where
  "head_wf E h \<longleftrightarrow> hd_magic h = ''FTVH1'' \<and> length (hd_l0 h) \<le> MAX_L0_BACKLOG \<and> (\<forall>r\<in>set (hd_l0 h). hr_weight r = 1) \<and>
     levels_ok (hd_levels h) \<and> (\<forall>r\<in>set (head_runs h). run_ok E r) \<and> head_runs h \<noteq> [] \<and>
     contiguous 0 (head_runs h) (hd_number h + 1)"

lemma check_runs_iff:
  "check_runs E runs a n = Inr (b, m) \<longleftrightarrow> contiguous a runs b \<and> (\<forall>r\<in>set runs. run_ok E r) \<and> m = n + length runs"
proof (induction runs arbitrary: a n)
  case (Cons r runs)
  show ?case
    by (cases "hex_decode E (hr_root_bytes r)") (auto simp: Cons.IH run_ok_def bail_def)
qed auto

lemma bad_level_iff: "bad_level (i, l) \<longleftrightarrow> \<not> (\<forall>r. l = Some r \<longrightarrow> level_ok i (hr_weight r))"
  by (cases l) (auto simp: bad_level_def level_ok_def not_le)

lemma levels_ok_iff: "levels_ok levels \<longleftrightarrow> length levels \<le> MAX_LEVELS \<and> \<not> list_ex bad_level (enumerate 0 levels)"
proof -
  have "list_ex bad_level (enumerate 0 levels) \<longleftrightarrow> (\<exists>i<length levels. bad_level (i, levels ! i))"
    by (auto simp: list_ex_length nth_enumerate_eq)
  then show ?thesis by (auto simp: bad_level_iff levels_ok_def)
qed

lemma head_decode_iff: "head_decode E bs = Inr h \<longleftrightarrow> head_from_json E bs = Inr h \<and> head_wf E h"
proof (cases "head_from_json E bs")
  case (Inr h')
  let ?check = "check_runs E (head_runs h') 0 0"
  have check: "(\<exists>m. ?check = Inr (hd_number h' + 1, m) \<and> m \<noteq> 0) \<longleftrightarrow>
    (\<forall>r\<in>set (head_runs h'). run_ok E r) \<and> head_runs h' \<noteq> [] \<and> contiguous 0 (head_runs h') (hd_number h' + 1)"
    by (auto simp: check_runs_iff)
  have l0: "list_ex (\<lambda>run. hr_weight run \<noteq> 1) (hd_l0 h') \<longleftrightarrow> \<not> (\<forall>r\<in>set (hd_l0 h'). hr_weight r = 1)" by (auto simp: list_ex_iff)
  have "head_decode E bs = Inr h \<longleftrightarrow> h' = h \<and> hd_magic h' = ''FTVH1'' \<and> length (hd_l0 h') \<le> MAX_L0_BACKLOG \<and>
      (\<forall>r\<in>set (hd_l0 h'). hr_weight r = 1) \<and> levels_ok (hd_levels h') \<and> (\<exists>m. ?check = Inr (hd_number h' + 1, m) \<and> m \<noteq> 0)"
    by (cases ?check)
      (auto simp: head_decode_def Inr levels_ok_iff l0 bail_def not_less split: prod.splits)
  then show ?thesis unfolding check head_wf_def using Inr by auto
qed (simp add: head_decode_def)

section \<open>The runs of a head partition its history\<close>

text \<open>
  The next expected start is computed without an overflow check: after a run that ends at the
  largest block number it is 0 again. The laws hold for heads without such a run.
\<close>

definition bounded_runs :: "head_run list \<Rightarrow> bool" where
  "bounded_runs rs \<longleftrightarrow> (\<forall>r\<in>set rs. hr_end r \<noteq> -1)"

lemma bounded_runs_simps [simp]:
  "bounded_runs []" "bounded_runs (r # rs) \<longleftrightarrow> hr_end r \<noteq> -1 \<and> bounded_runs rs"
  "bounded_runs (rs @ rs') \<longleftrightarrow> bounded_runs rs \<and> bounded_runs rs'"
  by (auto simp: bounded_runs_def)

lemma plus_one_unat: "w \<noteq> -1 \<Longrightarrow> unat (w + 1 :: u64) = unat w + 1"
  by (metis Suc_eq_plus1 add.commute add_eq_0_iff unatSuc)

lemma contiguous_append: "contiguous a (xs @ ys) b \<longleftrightarrow> (\<exists>c. contiguous a xs c \<and> contiguous c ys b)"
  by (induction xs arbitrary: a) auto

lemma plus_one_le: "w \<noteq> -1 \<Longrightarrow> w + 1 \<le> (y :: u64) \<longleftrightarrow> w < y" "w \<noteq> -1 \<Longrightarrow> y < w + 1 \<longleftrightarrow> (y :: u64) \<le> w"
  by (auto simp: word_le_nat_alt word_less_nat_alt plus_one_unat)

lemma contiguous_cover:
  assumes "contiguous a rs b" "bounded_runs rs"
  shows "a \<le> b \<and> ((\<exists>r\<in>set rs. hr_start r \<le> x \<and> x \<le> hr_end r) \<longleftrightarrow> a \<le> x \<and> x < b)"
  using assms
proof (induction rs arbitrary: a)
  case (Cons r rs)
  have IH: "hr_end r < b" "(\<exists>r\<in>set rs. hr_start r \<le> x \<and> x \<le> hr_end r) \<longleftrightarrow> hr_end r < x \<and> x < b"
    using Cons.prems Cons.IH [of "hr_end r + 1"] by (simp_all add: plus_one_le)
  have "a = hr_start r" "hr_start r \<le> hr_end r" using Cons.prems by auto
  with IH show ?case by auto
qed auto

lemma contiguous_disjoint:
  assumes "contiguous a (xs @ r # ys) b" "bounded_runs (xs @ r # ys)"
  shows "\<forall>r'\<in>set ys. hr_end r < hr_start r'" "\<forall>r'\<in>set xs. hr_end r' < hr_start r"
proof -
  from assms(1) obtain c where c: "contiguous a xs c" "hr_start r = c" "hr_start r \<le> hr_end r" "contiguous (hr_end r + 1) ys b"
    by (auto simp: contiguous_append)
  have nonempty: "hr_start q \<le> hr_end q" if "contiguous e qs d" "q \<in> set qs" for e qs d q
    using that by (induction qs arbitrary: e) auto
  show "\<forall>r'\<in>set ys. hr_end r < hr_start r'"
  proof
    fix r' assume r': "r' \<in> set ys"
    then show "hr_end r < hr_start r'"
      using contiguous_cover [OF c(4), of "hr_start r'"] nonempty [OF c(4) r'] assms(2) by (auto simp: plus_one_le)
  qed
  show "\<forall>r'\<in>set xs. hr_end r' < hr_start r"
    using contiguous_cover [OF c(1)] nonempty [OF c(1)] assms(2) c(2) by auto
qed

text \<open>
  What \<^verbatim>\<open>Head::decode\<close> documents of the runs: they lie in order without overlap, and the blocks of
  their intervals are exactly those from the genesis to the head.
\<close>

definition covers :: "u64 \<Rightarrow> head_run list \<Rightarrow> u64 \<Rightarrow> bool" where
  "covers a rs n \<longleftrightarrow> sorted_wrt (\<lambda>r r'. hr_end r < hr_start r') rs \<and> (\<forall>r\<in>set rs. hr_start r \<le> hr_end r) \<and>
     (\<forall>b. (\<exists>r\<in>set rs. hr_start r \<le> b \<and> b \<le> hr_end r) \<longleftrightarrow> a \<le> b \<and> b \<le> n)"

lemma covers_tail:
  assumes "covers a (r # rs) n"
  shows "hr_start r = a" "a \<le> n" "rs = [] \<Longrightarrow> n = hr_end r" "hr_end r \<noteq> -1 \<Longrightarrow> covers (hr_end r + 1) rs n"
proof -
  have sorted: "\<forall>r'\<in>set rs. hr_end r < hr_start r'" "sorted_wrt (\<lambda>r r'. hr_end r < hr_start r') rs"
    and nonempty: "hr_start r \<le> hr_end r" "\<forall>r\<in>set rs. hr_start r \<le> hr_end r"
    and cover: "(hr_start r \<le> b \<and> b \<le> hr_end r) \<or> (\<exists>r\<in>set rs. hr_start r \<le> b \<and> b \<le> hr_end r) \<longleftrightarrow> a \<le> b \<and> b \<le> n" for b
    using assms by (simp_all add: covers_def)
  have bounds: "a \<le> hr_start r" "hr_end r \<le> n" using cover [of "hr_start r"] cover [of "hr_end r"] nonempty(1) by auto
  then show "a \<le> n" using nonempty(1) by auto
  then show start: "hr_start r = a" using cover [of a] bounds(1) nonempty(1) sorted(1) by fastforce
  show "rs = [] \<Longrightarrow> n = hr_end r" using cover [of n] \<open>a \<le> n\<close> bounds(2) by auto
  have "(\<exists>r\<in>set rs. hr_start r \<le> b \<and> b \<le> hr_end r) \<longleftrightarrow> hr_end r < b \<and> b \<le> n" for b
    using cover [of b] sorted(1) nonempty(1) start by fastforce
  then show "hr_end r \<noteq> -1 \<Longrightarrow> covers (hr_end r + 1) rs n" using sorted(2) nonempty(2) by (simp add: covers_def plus_one_le)
qed

lemma covers_contiguous:
  assumes "bounded_runs rs" "rs \<noteq> []"
  shows "contiguous a rs (n + 1) \<longleftrightarrow> covers a rs n"
proof
  assume "covers a rs n"
  with assms show "contiguous a rs (n + 1)"
  proof (induction rs arbitrary: a)
    case (Cons r rs)
    note tail = covers_tail [OF Cons.prems(3)]
    have "hr_start r \<le> hr_end r" using Cons.prems(3) by (simp add: covers_def)
    with Cons tail show ?case by (cases "rs = []") auto
  qed simp
next
  assume cont: "contiguous a rs (n + 1)"
  have sorted: "contiguous a rs b \<Longrightarrow> bounded_runs rs \<Longrightarrow>
      sorted_wrt (\<lambda>r r'. hr_end r < hr_start r') rs \<and> (\<forall>r\<in>set rs. hr_start r \<le> hr_end r)" for a b
  proof (induction rs arbitrary: a)
    case (Cons r rs)
    then show ?case using contiguous_disjoint(1) [of a "[]" r rs b] by auto
  qed simp
  have "hd rs \<in> set rs" using assms(2) by simp
  then have "n \<noteq> -1" using contiguous_cover [OF cont assms(1), of "hr_start (hd rs)"] sorted [OF cont assms(1)] by auto
  then show "covers a rs n"
    using contiguous_cover [OF cont assms(1)] sorted [OF cont assms(1)] by (simp add: covers_def plus_one_le)
qed

lemma covers_unique:
  assumes "covers a rs n"
  shows "a \<le> b \<Longrightarrow> b \<le> n \<Longrightarrow> \<exists>!i. i < length rs \<and> hr_start (rs ! i) \<le> b \<and> b \<le> hr_end (rs ! i)"
    and "\<not> b \<le> n \<Longrightarrow> i < length rs \<Longrightarrow> \<not> (hr_start (rs ! i) \<le> b \<and> b \<le> hr_end (rs ! i))"
proof -
  have "i = j" if "i < length rs" "j < length rs" "hr_start (rs ! i) \<le> b" "b \<le> hr_end (rs ! i)" "hr_start (rs ! j) \<le> b" "b \<le> hr_end (rs ! j)" for i j
  proof (rule ccontr)
    assume "i \<noteq> j"
    then consider "i < j" | "j < i" by linarith
    then show False
    proof cases
      case 1
      then have "hr_end (rs ! i) < hr_start (rs ! j)" using assms that(2) by (simp add: covers_def sorted_wrt_iff_nth_less)
      then show False using that by auto
    next
      case 2
      then have "hr_end (rs ! j) < hr_start (rs ! i)" using assms that(1) by (simp add: covers_def sorted_wrt_iff_nth_less)
      then show False using that by auto
    qed
  qed
  moreover have cover: "(\<exists>i<length rs. hr_start (rs ! i) \<le> b \<and> b \<le> hr_end (rs ! i)) \<longleftrightarrow> a \<le> b \<and> b \<le> n" for b
  proof -
    have "(\<exists>i<length rs. hr_start (rs ! i) \<le> b \<and> b \<le> hr_end (rs ! i)) \<longleftrightarrow> (\<exists>r\<in>set rs. hr_start r \<le> b \<and> b \<le> hr_end r)"
      by (auto simp: in_set_conv_nth Bex_def)
    then show ?thesis using assms by (simp add: covers_def)
  qed
  ultimately show "a \<le> b \<Longrightarrow> b \<le> n \<Longrightarrow> \<exists>!i. i < length rs \<and> hr_start (rs ! i) \<le> b \<and> b \<le> hr_end (rs ! i)"
    by (metis (no_types, lifting))
  show "\<not> b \<le> n \<Longrightarrow> i < length rs \<Longrightarrow> \<not> (hr_start (rs ! i) \<le> b \<and> b \<le> hr_end (rs ! i))" using cover [of b] by auto
qed

text \<open>Weights of levels as natural numbers; the unit of a level and its bound do not overflow.\<close>

lemma level_weight_nat:
  assumes "i < MAX_LEVELS"
  shows "level_ok i w \<longleftrightarrow> 0 < unat w \<and> 4 * 8 ^ i dvd unat w \<and> unat w < 4 * 8 ^ (i + 1)"
proof -
  have small: "4 * 8 ^ j < (2 :: nat) ^ 64" if "j \<le> 8" for j
  proof -
    have "(8 :: nat) ^ j \<le> 8 ^ 8" using that by (rule power_increasing) simp
    then show ?thesis by simp
  qed
  have word: "level_unit j = word_of_nat (4 * 8 ^ j)" for j by (simp add: level_unit_def L0_TRIGGER_def FANOUT_def)
  have "unat (level_unit j) = 4 * 8 ^ j" if "j \<le> 8" for j
    unfolding word by (subst unat_of_nat) (use small [OF that] in simp)
  moreover have "level_unit i * FANOUT = level_unit (i + 1)" by (simp add: level_unit_def)
  ultimately have unit: "unat (level_unit i) = 4 * 8 ^ i" "unat (level_unit i * FANOUT) = 4 * 8 ^ (i + 1)"
    using assms unfolding MAX_LEVELS_def by simp_all
  have "w mod level_unit i = 0 \<longleftrightarrow> 4 * 8 ^ i dvd unat w"
    using unit(1) by (metis dvd_eq_mod_eq_0 unat_mod_distrib unsigned_0 word_unat_eq_iff)
  moreover have "w \<noteq> 0 \<longleftrightarrow> 0 < unat w" by (simp add: word_unat_eq_iff)
  ultimately show ?thesis unfolding level_ok_def word_less_nat_alt unit(2) by (simp only:)
qed

section \<open>Keys, accounts and digests\<close>

lemma keys_eq [simp]:
  "account_key a = account_key a' \<longleftrightarrow> a = a'"
  "storage_key a i s = storage_key a' i' s' \<longleftrightarrow> a = a' \<and> i = i' \<and> s = s'"
  "code_key c = code_key c' \<longleftrightarrow> c = c'"
  "account_key a \<noteq> storage_key a' i s" "account_key a \<noteq> code_key c" "storage_key a i s \<noteq> code_key c"
  "storage_key a' i s \<noteq> account_key a" "code_key c \<noteq> account_key a" "code_key c \<noteq> storage_key a i s"
  by (auto simp: account_key_def storage_key_def code_key_def append_eq_append_conv)

lemma account_decode_eq:
  "account_decode v = Inr a \<longleftrightarrow> v = account_encode a \<and>
     (as_exists a \<or> as_nonce a = 0 \<and> as_balance a = 0 \<and> as_code_hash a = 0)"
proof
  assume dec: "account_decode v = Inr a"
  then have len: "length v = 81" "v ! 0 \<le> 1" by (auto simp: account_decode_def not_less split: if_splits)
  have "(w :: u8) \<le> 1 \<Longrightarrow> w = 0 \<or> w = 1" for w by (auto simp: word_le_nat_alt word_unat_eq_iff)
  with len(2) have bit: "v ! 0 = 0 \<or> v ! 0 = 1" by blast
  have cut: "drop n v = take k (drop n v) @ drop (n + k) v" for n k by (metis append_take_drop_id add.commute drop_drop)
  have "v = [v ! 0] @ drop 1 v" using len(1) by (metis Cons_nth_drop_Suc append_Cons append_Nil drop0 One_nat_def zero_less_numeral)
  also have "drop 1 v = take 8 (drop 1 v) @ take 8 (drop 9 v) @ take 32 (drop 17 v) @ take 32 (drop 49 v)"
    using cut [of 1 8] cut [of 9 8] cut [of 17 32] len(1) by simp
  finally have v: "v = [v ! 0] @ take 8 (drop 1 v) @ take 8 (drop 9 v) @ take 32 (drop 17 v) @ take 32 (drop 49 v)" .
  have a: "a = \<lparr>as_exists = (v ! 0 = 1), as_incarnation = of_be (take 8 (drop 1 v)), as_nonce = of_be (take 8 (drop 9 v)),
      as_balance = of_be (take 32 (drop 17 v)), as_code_hash = of_be (take 32 (drop 49 v))\<rparr>"
    and "as_exists a \<or> as_nonce a = 0 \<and> as_balance a = 0 \<and> as_code_hash a = 0"
    using dec by (auto simp: account_decode_def Let_def split: if_splits)
  moreover have "account_encode a = v"
    unfolding a account_encode_def by (subst (7) v) (use len(1) bit in \<open>auto simp: be_of_be\<close>)
  ultimately show "v = account_encode a \<and> (as_exists a \<or> as_nonce a = 0 \<and> as_balance a = 0 \<and> as_code_hash a = 0)" by simp
next
  assume "v = account_encode a \<and> (as_exists a \<or> as_nonce a = 0 \<and> as_balance a = 0 \<and> as_code_hash a = 0)"
  then show "account_decode v = Inr a" by (auto simp: account_decode_def account_encode_def Let_def)
qed

lemma hash32_parse_string: "hex_roundtrip E \<Longrightarrow> hash32_parse E (hash32_string E h) = Inr h"
  by (simp add: hash32_parse_def hash32_string_def strip_prefix_def hex_roundtripD(1-3))

end
