(* ===== verification/Format.thy ===== *)
theory Format
  imports Head
begin

text \<open>
  \<^verbatim>\<open>src/format.rs\<close>: the text forms of quantities, byte strings, 256-bit values and addresses, and the
  events and packages that the archive ingests (with the two types of \<^verbatim>\<open>src/normalized.rs\<close> that the
  publisher takes). A string is its list of bytes, as \<^verbatim>\<open>str::len\<close> and \<^verbatim>\<open>str::bytes\<close> see it. The
  lemmas show that parsing inverts printing and that the accepted quantities are the printed ones.
\<close>

section \<open>Text forms\<close>

text \<open>\<^verbatim>\<open>u64::from_str_radix(_, 16)\<close>: an optional plus sign, then digits of either case, no overflow.\<close>

definition radix_digit :: "char \<Rightarrow> nat option" where
  "radix_digit c = map_of (zip ''0123456789abcdef'' [0..<16] @ zip ''ABCDEF'' [10..<16]) c"

fun radix16 :: "nat \<Rightarrow> string \<Rightarrow> nat option" where
  "radix16 acc [] = Some acc"
| "radix16 acc (c # cs) =
     (case radix_digit c of
        None \<Rightarrow> None
      | Some d \<Rightarrow> if 16 * acc + d < 2 ^ 64 then radix16 (16 * acc + d) cs else None)"

definition from_str_radix16 :: "string \<Rightarrow> u64 option" where
  "from_str_radix16 s =
     (if s = '''' \<or> s = ''+'' \<or> s = ''-'' then None
      else map_option word_of_nat (radix16 0 (if hd s = CHR ''+'' then tl s else s)))"

definition parse_data :: "'x ext_scheme \<Rightarrow> string \<Rightarrow> bytes result" where
  "parse_data E value =
     bind_r (ok_or ''hex data must have a 0x prefix'' (strip_prefix ''0x'' value)) (\<lambda>raw.
       if length raw mod 2 \<noteq> 0 \<or> list_ex is_ascii_uppercase raw
       then bail ''hex data must be lowercase and have an even number of digits''
       else ctx_r ''invalid hex data'' (hex_decode E raw))"

definition parse_quantity :: "string \<Rightarrow> u64 result" where
  "parse_quantity value =
     bind_r (ok_or ''quantity must have a 0x prefix'' (strip_prefix ''0x'' value)) (\<lambda>raw.
       if raw = [] \<or> length raw > 1 \<and> hd raw = CHR ''0'' \<or> list_ex is_ascii_uppercase raw
       then bail ''quantity is not canonical''
       else ok_or ''quantity exceeds u64'' (from_str_radix16 raw))"

definition parse_fixed_raw :: "'x ext_scheme \<Rightarrow> nat \<Rightarrow> string \<Rightarrow> bytes result" where
  "parse_fixed_raw E n raw =
     (if length raw \<noteq> n * 2 \<or> list_ex is_ascii_uppercase raw
      then bail (''expected exactly '' @ decimal n @ '' lowercase hex bytes'')
      else
        bind_r (ctx_r ''invalid hex'' (hex_decode E raw)) (\<lambda>decoded.
          if length decoded \<noteq> n then bail (''expected exactly '' @ decimal n @ '' bytes'') else Inr decoded))"

definition parse_fixed :: "'x ext_scheme \<Rightarrow> nat \<Rightarrow> string \<Rightarrow> bytes result" where
  "parse_fixed E n value =
     bind_r (ok_or ''fixed hex value must have a 0x prefix'' (strip_prefix ''0x'' value)) (parse_fixed_raw E n)"

definition parse_u256 :: "'x ext_scheme \<Rightarrow> string \<Rightarrow> hash32 result" where
  "parse_u256 E value =
     bind_r (ok_or ''quantity must have a 0x prefix'' (strip_prefix ''0x'' value)) (\<lambda>raw.
       if raw = [] \<or> length raw > 64 \<or> length raw > 1 \<and> hd raw = CHR ''0'' \<or> list_ex is_ascii_uppercase raw
       then bail ''invalid canonical U256 quantity''
       else bind_r (parse_fixed_raw E 32 (replicate (64 - length raw) CHR ''0'' @ raw)) (\<lambda>bs. Inr (of_be bs)))"

text \<open>The format directive \<^verbatim>\<open>{:x}\<close>.\<close>

fun hex_nat :: "nat \<Rightarrow> string" where
  "hex_nat n = (if n < 16 then [hex_digit n] else hex_nat (n div 16) @ [hex_digit (n mod 16)])"

declare hex_nat.simps [simp del]

definition quantity :: "u64 \<Rightarrow> string" where
  "quantity value = ''0x'' @ hex_nat (unat value)"

definition quantity_u256 :: "'x ext_scheme \<Rightarrow> hash32 \<Rightarrow> string" where
  "quantity_u256 E value =
     (case dropWhile (\<lambda>b. b = 0) (h32_be value) of
        [] \<Rightarrow> ''0x0''
      | rest \<Rightarrow> ''0x'' @ dropWhile (\<lambda>c. c = CHR ''0'') (hex_encode E rest))"

definition data32 :: "'x ext_scheme \<Rightarrow> hash32 \<Rightarrow> string" where
  "data32 E value = ''0x'' @ hex_encode E (h32_be value)"

definition address_string :: "'x ext_scheme \<Rightarrow> address \<Rightarrow> string" where
  "address_string E a = ''0x'' @ hex_encode E (addr_be a)"

definition address_parse :: "'x ext_scheme \<Rightarrow> string \<Rightarrow> address result" where
  "address_parse E s = bind_r (parse_fixed E 20 s) (\<lambda>bs. Inr (of_be bs))"

section \<open>Events and packages\<close>

record block_meta =
  bm_number :: u64
  bm_hash :: hash32
  bm_parent_hash :: hash32
  bm_state_root :: hash32
  bm_timestamp :: u64

record account_event =
  ae_block :: u64
  ae_address :: address
  ae_exists :: bool
  ae_incarnation :: u64
  ae_nonce :: u64
  ae_balance :: hash32
  ae_code_hash :: hash32

record storage_event =
  se_block :: u64
  se_address :: address
  se_incarnation :: u64
  se_slot :: hash32
  se_value :: hash32

record code_blob =
  cb_first_seen_block :: u64
  cb_code_hash :: hash32
  cb_bytes :: bytes

record segment =
  sg_schema :: string
  sg_chain_id :: u64
  sg_genesis_hash :: hash32
  sg_start_block :: u64
  sg_end_block :: u64
  sg_blocks :: "block_meta list"
  sg_accounts :: "account_event list"
  sg_storage :: "storage_event list"
  sg_code :: "code_blob list"

datatype mode = Anchor | Delta

record package =
  pk_mode :: mode
  pk_preceding_number :: "u64 option"
  pk_preceding_hash :: "hash32 option"
  pk_input_sha256 :: hash32
  pk_segment :: segment

section \<open>Quantities\<close>

lemma radix16_append: "radix16 a (xs @ ys) = (case radix16 a xs of None \<Rightarrow> None | Some v \<Rightarrow> radix16 v ys)"
  by (induction xs arbitrary: a) (auto split: option.splits)

lemma radix_hex_digit: "n < 16 \<Longrightarrow> radix_digit (hex_digit n) = Some n"
proof -
  have "\<forall>n\<in>set [0..<16]. radix_digit (hex_digit n) = Some n" by code_simp
  then show "n < 16 \<Longrightarrow> ?thesis" by simp
qed

lemma hex_nat_nonempty [simp]: "hex_nat n \<noteq> []"
  by (subst hex_nat.simps) simp

lemma radix_hex_nat: "n < 2 ^ 64 \<Longrightarrow> radix16 0 (hex_nat n) = Some n"
proof (induction n rule: hex_nat.induct)
  case (1 n)
  show ?case
  proof (cases "n < 16")
    case False
    then have "radix16 0 (hex_nat (n div 16)) = Some (n div 16)" using 1 by simp
    with False 1(2) show ?thesis by (subst hex_nat.simps) (simp add: radix16_append radix_hex_digit)
  qed (subst hex_nat.simps, simp add: radix_hex_digit)
qed

lemma hex_nat_range: "set (hex_nat n) \<subseteq> lower_hex"
  by (induction n rule: hex_nat.induct) (subst hex_nat.simps, auto simp: hex_digit_range)

lemma hex_digit_zero: "n < 16 \<Longrightarrow> hex_digit n = CHR ''0'' \<longleftrightarrow> n = 0"
  using radix_hex_digit [of n] radix_hex_digit [of 0] by (auto simp: hex_digit_def)

lemma hd_hex_nat: "hd (hex_nat n) = CHR ''0'' \<longleftrightarrow> n = 0"
proof (induction n rule: hex_nat.induct)
  case (1 n)
  show ?case
  proof (cases "n < 16")
    case False
    with 1 show ?thesis by (subst hex_nat.simps) auto
  qed (subst hex_nat.simps, simp add: hex_digit_zero)
qed

lemma length_hex_nat: "length (hex_nat n) > 1 \<Longrightarrow> n \<ge> 16"
  by (subst (asm) hex_nat.simps) (auto split: if_splits)

lemma lower_hex_plus: "set s \<subseteq> lower_hex \<Longrightarrow> s \<noteq> [] \<Longrightarrow> hd s \<noteq> CHR ''+'' \<and> s \<noteq> ''+'' \<and> s \<noteq> ''-''"
  by (cases s) (auto simp: lower_hex_def)

lemma parse_quantity_print: "parse_quantity (quantity n) = Inr n"
proof -
  have "unat n < 2 ^ 64" using unsigned_less [of n, where ?'a = nat] by simp
  then have "from_str_radix16 (hex_nat (unat n)) = Some n"
    using lower_hex_plus [OF hex_nat_range hex_nat_nonempty, of "unat n"] by (simp add: from_str_radix16_def radix_hex_nat)
  moreover have "\<not> (length (hex_nat (unat n)) > 1 \<and> hd (hex_nat (unat n)) = CHR ''0'')"
    using length_hex_nat [of "unat n"] by (auto simp: hd_hex_nat)
  ultimately show ?thesis
    using no_uppercase [OF hex_nat_range, of "unat n"] by (auto simp: parse_quantity_def quantity_def strip_prefix_def)
qed

lemma radix_digit_lower: "radix_digit c = Some d \<Longrightarrow> \<not> is_ascii_uppercase c \<Longrightarrow> c = hex_digit d \<and> d < 16"
proof -
  have "\<forall>(c, d)\<in>set (zip ''0123456789abcdef'' [0..<16] @ zip ''ABCDEF'' [10..<16]). \<not> is_ascii_uppercase c \<longrightarrow> c = hex_digit d \<and> d < 16"
    by code_simp
  then show "radix_digit c = Some d \<Longrightarrow> \<not> is_ascii_uppercase c \<Longrightarrow> ?thesis"
    unfolding radix_digit_def by (blast dest: map_of_SomeD)
qed

lemma radix16_canonical:
  assumes "radix16 0 raw = Some n" "raw \<noteq> []" "length raw > 1 \<longrightarrow> hd raw \<noteq> CHR ''0''" "\<not> list_ex is_ascii_uppercase raw"
  shows "raw = hex_nat n \<and> n < 2 ^ 64"
  using assms
proof (induction raw arbitrary: n rule: rev_induct)
  case (snoc c cs)
  from snoc.prems(1) obtain m d where m: "radix16 0 cs = Some m" "radix_digit c = Some d" "n = 16 * m + d" "n < 2 ^ 64"
    by (auto simp: radix16_append split: option.splits if_splits)
  then have c: "c = hex_digit d" "d < 16" using radix_digit_lower snoc.prems(4) by auto
  show ?case
  proof (cases "cs = []")
    case True
    with m c show ?thesis by (subst hex_nat.simps) simp
  next
    case False
    with snoc have "cs = hex_nat m" using m(1) by (auto simp: list_ex_iff)
    moreover have "m \<noteq> 0" using False snoc.prems(3) calculation hd_hex_nat [of m] by (cases cs) auto
    ultimately show ?thesis using m(3,4) c by (subst hex_nat.simps) simp
  qed
qed simp

text \<open>The accepted strings: the printed ones, and those with a plus sign before a printed number.\<close>

lemma parse_quantity_canonical:
  assumes "parse_quantity s = Inr n" "s ! 2 \<noteq> CHR ''+''"
  shows "s = quantity n"
proof -
  from assms(1) obtain raw where s: "s = ''0x'' @ raw" and raw: "raw \<noteq> []" "length raw > 1 \<longrightarrow> hd raw \<noteq> CHR ''0''"
      "\<not> list_ex is_ascii_uppercase raw" "from_str_radix16 raw = Some n"
    by (auto simp: parse_quantity_def strip_prefix_def prefix_def split: if_splits)
  then have "hd raw \<noteq> CHR ''+''" using assms(2) by (cases raw) auto
  with raw(4) obtain m where m: "radix16 0 raw = Some m" "n = word_of_nat m" by (auto simp: from_str_radix16_def split: if_splits)
  with radix16_canonical [OF m(1) raw(1,2,3)] show ?thesis by (simp add: s quantity_def unat_of_nat)
qed

section \<open>Byte strings and 256-bit values\<close>

lemma parse_fixed_raw_hex:
  "hex_roundtrip E \<Longrightarrow> length bs = n \<Longrightarrow> parse_fixed_raw E n (hex_encode E bs) = Inr bs"
  by (simp add: parse_fixed_raw_def hex_roundtripD(1-3))

lemma parse_data_hex: "hex_roundtrip E \<Longrightarrow> parse_data E (''0x'' @ hex_encode E bs) = Inr bs"
  by (simp add: parse_data_def strip_prefix_def hex_roundtripD(1-3))

lemma address_parse_string: "hex_roundtrip E \<Longrightarrow> address_parse E (address_string E a) = Inr a"
  by (simp add: address_parse_def address_string_def parse_fixed_def strip_prefix_def parse_fixed_raw_hex)

lemma pad_trim: "replicate (length s - length (dropWhile P s)) z @ dropWhile P s = s" if "\<And>c. P c \<longleftrightarrow> c = z"
proof -
  have "takeWhile P s = replicate (length (takeWhile P s)) z"
    by (rule replicate_eqI [symmetric, THEN sym]) (use that in \<open>auto dest: set_takeWhileD\<close>)
  then show ?thesis by (metis add_diff_cancel_right' length_append takeWhile_dropWhile_id)
qed

lemma trim_hex: "dropWhile (\<lambda>c. c = CHR ''0'') (concat (map byte_hex (dropWhile (\<lambda>b. b = 0) bs))) =
    dropWhile (\<lambda>c. c = CHR ''0'') (concat (map byte_hex bs))"
proof (induction bs)
  case (Cons b bs)
  have "byte_hex 0 = ''00''" by (simp add: byte_hex_def hex_digit_def)
  with Cons show ?case by simp
qed simp

lemma trim_hex_nil: "dropWhile (\<lambda>c. c = CHR ''0'') (concat (map byte_hex bs)) = [] \<longleftrightarrow> dropWhile (\<lambda>b. b = 0) bs = []"
proof (induction bs)
  case (Cons b bs)
  have lt: "unat b div 16 < 16" "unat b mod 16 < 16"
    using unsigned_less [of b, where ?'a = nat] by simp_all
  have "unat b div 16 = 0 \<and> unat b mod 16 = 0 \<longleftrightarrow> b = 0"
    by (metis add_0 div_mult_mod_eq div_0 mod_0 mult_0 unat_0 unat_eq_zero)
  with Cons lt show ?case by (auto simp: byte_hex_def hex_digit_zero)
qed simp

lemma parse_u256_print:
  assumes "hex_roundtrip E"
  shows "parse_u256 E (quantity_u256 E v) = Inr v"
proof -
  let ?full = "concat (map byte_hex (h32_be v))"
  let ?trim = "dropWhile (\<lambda>c. c = CHR ''0'') ?full"
  define raw where "raw = (if ?trim = [] then ''0'' else ?trim)"
  have q: "quantity_u256 E v = ''0x'' @ raw"
    using trim_hex [of "h32_be v"] trim_hex_nil [of "h32_be v"] hex_roundtripD(4) [OF assms]
    by (auto simp: quantity_u256_def raw_def simp del: dropWhile_eq_Nil_conv split: list.splits)
  have full: "replicate (64 - length raw) CHR ''0'' @ raw = ?full"
  proof (cases "?trim = []")
    case True
    have "replicate 63 CHR ''0'' @ ''0'' = replicate 64 CHR ''0''" by (simp add: numeral_eq_Suc)
    with pad_trim [of "\<lambda>c. c = CHR ''0''" "CHR ''0''" ?full] True show ?thesis by (simp add: raw_def)
  next
    case False
    with pad_trim [of "\<lambda>c. c = CHR ''0''" "CHR ''0''" ?full] show ?thesis by (simp add: raw_def del: dropWhile_eq_Nil_conv)
  qed
  have "set raw \<subseteq> lower_hex"
    using full byte_hex_range [of "h32_be v"] by (metis Un_subset_iff set_append)
  moreover have "raw \<noteq> []" "length raw \<le> 64" "\<not> (length raw > 1 \<and> hd raw = CHR ''0'')"
    using hd_dropWhile [of "\<lambda>c. c = CHR ''0''" ?full] length_dropWhile_le [of "\<lambda>c. c = CHR ''0''" ?full]
    by (auto simp: raw_def)
  moreover have "parse_fixed_raw E 32 ?full = Inr (h32_be v)"
    using parse_fixed_raw_hex [OF assms, of "h32_be v" 32] by (simp add: hex_roundtripD(4) [OF assms])
  ultimately show ?thesis
    using no_uppercase [of raw] by (auto simp: parse_u256_def q strip_prefix_def full)
qed

end
