(* ===== verification/Run_Tree.thy ===== *)
theory Run_Tree
  imports Run_Codec
begin

text \<open>
  What a run is, independently of how it was written and of how it is read. \<open>H r bs\<close> says
  that the object \<open>bs\<close> is held under the reference \<open>r\<close>. A data page represents the records
  it decodes to, a fence leaf the pages its fences name, an internal root its leaves, and a
  run root the strictly sorted records whose share of each hash partition is what the index
  of that partition represents. The builder establishes \<open>run_rep\<close>, the readers rely on it.
  The theory also holds the specification of a lookup, \<open>version_at\<close>, and the contract of a
  \<^verbatim>\<open>fetch\<close> closure.
\<close>

type_synonym holding = "obj_ref \<Rightarrow> bytes \<Rightarrow> bool"

section \<open>Representation\<close>

text \<open>The records routed to a partition.\<close>

definition routes :: "'x ext_scheme \<Rightarrow> nat \<Rightarrow> krecord list \<Rightarrow> krecord list" where
  "routes E p recs = filter (\<lambda>r. run_partition E (rec_key r) = p) recs"

lemma routes_sorted: "ssorted (map rec_vkey recs) \<Longrightarrow> ssorted (map rec_vkey (routes E p recs))"
  by (simp add: routes_def ssorted_filter)

definition page_rep :: "'x ext_scheme \<Rightarrow> holding \<Rightarrow> nat \<Rightarrow> fence \<Rightarrow> krecord list \<Rightarrow> bool" where
  "page_rep E H shard f rs \<longleftrightarrow>
     (\<exists>bs. H (fence_data f) bs \<and> decode_data_page E (fence_data f) bs shard = Inr rs) \<and>
     fence_vkey f = rec_vkey (hd rs)"

definition leaf_rep :: "'x ext_scheme \<Rightarrow> holding \<Rightarrow> nat \<Rightarrow> obj_ref \<Rightarrow> krecord list list \<Rightarrow> bool" where
  "leaf_rep E H shard r pages \<longleftrightarrow>
     (\<exists>bs fs. H r bs \<and> decode_index E r bs shard INDEX_MAGIC = Inr fs \<and> list_all2 (page_rep E H shard) fs pages)"

definition parent_rep :: "'x ext_scheme \<Rightarrow> holding \<Rightarrow> nat \<Rightarrow> fence \<Rightarrow> krecord list list \<Rightarrow> bool" where
  "parent_rep E H shard f pages \<longleftrightarrow>
     leaf_rep E H shard (fence_data f) pages \<and> fence_vkey f = rec_vkey (hd (concat pages))"

inductive part_rep :: "'x ext_scheme \<Rightarrow> holding \<Rightarrow> nat \<Rightarrow> obj_ref \<Rightarrow> krecord list list list \<Rightarrow> bool"
  for E :: "'x ext_scheme" and H :: holding and shard :: nat where
  absent: "part_rep E H shard default_ref []"
| single: "part_rep E H shard r [pages]"
    if "validate_index_ref r = Inr ()" "leaf_rep E H shard r pages"
| internal: "part_rep E H shard r leaves"
    if "validate_index_ref r = Inr ()" "H r bs" "decode_index E r bs shard INTERNAL_MAGIC = Inr ps"
       "list_all2 (parent_rep E H shard) ps leaves"

definition reader_rep :: "'x ext_scheme \<Rightarrow> holding \<Rightarrow> run_reader \<Rightarrow> krecord list \<Rightarrow> bool" where
  "reader_rep E H rr recs \<longleftrightarrow>
     ssorted (map rec_vkey recs) \<and> length (rr_indexes rr) = PARTITIONS \<and>
     (\<forall>p<PARTITIONS. \<exists>leaves. part_rep E H p (rr_indexes rr ! p) leaves \<and>
        concat (concat leaves) = filter (\<lambda>r. run_partition E (rec_key r) = p) recs)"

definition run_rep :: "'x ext_scheme \<Rightarrow> holding \<Rightarrow> obj_ref \<Rightarrow> krecord list \<Rightarrow> bool" where
  "run_rep E H root recs \<longleftrightarrow>
     (\<exists>bs rr. H root bs \<and> decode_root E root bs = Inr rr \<and> reader_rep E H rr recs)"

text \<open>Each level holds in every larger set of objects.\<close>

lemma page_rep_mono: "page_rep E H p f rs \<Longrightarrow> H \<le> H' \<Longrightarrow> page_rep E H' p f rs"
  by (auto simp: page_rep_def)

lemma leaf_rep_mono:
  assumes "leaf_rep E H p r pages" and "H \<le> H'"
  shows "leaf_rep E H' p r pages"
proof -
  from assms(1) obtain bs fs where *: "H r bs" "decode_index E r bs p INDEX_MAGIC = Inr fs" "list_all2 (page_rep E H p) fs pages"
    by (auto simp: leaf_rep_def)
  have "list_all2 (page_rep E H' p) fs pages"
    using *(3) by (rule list_all2_mono) (rule page_rep_mono [OF _ assms(2)])
  with * assms(2) show ?thesis unfolding leaf_rep_def by blast
qed

lemma parent_rep_mono:
  assumes "parent_rep E H p f pages" and "H \<le> H'"
  shows "parent_rep E H' p f pages"
  using assms leaf_rep_mono by (auto simp: parent_rep_def)

lemma part_rep_mono:
  assumes "part_rep E H p r leaves" and "H \<le> H'"
  shows "part_rep E H' p r leaves"
  using assms(1)
proof cases
  case absent
  then show ?thesis by (simp add: part_rep.absent)
next
  case (single pages)
  then show ?thesis using leaf_rep_mono [OF single(3) assms(2)] by (simp add: part_rep.single)
next
  case (internal bs ps)
  have "list_all2 (parent_rep E H' p) ps leaves"
    using internal(4) by (rule list_all2_mono) (rule parent_rep_mono [OF _ assms(2)])
  with internal(1-3) assms(2) show ?thesis by (blast intro: part_rep.internal)
qed

lemma reader_rep_mono: "reader_rep E H rr recs \<Longrightarrow> H \<le> H' \<Longrightarrow> reader_rep E H' rr recs"
  unfolding reader_rep_def by (meson part_rep_mono)

lemma run_rep_mono: "run_rep E H root recs \<Longrightarrow> H \<le> H' \<Longrightarrow> run_rep E H' root recs"
  unfolding run_rep_def by (meson reader_rep_mono predicate2D)

section \<open>Contents of a representation\<close>

definition routed :: "'x ext_scheme \<Rightarrow> nat \<Rightarrow> krecord list \<Rightarrow> bool" where
  "routed E shard rs \<longleftrightarrow> (\<forall>r\<in>set rs. rec_key r \<noteq> [] \<and> run_partition E (rec_key r) = shard)"

lemma page_rep_facts:
  assumes "page_rep E H p f rs"
  shows "rs \<noteq> []" "fence_vkey f = rec_vkey (hd rs)" "routed E p rs"
  using assms decode_data_page_sound by (fastforce simp: page_rep_def routed_def)+

lemma pages_rep_facts:
  assumes "list_all2 (page_rep E H p) fs pages"
  shows "\<forall>rs\<in>set pages. rs \<noteq> []" "routed E p (concat pages)"
    "list_all2 (\<lambda>f rs. rs \<noteq> [] \<and> fence_vkey f = rec_vkey (hd rs)) fs pages"
    "fs \<noteq> [] \<Longrightarrow> concat pages \<noteq> [] \<and> fence_vkey (hd fs) = rec_vkey (hd (concat pages))"
proof -
  show ne: "\<forall>rs\<in>set pages. rs \<noteq> []" and "routed E p (concat pages)"
    using assms page_rep_facts by (fastforce simp: list_all2_conv_all_nth in_set_conv_nth routed_def)+
  show "list_all2 (\<lambda>f rs. rs \<noteq> [] \<and> fence_vkey f = rec_vkey (hd rs)) fs pages"
    using assms by (rule list_all2_mono) (simp add: page_rep_facts)
  show "concat pages \<noteq> [] \<and> fence_vkey (hd fs) = rec_vkey (hd (concat pages))" if "fs \<noteq> []"
    using that assms page_rep_facts(1,2) by (cases fs; cases pages) fastforce+
qed

lemma leaf_rep_facts:
  assumes "leaf_rep E H p r pages"
  shows "concat pages \<noteq> []" "routed E p (concat pages)"
proof -
  from assms obtain bs fs where fs: "decode_index E r bs p INDEX_MAGIC = Inr fs" "list_all2 (page_rep E H p) fs pages"
    by (auto simp: leaf_rep_def)
  from fs(1) have "fs \<noteq> []" by (simp add: decode_index_iff)
  with pages_rep_facts [OF fs(2)] show "concat pages \<noteq> []" "routed E p (concat pages)" by simp_all
qed

lemma parents_rep_facts:
  assumes "list_all2 (parent_rep E H p) ps leaves"
  shows "list_all2 (\<lambda>f rs. rs \<noteq> [] \<and> fence_vkey f = rec_vkey (hd rs)) ps (map concat leaves)"
    and "routed E p (concat (concat leaves))"
proof -
  show "list_all2 (\<lambda>f rs. rs \<noteq> [] \<and> fence_vkey f = rec_vkey (hd rs)) ps (map concat leaves)"
    unfolding list.rel_map using assms
    by (rule list_all2_mono) (metis parent_rep_def leaf_rep_facts(1))
  have "\<forall>pages\<in>set leaves. routed E p (concat pages)"
    using assms leaf_rep_facts(2) by (fastforce simp: list_all2_conv_all_nth in_set_conv_nth parent_rep_def)
  then show "routed E p (concat (concat leaves))" by (auto simp: routed_def)
qed

lemma concat_map_concat: "concat (map concat xsss) = concat (concat xsss)"
  by (induction xsss) auto

lemma ssorted_chunk: "ssorted (map f (concat xss)) \<Longrightarrow> xs \<in> set xss \<Longrightarrow> ssorted (map f xs)"
  by (induction xss) (auto simp: ssorted_append)

lemma part_rep_routed: "part_rep E H p r leaves \<Longrightarrow> routed E p (concat (concat leaves))"
  by (induction rule: part_rep.induct) (auto dest: leaf_rep_facts parents_rep_facts simp: routed_def)

text \<open>The zero digest marks an absent reference, so no held object may have it.\<close>

definition nonzero :: "holding \<Rightarrow> bool" where
  "nonzero H \<longleftrightarrow> (\<forall>r bs. H r bs \<longrightarrow> ref_digest r \<noteq> 0)"

lemma nonzeroD: "nonzero H \<Longrightarrow> H r bs \<Longrightarrow> ref_digest r \<noteq> 0"
  by (auto simp: nonzero_def)

lemma nonzero_mono: "nonzero H' \<Longrightarrow> H \<le> H' \<Longrightarrow> nonzero H"
  by (auto simp: nonzero_def)

text \<open>What every reader checks of a reference and of the bytes it gets for it.\<close>

definition fetchable :: "'x ext_scheme \<Rightarrow> obj_ref \<Rightarrow> bytes \<Rightarrow> bool" where
  "fetchable E r bs \<longleftrightarrow> ref_length r \<noteq> 0 \<and> unat (ref_length r) \<le> MAX_PAGE_BYTES \<and> ref_digest r \<noteq> 0 \<and>
     unat (ref_length r) = length bs \<and> ref_digest r = sha256 E bs"

lemma fetchableI:
  assumes "nonzero H" "H r bs" "unat (ref_length r) = length bs" "ref_digest r = sha256 E bs" "0 < length bs" "length bs \<le> MAX_PAGE_BYTES"
  shows "H r bs \<and> fetchable E r bs"
proof -
  have "ref_length r \<noteq> 0" using assms(3,5) by (metis less_numeral_extra(3) unsigned_0)
  with assms nonzeroD [OF assms(1,2)] show ?thesis by (simp add: fetchable_def)
qed

text \<open>The objects that represent a run are fetchable ones.\<close>

lemma page_rep_fetchable:
  assumes "page_rep E H p f rs" "nonzero H"
  shows "page_rep E (\<lambda>r bs. H r bs \<and> fetchable E r bs) p f rs"
proof -
  from assms(1) obtain bs where bs: "H (fence_data f) bs" "decode_data_page E (fence_data f) bs p = Inr rs"
    and f: "fence_vkey f = rec_vkey (hd rs)" by (auto simp: page_rep_def)
  have "H (fence_data f) bs \<and> fetchable E (fence_data f) bs"
    using decode_data_page_sound [OF bs(2)] by (intro fetchableI [OF assms(2) bs(1)]) auto
  with bs(2) f show ?thesis by (auto simp: page_rep_def)
qed

lemma index_fetchable:
  assumes "nonzero H" "H r bs" "decode_index E r bs p magic = Inr fs" "length magic = 4"
  shows "H r bs \<and> fetchable E r bs"
proof -
  have "length bs = index_size fs" "index_size fs \<le> MAX_INDEX_BYTES" "unat (ref_length r) = length bs" "ref_digest r = sha256 E bs"
    using assms(3,4) by (simp_all add: decode_index_iff length_index_payload)
  moreover have "0 < index_size fs" using index_size_length [of fs] by linarith
  ultimately show ?thesis using bounds_u32(3) by (intro fetchableI [OF assms(1,2)]) simp_all
qed

lemma leaf_rep_fetchable:
  assumes "leaf_rep E H p r pages" "nonzero H"
  shows "leaf_rep E (\<lambda>r bs. H r bs \<and> fetchable E r bs) p r pages"
proof -
  from assms(1) obtain bs fs where *: "H r bs" "decode_index E r bs p INDEX_MAGIC = Inr fs" "list_all2 (page_rep E H p) fs pages"
    by (auto simp: leaf_rep_def)
  have "list_all2 (page_rep E (\<lambda>r bs. H r bs \<and> fetchable E r bs) p) fs pages"
    using *(3) by (rule list_all2_mono) (rule page_rep_fetchable [OF _ assms(2)])
  with *(2) index_fetchable [OF assms(2) *(1,2)] show ?thesis unfolding leaf_rep_def by auto
qed

lemma part_rep_fetchable:
  assumes "part_rep E H p r leaves" "nonzero H"
  shows "part_rep E (\<lambda>r bs. H r bs \<and> fetchable E r bs) p r leaves"
  using assms(1)
proof cases
  case absent
  then show ?thesis by (simp add: part_rep.absent)
next
  case (single pages)
  then show ?thesis using leaf_rep_fetchable [OF single(3) assms(2)] by (simp add: part_rep.single)
next
  case (internal bs ps)
  have "list_all2 (parent_rep E (\<lambda>r bs. H r bs \<and> fetchable E r bs) p) ps leaves"
    using internal(4) by (rule list_all2_mono) (simp add: parent_rep_def leaf_rep_fetchable [OF _ assms(2)])
  with internal(1,3) index_fetchable [OF assms(2) internal(2,3)] show ?thesis by (simp add: part_rep.internal)
qed

lemma reader_rep_fetchable:
  assumes "reader_rep E H rr recs" "nonzero H"
  shows "reader_rep E (\<lambda>r bs. H r bs \<and> fetchable E r bs) rr recs"
  unfolding reader_rep_def
proof (intro conjI allI impI)
  fix p assume "p < PARTITIONS"
  with assms(1) obtain leaves where "part_rep E H p (rr_indexes rr ! p) leaves"
    "concat (concat leaves) = filter (\<lambda>r. run_partition E (rec_key r) = p) recs" by (auto simp: reader_rep_def)
  with part_rep_fetchable [OF this(1) assms(2)]
  show "\<exists>leaves. part_rep E (\<lambda>r bs. H r bs \<and> fetchable E r bs) p (rr_indexes rr ! p) leaves \<and>
    concat (concat leaves) = filter (\<lambda>r. run_partition E (rec_key r) = p) recs" by blast
qed (use assms(1) in \<open>simp_all add: reader_rep_def\<close>)

lemma run_rep_fetchable:
  assumes "run_rep E H root recs" "nonzero H"
  shows "run_rep E (\<lambda>r bs. H r bs \<and> fetchable E r bs) root recs"
proof -
  from assms(1) obtain bs rr where *: "H root bs" "decode_root E root bs = Inr rr" "reader_rep E H rr recs"
    by (auto simp: run_rep_def)
  have "length bs = ROOT_BYTES" using *(2) by (simp add: decode_root_def split: if_splits)
  then have "H root bs \<and> fetchable E root bs"
    using *(2) by (intro fetchableI [OF assms(2) *(1)]) (simp_all add: decode_root_iff ROOT_BYTES_def PARTITIONS_def MAX_PAGE_BYTES_def)
  with *(2) reader_rep_fetchable [OF *(3) assms(2)] show ?thesis by (auto simp: run_rep_def)
qed

section \<open>Stored bytes determine the records\<close>

definition functional :: "holding \<Rightarrow> bool" where
  "functional H \<longleftrightarrow> (\<forall>r bs bs'. H r bs \<longrightarrow> H r bs' \<longrightarrow> bs = bs')"

lemma list_all2_unique:
  assumes "list_all2 P xs ys" "list_all2 P xs zs" "\<And>x y z. P x y \<Longrightarrow> P x z \<Longrightarrow> y = z"
  shows "ys = zs"
  using assms(1,2) by (auto simp: list_all2_conv_all_nth intro!: nth_equalityI assms(3))

lemma page_rep_unique: "functional H \<Longrightarrow> page_rep E H p f rs \<Longrightarrow> page_rep E H p f rs' \<Longrightarrow> rs = rs'"
  unfolding functional_def page_rep_def by (metis sum.inject(2))

lemma leaf_rep_unique:
  assumes "functional H" "leaf_rep E H p r pages" "leaf_rep E H p r pages'"
  shows "pages = pages'"
proof -
  from assms obtain bs fs bs' fs' where *: "H r bs" "decode_index E r bs p INDEX_MAGIC = Inr fs" "list_all2 (page_rep E H p) fs pages"
    "H r bs'" "decode_index E r bs' p INDEX_MAGIC = Inr fs'" "list_all2 (page_rep E H p) fs' pages'" by (auto simp: leaf_rep_def)
  then have "fs' = fs" using assms(1) unfolding functional_def by (metis sum.inject(2))
  with * show ?thesis using list_all2_unique [OF *(3)] page_rep_unique [OF assms(1)] by blast
qed

lemma magics_differ: "decode_index E r bs p INDEX_MAGIC = Inr fs \<Longrightarrow> decode_index E r bs p INTERNAL_MAGIC \<noteq> Inr ps"
  by (auto simp: decode_index_iff index_payload_def INDEX_MAGIC_def INTERNAL_MAGIC_def ascii_def)

lemma part_rep_unique:
  assumes "functional H" "part_rep E H p r leaves" "part_rep E H p r leaves'"
  shows "leaves = leaves'"
  using assms(2)
proof cases
  case absent
  have "validate_index_ref default_ref \<noteq> Inr ()" by (simp add: validate_ref_iff default_ref_def)
  with assms(3) absent show ?thesis by (auto elim: part_rep.cases)
next
  case (single pages)
  then obtain bs fs where leaf: "H r bs" "decode_index E r bs p INDEX_MAGIC = Inr fs" by (auto simp: leaf_rep_def)
  from assms(3) show ?thesis
  proof cases
    case (internal bs' ps)
    then show ?thesis using leaf magics_differ [of E r bs p fs ps] assms(1) unfolding functional_def by metis
  qed (use single leaf_rep_unique [OF assms(1)] in \<open>auto simp: validate_ref_iff default_ref_def\<close>)
next
  case (internal bs ps)
  from assms(3) show ?thesis
  proof cases
    case (single pages)
    then obtain bs' fs where leaf: "H r bs'" "decode_index E r bs' p INDEX_MAGIC = Inr fs" by (auto simp: leaf_rep_def)
    then show ?thesis using internal(2,3) magics_differ [of E r bs p fs ps] assms(1) unfolding functional_def by metis
  next
    case (internal bs' ps')
    then have "ps' = ps" using \<open>H r bs\<close> \<open>decode_index E r bs p INTERNAL_MAGIC = Inr ps\<close> assms(1) unfolding functional_def by (metis sum.inject(2))
    then have leaves': "list_all2 (parent_rep E H p) ps leaves'" using internal(4) by simp
    show ?thesis
      by (rule list_all2_unique [OF \<open>list_all2 (parent_rep E H p) ps leaves\<close> leaves'])
        (auto simp: parent_rep_def intro: leaf_rep_unique [OF assms(1)])
  qed (use internal in \<open>auto simp: validate_ref_iff default_ref_def\<close>)
qed

lemma reader_rep_unique:
  assumes "functional H" "reader_rep E H rr recs" "reader_rep E H rr recs'"
  shows "recs = recs'"
proof (rule ssorted_unique)
  show "ssorted (map rec_vkey recs)" "ssorted (map rec_vkey recs')" using assms by (simp_all add: reader_rep_def)
  have filters: "filter (\<lambda>r. run_partition E (rec_key r) = p) recs = filter (\<lambda>r. run_partition E (rec_key r) = p) recs'" if "p < PARTITIONS" for p
    using assms that part_rep_unique [OF assms(1)] unfolding reader_rep_def by metis
  have "r \<in> set recs \<longleftrightarrow> r \<in> set recs'" for r
    using filters [OF run_partition_less [of E "rec_key r"], THEN arg_cong, of set] by auto
  then show "set recs = set recs'" by blast
qed

lemma run_rep_unique:
  assumes "functional H" "run_rep E H root recs" "run_rep E H root recs'"
  shows "recs = recs'"
proof -
  from assms(2,3) obtain bs rr bs' rr' where "H root bs" "decode_root E root bs = Inr rr" "reader_rep E H rr recs"
    "H root bs'" "decode_root E root bs' = Inr rr'" "reader_rep E H rr' recs'" by (auto simp: run_rep_def)
  moreover from this assms(1) have "rr' = rr" unfolding functional_def by (metis sum.inject(2))
  ultimately show ?thesis using reader_rep_unique [OF assms(1)] by simp
qed

section \<open>The specification of a lookup\<close>

text \<open>The value of the newest version of \<open>key\<close> at or before \<open>block\<close>, in records sorted by key and block.\<close>

definition version_at :: "krecord list \<Rightarrow> bytes \<Rightarrow> u64 \<Rightarrow> bytes option" where
  "version_at recs key block =
     map_option rec_value (last_opt (filter (\<lambda>r. rec_key r = key \<and> rec_block r \<le> block) recs))"

text \<open>What a search does with the last record at or before \<open>(key, block)\<close>.\<close>

definition hit :: "bytes \<Rightarrow> krecord option \<Rightarrow> bytes option" where
  "hit key c = (case c of None \<Rightarrow> None | Some r \<Rightarrow> if rec_key r = key then Some (rec_value r) else None)"

lemma rec_vkey_le: "rec_vkey r \<le> (key, block) \<longleftrightarrow> rec_key r < key \<or> rec_key r = key \<and> rec_block r \<le> block"
  by (auto simp: rec_vkey_def less_eq_prod_def)

lemma ssorted_last_max: "ssorted (map f xs) \<Longrightarrow> x \<in> set xs \<Longrightarrow> f x \<le> f (last xs)"
  by (induction xs rule: rev_induct) (auto simp: ssorted_append)

lemma hit_version:
  assumes "ssorted (map rec_vkey recs)"
  shows "hit key (last_opt (filter (\<lambda>r. rec_vkey r \<le> (key, block)) recs)) = version_at recs key block"
proof (cases "filter (\<lambda>r. rec_key r = key \<and> rec_block r \<le> block) recs = []")
  case True
  then have "rec_key r \<noteq> key" if "r \<in> set (filter (\<lambda>r. rec_vkey r \<le> (key, block)) recs)" for r
    using that by (auto simp: filter_empty_conv rec_vkey_le)
  then have "hit key (last_opt (filter (\<lambda>r. rec_vkey r \<le> (key, block)) recs)) = None"
    using last_in_set [of "filter (\<lambda>r. rec_vkey r \<le> (key, block)) recs"]
    by (simp del: set_filter add: hit_def last_opt_def)
  with True show ?thesis by (simp add: version_at_def)
next
  case False
  let ?below = "filter (\<lambda>r. rec_vkey r \<le> (key, block)) recs"
  let ?here = "filter (\<lambda>r. rec_key r = key \<and> rec_block r \<le> block) recs"
  have here: "?here = filter (\<lambda>r. rec_key r = key) ?below"
    by (auto simp: rec_vkey_le intro!: filter_cong)
  obtain x where x: "x \<in> set ?below" "rec_key x = key"
    using False by (auto simp: filter_empty_conv rec_vkey_le)
  then have "rec_vkey x \<le> rec_vkey (last ?below)"
    using assms by (intro ssorted_last_max) (simp_all add: ssorted_filter)
  moreover have "last ?below \<in> set ?below" using x(1) by (metis empty_iff last_in_set list.set(1))
  ultimately have "rec_key (last ?below) = key"
    using x(2) by (auto simp: rec_vkey_def less_eq_prod_def)
  moreover from this have "last ?here = last ?below"
    unfolding here using x(1) by (cases ?below rule: rev_cases) auto
  moreover from x(1) have "?below \<noteq> []" by (metis empty_iff list.set(1))
  ultimately show ?thesis using False by (simp add: hit_def version_at_def last_opt_def)
qed

text \<open>The specification without reference to positions.\<close>

lemma version_at_Some_iff:
  assumes "ssorted (map rec_vkey recs)"
  shows "version_at recs key block = Some v \<longleftrightarrow>
    (\<exists>r\<in>set recs. rec_key r = key \<and> rec_block r \<le> block \<and> rec_value r = v \<and>
       (\<forall>r'\<in>set recs. rec_key r' = key \<and> rec_block r' \<le> block \<longrightarrow> rec_block r' \<le> rec_block r))"
  (is "_ \<longleftrightarrow> ?max")
proof -
  let ?here = "filter (\<lambda>r. rec_key r = key \<and> rec_block r \<le> block) recs"
  have last: "r' \<in> set ?here \<Longrightarrow> rec_vkey r' \<le> rec_vkey (last ?here)" for r'
    using assms by (intro ssorted_last_max) (simp_all add: ssorted_filter)
  have inj: "r = r'" if "r \<in> set recs" "r' \<in> set recs" "rec_vkey r = rec_vkey r'" for r r'
    using assms that by (metis distinct_map inj_on_eq_iff strict_sorted_iff)
  show ?thesis
  proof
    assume "version_at recs key block = Some v"
    then have "?here \<noteq> []" "rec_value (last ?here) = v" by (auto simp: version_at_def last_opt_def split: if_splits)
    moreover from this have "last ?here \<in> set ?here" by (intro last_in_set)
    ultimately show ?max using last by (fastforce simp: rec_vkey_def less_eq_prod_def)
  next
    assume ?max
    then obtain r where r: "r \<in> set ?here" "rec_value r = v" "\<forall>r'\<in>set ?here. rec_block r' \<le> rec_block r" by auto
    then have ne: "?here \<noteq> []" by (metis empty_iff list.set(1))
    then have l: "last ?here \<in> set ?here" by (intro last_in_set)
    have "rec_block (last ?here) = rec_block r"
      using r l last [OF r(1)] by (auto simp: rec_vkey_def less_eq_prod_def intro: antisym)
    with r l have "last ?here = r" by (intro inj) (auto simp: rec_vkey_def)
    with ne r(2) show "version_at recs key block = Some v" by (simp add: version_at_def last_opt_def)
  qed
qed

lemma version_at_routed:
  "version_at (filter (\<lambda>r. run_partition E (rec_key r) = run_partition E key) recs) key block = version_at recs key block"
proof -
  have "filter (\<lambda>r. run_partition E (rec_key r) = run_partition E key \<and> rec_key r = key \<and> rec_block r \<le> block) recs =
    filter (\<lambda>r. rec_key r = key \<and> rec_block r \<le> block) recs"
    by (rule filter_cong) auto
  then show ?thesis by (simp add: version_at_def)
qed

section \<open>Fetching\<close>

text \<open>
  The contract of a \<^verbatim>\<open>fetch\<close> closure: for a held object it returns the object's bytes and leaves
  what is held unchanged, or it raises an error of the class \<open>fails\<close> (\<open>\<lambda>_. False\<close> for a
  source that always answers).
\<close>

locale object_source =
  fixes fetch :: "obj_ref \<Rightarrow> ('s, bytes) act"
    and holds :: "'s \<Rightarrow> holding"
    and fails :: "error \<Rightarrow> bool"
  assumes fetch_held: "holds s r bs \<Longrightarrow> outcome fails (\<lambda>bs' s'. bs' = bs \<and> holds s' = holds s) (fetch r s)"
    and fails_ctx: "fails e \<Longrightarrow> fails (Ctx msg e)"
begin

lemma fetch_ctx:
  assumes "holds s r bs" and "\<And>s'. holds s' = holds s \<Longrightarrow> Q bs s'"
  shows "outcome (\<lambda>e. fails (Ctx msg e)) Q (fetch r s)"
  using fetch_held [OF assms(1)] by (rule outcome_mono) (use assms(2) fails_ctx in auto)

end

end
