(* ===== verification/Run_Reader.thy ===== *)
theory Run_Reader
  imports Run_Tree
begin

text \<open>
  \<^verbatim>\<open>RunReader\<close> of \<^verbatim>\<open>codec/src/run.rs\<close>: \<^verbatim>\<open>lookup\<close>, which descends from the fence root of the key's
  partition to one data page, and \<^verbatim>\<open>walk\<close>, \<^verbatim>\<open>object_refs\<close> and \<^verbatim>\<open>data_pages\<close>, which enumerate
  the objects a run refers to. \<^verbatim>\<open>fetch\<close> is the caller's closure, an action on the caller's state.
\<close>

section \<open>Operations\<close>

text \<open>
  The fence leaf that covers \<open>(key, block)\<close>: the root itself, or the leaf an internal root
  names together with the start its entry promises. \<open>None\<close> is the early return when every
  parent entry starts above the target.
\<close>

definition lookup_leaf ::
  "'x ext_scheme \<Rightarrow> obj_ref \<Rightarrow> nat \<Rightarrow> vkey \<Rightarrow> (obj_ref \<Rightarrow> ('s, bytes) act) \<Rightarrow> ('s, (obj_ref \<times> bytes \<times> vkey option) option) act"
where
  "lookup_leaf E root_ref shard target fetch =
     bind_a (lift_r (validate_index_ref root_ref)) (\<lambda>_.
     bind_a (ctx_a ''fetch run fence root'' (fetch root_ref)) (\<lambda>root_bytes.
       if take 4 root_bytes = INTERNAL_MAGIC then
         bind_a (lift_r (decode_index E root_ref root_bytes shard INTERNAL_MAGIC)) (\<lambda>parents.
           case predecessor fence_vkey target parents of
             None \<Rightarrow> ret None
           | Some entry \<Rightarrow>
               bind_a (lift_r (validate_index_ref (fence_data entry))) (\<lambda>_.
               bind_a (ctx_a ''fetch run fence leaf'' (fetch (fence_data entry))) (\<lambda>bytes.
                 ret (Some (fence_data entry, bytes, Some (fence_vkey entry))))))
       else ret (Some (root_ref, root_bytes, None))))"

definition lookup_page ::
  "'x ext_scheme \<Rightarrow> nat \<Rightarrow> vkey \<Rightarrow> (obj_ref \<Rightarrow> ('s, bytes) act) \<Rightarrow> fence \<Rightarrow> ('s, bytes option) act" where
  "lookup_page E shard target fetch fence =
     bind_a (lift_r (validate_data_ref (fence_data fence))) (\<lambda>_.
     bind_a (ctx_a ''fetch run data page'' (fetch (fence_data fence))) (\<lambda>page_bytes.
     bind_a (lift_r (decode_data_page E (fence_data fence) page_bytes shard)) (\<lambda>records.
       if \<not> (case first_opt records of None \<Rightarrow> False | Some first \<Rightarrow> rec_vkey first = fence_vkey fence)
       then bail_a ''run data page does not match its exact fence''
       else
         case predecessor rec_vkey target records of
           None \<Rightarrow> ret None
         | Some candidate \<Rightarrow>
             if rec_key candidate = fst target then ret (Some (rec_value candidate)) else ret None)))"

definition lookup :: "'x ext_scheme \<Rightarrow> run_reader \<Rightarrow> bytes \<Rightarrow> u64 \<Rightarrow> (obj_ref \<Rightarrow> ('s, bytes) act) \<Rightarrow> ('s, bytes option) act" where
  "lookup E rr key block fetch =
     (if key = [] then ret None
      else
        let shard = run_partition E key; root_ref = rr_indexes rr ! shard
        in if root_ref = default_ref then ret None
           else
             bind_a (lookup_leaf E root_ref shard (key, block) fetch) (\<lambda>leaf.
               case leaf of
                 None \<Rightarrow> ret None
               | Some (leaf_ref, leaf_bytes, expected_start) \<Rightarrow>
                   bind_a (lift_r (decode_index E leaf_ref leaf_bytes shard INDEX_MAGIC)) (\<lambda>fences.
                     if (case expected_start of
                           None \<Rightarrow> False
                         | Some start \<Rightarrow>
                             (case first_opt fences of None \<Rightarrow> True | Some fence \<Rightarrow> fence_vkey fence \<noteq> start))
                     then bail_a ''run fence leaf does not match its parent entry''
                     else
                       case predecessor fence_vkey (key, block) fences of
                         None \<Rightarrow> ret None
                       | Some fence \<Rightarrow> lookup_page E shard (key, block) fetch fence)))"

text \<open>\<^verbatim>\<open>walk\<close>: one parent entry, one partition, all partitions.\<close>

definition walk_leaf ::
  "'x ext_scheme \<Rightarrow> nat \<Rightarrow> (obj_ref \<Rightarrow> ('s, bytes) act) \<Rightarrow> obj_ref list \<times> fence list \<Rightarrow> fence \<Rightarrow> ('s, obj_ref list \<times> fence list) act"
where
  "walk_leaf E shard fetch = (\<lambda>(refs, leaves) parent.
     bind_a (lift_r (validate_index_ref (fence_data parent))) (\<lambda>_.
     bind_a (ctx_a ''fetch run fence leaf'' (fetch (fence_data parent))) (\<lambda>leaf.
     bind_a (lift_r (decode_index E (fence_data parent) leaf shard INDEX_MAGIC)) (\<lambda>fences.
       ret (refs @ [fence_data parent], leaves @ fences)))))"

definition walk_shard ::
  "'x ext_scheme \<Rightarrow> (obj_ref \<Rightarrow> ('s, bytes) act) \<Rightarrow> obj_ref list \<times> obj_ref list list \<Rightarrow> nat \<times> obj_ref
   \<Rightarrow> ('s, obj_ref list \<times> obj_ref list list) act"
where
  "walk_shard E fetch = (\<lambda>(refs, pages) (shard, root).
     if root = default_ref then ret (refs, pages)
     else
       bind_a (lift_r (validate_index_ref root)) (\<lambda>_.
       bind_a (ctx_a ''fetch run fence root'' (fetch root)) (\<lambda>bytes.
       bind_a
         (if take 4 bytes = INTERNAL_MAGIC then
            bind_a (lift_r (decode_index E root bytes shard INTERNAL_MAGIC)) (\<lambda>parents.
              fold_a (walk_leaf E shard fetch) (refs @ [root], []) parents)
          else
            bind_a (lift_r (decode_index E root bytes shard INDEX_MAGIC)) (\<lambda>leaves.
              ret (refs @ [root], leaves)))
         (\<lambda>(refs, leaves).
            ret (refs, pages[shard := pages ! shard @ map fence_data leaves])))))"

definition walk :: "'x ext_scheme \<Rightarrow> run_reader \<Rightarrow> (obj_ref \<Rightarrow> ('s, bytes) act) \<Rightarrow> ('s, obj_ref list \<times> obj_ref list list) act" where
  "walk E rr fetch = fold_a (walk_shard E fetch) ([], replicate PARTITIONS []) (enumerate 0 (rr_indexes rr))"

definition object_refs :: "'x ext_scheme \<Rightarrow> run_reader \<Rightarrow> (obj_ref \<Rightarrow> ('s, bytes) act) \<Rightarrow> ('s, obj_ref list) act" where
  "object_refs E rr fetch = bind_a (walk E rr fetch) (\<lambda>(refs, pages). ret (refs @ concat pages))"

definition data_pages :: "'x ext_scheme \<Rightarrow> run_reader \<Rightarrow> (obj_ref \<Rightarrow> ('s, bytes) act) \<Rightarrow> ('s, obj_ref list list) act" where
  "data_pages E rr fetch = bind_a (walk E rr fetch) (\<lambda>(refs, pages). ret pages)"

section \<open>Lookups\<close>

lemma magic_of_index:
  assumes "decode_index E r bs shard magic = Inr fs" "length magic = 4"
  shows "take 4 bs = magic"
  using assms by (simp add: decode_index_iff index_payload_def)

lemma validate_of_fence:
  "fence_ok E shard INTERNAL_MAGIC f \<Longrightarrow> validate_index_ref (fence_data f) = Inr ()"
  "fence_ok E shard INDEX_MAGIC f \<Longrightarrow> validate_data_ref (fence_data f) = Inr ()"
  by (simp_all add: fence_ok_def ref_ok_def index_limit_def validate_ref_iff magic_neq)

lemma decoded_fence_valid:
  "decode_index E r bs shard INTERNAL_MAGIC = Inr fs \<Longrightarrow> f \<in> set fs \<Longrightarrow> validate_index_ref (fence_data f) = Inr ()"
  "decode_index E r bs shard INDEX_MAGIC = Inr fs \<Longrightarrow> f \<in> set fs \<Longrightarrow> validate_data_ref (fence_data f) = Inr ()"
  by (auto simp: decode_index_iff intro: validate_of_fence)

text \<open>The objects of \<open>H\<close> under the references in \<open>S\<close>, and data references with the pages they name.\<close>

definition restrict_to :: "holding \<Rightarrow> obj_ref set \<Rightarrow> holding" where
  "restrict_to H S = (\<lambda>r bs. H r bs \<and> r \<in> S)"

definition page_refs :: "'x ext_scheme \<Rightarrow> holding \<Rightarrow> nat \<Rightarrow> obj_ref list \<Rightarrow> krecord list list \<Rightarrow> bool" where
  "page_refs E H shard = list_all2 (\<lambda>r rs. \<exists>bs. H r bs \<and> decode_data_page E r bs shard = Inr rs)"

lemma restrict_to_mono: "S \<subseteq> S' \<Longrightarrow> restrict_to H S \<le> restrict_to H S'"
  by (auto simp: restrict_to_def)

lemma page_rep_restrict:
  "list_all2 (page_rep E H p) fs pages \<Longrightarrow> fence_data ` set fs \<subseteq> S \<Longrightarrow> list_all2 (page_rep E (restrict_to H S) p) fs pages"
  by (rule list.rel_mono_strong, assumption) (auto simp: page_rep_def restrict_to_def)

lemma page_refs_of_rep: "list_all2 (page_rep E H p) fs pages \<Longrightarrow> page_refs E H p (map fence_data fs) pages"
  unfolding page_refs_def list.rel_map by (erule list_all2_mono) (simp add: page_rep_def)

context object_source begin

lemma lookup_page_correct:
  assumes "page_rep E (holds s) shard f rs" and "validate_data_ref (fence_data f) = Inr ()"
  shows "outcome fails (\<lambda>v s'. holds s' = holds s \<and>
      v = hit (fst target) (last_opt (filter (\<lambda>r. rec_vkey r \<le> target) rs)))
    (lookup_page E shard target fetch f s)"
proof -
  from assms(1) obtain bs where bs: "holds s (fence_data f) bs" "decode_data_page E (fence_data f) bs shard = Inr rs"
    and first: "fence_vkey f = rec_vkey (hd rs)" by (auto simp: page_rep_def)
  have rs: "first_opt rs = Some (hd rs)"
    using decode_data_page_sound(3) [OF bs(2)] by (cases rs) simp_all
  have pred: "predecessor rec_vkey target rs = last_opt (filter (\<lambda>r. rec_vkey r \<le> target) rs)"
    using decode_data_page_sound(4) [OF bs(2)] by (rule predecessor_sorted)
  show ?thesis
    unfolding lookup_page_def
    by (cases "predecessor rec_vkey target rs")
      (simp_all add: assms(2) fetch_ctx [OF bs(1)] bs(2) rs first hit_def flip: pred)
qed

lemma lookup_fences_correct:
  assumes "decode_index E r bs shard INDEX_MAGIC = Inr fs" and "list_all2 (page_rep E (holds s) shard) fs pages"
    and "ssorted (map rec_vkey (concat pages))" and "holds t = holds s"
  shows "outcome fails (\<lambda>v s'. holds s' = holds s \<and>
      v = hit (fst target) (last_opt (filter (\<lambda>r. rec_vkey r \<le> target) (concat pages))))
    ((case predecessor fence_vkey target fs of None \<Rightarrow> ret None | Some f \<Rightarrow> lookup_page E shard target fetch f) t)"
proof (cases "predecessor fence_vkey target fs")
  case None
  then show ?thesis
    using predecessor_None [OF _ pages_rep_facts(3) [OF assms(2)] assms(3)] assms(4) by (simp add: hit_def)
next
  case (Some f)
  from predecessor_Some [OF this pages_rep_facts(3) [OF assms(2)] assms(3)] obtain i where
    i: "i < length fs" "fs ! i = f" and last: "last_opt (filter (\<lambda>r. rec_vkey r \<le> target) (concat pages)) =
      last_opt (filter (\<lambda>r. rec_vkey r \<le> target) (pages ! i))" .
  have "page_rep E (holds t) shard f (pages ! i)" using list_all2_nthD [OF assms(2) i(1)] i(2) assms(4) by simp
  moreover have "validate_data_ref (fence_data f) = Inr ()"
    using decoded_fence_valid(2) [OF assms(1)] i by auto
  ultimately show ?thesis using lookup_page_correct [of E t shard f] Some assms(4) by (simp add: last)
qed

lemma lookup_part_correct:
  assumes part: "part_rep E (holds s) shard root leaves" and shard: "run_partition E key = shard" "key \<noteq> []"
    and root: "rr_indexes rr ! shard = root" and sorted: "ssorted (map rec_vkey (concat (concat leaves)))"
  shows "outcome fails (\<lambda>v s'. holds s' = holds s \<and>
      v = hit key (last_opt (filter (\<lambda>r. rec_vkey r \<le> (key, block)) (concat (concat leaves)))))
    (lookup E rr key block fetch s)"
  using part
proof cases
  case absent
  then show ?thesis using shard root by (simp add: lookup_def hit_def)
next
  case (single pages)
  then obtain bs fs where bs: "holds s root bs" "decode_index E root bs shard INDEX_MAGIC = Inr fs"
    "list_all2 (page_rep E (holds s) shard) fs pages" by (auto simp: leaf_rep_def)
  have "root \<noteq> default_ref" "take 4 bs \<noteq> INTERNAL_MAGIC"
    using single(2) magic_of_index [OF bs(2)] by (auto simp: validate_ref_iff default_ref_def magic_neq)
  moreover note lookup_fences_correct [OF bs(2,3), of _ "(key, block)"]
  ultimately show ?thesis using single shard root sorted bs(2)
    by (simp add: lookup_def lookup_leaf_def) (rule fetch_ctx [OF bs(1)], simp)
next
  case (internal bs ps)
  have root': "root \<noteq> default_ref" "take 4 bs = INTERNAL_MAGIC"
    using internal(1) magic_of_index [OF internal(3)] by (auto simp: validate_ref_iff default_ref_def)
  let ?target = "(key, block)"
  note parents = parents_rep_facts(1) [OF internal(4)]
  have sorted': "ssorted (map rec_vkey (concat (map concat leaves)))"
    using sorted by (simp add: concat_map_concat)
  show ?thesis
  proof (cases "predecessor fence_vkey ?target ps")
    case None
    then have "filter (\<lambda>r. rec_vkey r \<le> ?target) (concat (concat leaves)) = []"
      using predecessor_None [OF _ parents sorted'] by (simp add: concat_map_concat)
    with None shard root root' internal show ?thesis
      by (simp add: lookup_def lookup_leaf_def fetch_ctx [OF internal(2)] hit_def)
  next
    case (Some entry)
    from predecessor_Some [OF this parents sorted'] obtain i where i: "i < length ps" "ps ! i = entry"
      and last: "last_opt (filter (\<lambda>r. rec_vkey r \<le> ?target) (concat (map concat leaves))) =
        last_opt (filter (\<lambda>r. rec_vkey r \<le> ?target) (map concat leaves ! i))" .
    have len: "i < length leaves" using i(1) list_all2_lengthD [OF internal(4)] by simp
    have "parent_rep E (holds s) shard entry (leaves ! i)"
      using list_all2_nthD [OF internal(4) i(1)] i(2) by simp
    then obtain lbs fs where leaf: "holds s (fence_data entry) lbs" "decode_index E (fence_data entry) lbs shard INDEX_MAGIC = Inr fs"
      "list_all2 (page_rep E (holds s) shard) fs (leaves ! i)" and start: "fence_vkey entry = rec_vkey (hd (concat (leaves ! i)))"
      by (auto simp: parent_rep_def leaf_rep_def)
    have "fs \<noteq> []" using leaf(2) by (simp add: decode_index_iff)
    then have first: "first_opt fs = Some (hd fs)" "fence_vkey (hd fs) = fence_vkey entry"
      using pages_rep_facts(4) [OF leaf(3)] start by (cases fs; simp)+
    have "ssorted (map rec_vkey (concat (leaves ! i)))"
      using ssorted_chunk [OF sorted', of "concat (leaves ! i)"] len by simp
    note fences = lookup_fences_correct [OF leaf(2,3) this, of _ ?target, unfolded fst_conv]
    have valid: "validate_index_ref (fence_data entry) = Inr ()"
      using decoded_fence_valid(1) [OF internal(3)] i by auto
    have "outcome fails (\<lambda>v s'. holds s' = holds s \<and>
        v = hit key (last_opt (filter (\<lambda>r. rec_vkey r \<le> ?target) (concat (leaves ! i)))))
      (lookup E rr key block fetch s)"
      using Some shard root root' internal(1,3)
      by (simp add: lookup_def lookup_leaf_def)
        (rule fetch_ctx [OF internal(2)], simp add: valid, rule fetch_ctx [where bs = lbs],
          simp_all add: leaf(1,2) first fences)
    with last len show ?thesis by (simp add: concat_map_concat)
  qed
qed

theorem lookup_correct:
  assumes "reader_rep E (holds s) rr recs"
  shows "outcome fails (\<lambda>v s'. holds s' = holds s \<and> v = (if key = [] then None else version_at recs key block))
    (lookup E rr key block fetch s)"
proof (cases "key = []")
  case True
  then show ?thesis by (simp add: lookup_def)
next
  case False
  let ?p = "run_partition E key"
  from assms run_partition_less [of E key] obtain leaves where
    part: "part_rep E (holds s) ?p (rr_indexes rr ! ?p) leaves"
    and recs: "concat (concat leaves) = filter (\<lambda>r. run_partition E (rec_key r) = ?p) recs"
    and sorted: "ssorted (map rec_vkey recs)"
    by (auto simp: reader_rep_def)
  have "ssorted (map rec_vkey (concat (concat leaves)))" using sorted by (simp add: recs ssorted_filter)
  moreover from this have "hit key (last_opt (filter (\<lambda>r. rec_vkey r \<le> (key, block)) (concat (concat leaves)))) = version_at recs key block"
    using version_at_routed [of E key recs block] by (simp only: hit_version recs)
  ultimately show ?thesis
    using lookup_part_correct [OF part refl False refl, of block] False by simp
qed

lemma walk_leaves_correct:
  assumes decode: "decode_index E root bs shard INTERNAL_MAGIC = Inr ps"
    and rep: "list_all2 (parent_rep E (holds s) shard) ps leaves" and "holds t = holds s"
  shows "outcome fails (\<lambda>(refs', fs) t'. holds t' = holds s \<and> refs' = refs @ map fence_data ps \<and>
      list_all2 (page_rep E (holds s) shard) fs (concat leaves) \<and>
      list_all2 (parent_rep E (restrict_to (holds s) (set refs' \<union> fence_data ` set fs)) shard) ps leaves)
    (fold_a (walk_leaf E shard fetch) (refs, []) ps t)"
proof -
  let ?R = "\<lambda>refs' fs. restrict_to (holds s) (set refs' \<union> fence_data ` set fs)"
  define I where "I = (\<lambda>qs (refs', fs) t'. holds t' = holds s \<and> refs' = refs @ map fence_data qs \<and>
      list_all2 (page_rep E (holds s) shard) fs (concat (take (length qs) leaves)) \<and>
      list_all2 (parent_rep E (?R refs' fs) shard) qs (take (length qs) leaves))"
  have "outcome fails (I (qs @ [q])) (walk_leaf E shard fetch b q t')" if "prefix (qs @ [q]) ps" and I: "I qs b t'" for qs q b t'
  proof -
    obtain refs' fs where b: "b = (refs', fs)" by (cases b)
    let ?n = "length qs"
    have n: "?n < length ps" "ps ! ?n = q" using that(1) by (auto simp: prefix_def nth_append)
    then have len: "?n < length leaves" using list_all2_lengthD [OF rep] by simp
    have "parent_rep E (holds s) shard q (leaves ! ?n)" using list_all2_nthD [OF rep n(1)] n(2) by simp
    then obtain lbs new where leaf: "holds s (fence_data q) lbs" "decode_index E (fence_data q) lbs shard INDEX_MAGIC = Inr new"
      "list_all2 (page_rep E (holds s) shard) new (leaves ! ?n)" "fence_vkey q = rec_vkey (hd (concat (leaves ! ?n)))"
      by (auto simp: parent_rep_def leaf_rep_def)
    have valid: "validate_index_ref (fence_data q) = Inr ()"
      using decoded_fence_valid(1) [OF decode] n by auto
    let ?refs = "refs' @ [fence_data q]" and ?fs = "fs @ new"
    have "leaf_rep E (?R ?refs ?fs) shard (fence_data q) (leaves ! ?n)"
      unfolding leaf_rep_def using leaf page_rep_restrict [OF leaf(3), of "set ?refs \<union> fence_data ` set ?fs"]
      by (auto simp: restrict_to_def)
    moreover have "list_all2 (parent_rep E (?R ?refs ?fs) shard) qs (take ?n leaves)"
    proof (rule list_all2_mono)
      show "list_all2 (parent_rep E (?R refs' fs) shard) qs (take ?n leaves)" using I unfolding I_def b prod.case by blast
      show "parent_rep E (?R refs' fs) shard x y \<Longrightarrow> parent_rep E (?R ?refs ?fs) shard x y" for x y
        by (erule parent_rep_mono) (rule restrict_to_mono, auto)
    qed
    ultimately have "I (qs @ [q]) (?refs, ?fs) t''" if "holds t'' = holds s" for t''
      using I leaf that len by (auto simp: I_def b take_Suc_conv_app_nth parent_rep_def intro: list_all2_appendI)
    moreover have "holds t' = holds s" using I by (simp add: I_def b)
    ultimately show ?thesis
      by (simp add: b walk_leaf_def valid) (rule fetch_ctx [where bs = lbs], simp_all add: leaf)
  qed
  then have "outcome fails (I ps) (fold_a (walk_leaf E shard fetch) (refs, []) ps t)"
    by (intro outcome_fold) (simp_all add: I_def assms(3))
  then show ?thesis
    by (rule outcome_mono) (auto simp: I_def list_all2_lengthD [OF rep])
qed

lemma walk_shard_correct:
  assumes part: "part_rep E (holds s) p r leaves" and t: "holds t = holds s" and empty: "pages ! p = []"
  shows "outcome fails (\<lambda>(refs', pages') t'. holds t' = holds s \<and> set refs \<subseteq> set refs' \<and>
      (\<exists>new. pages' = pages[p := new] \<and> page_refs E (holds s) p new (concat leaves) \<and>
         part_rep E (restrict_to (holds s) (set refs' \<union> set new)) p r leaves))
    (walk_shard E fetch (refs, pages) (p, r) t)"
  using part
proof cases
  case absent
  then have "page_refs E (holds s) p [] (concat leaves)" "pages = pages[p := []]"
    using empty by (simp_all add: page_refs_def list_update_same_conv) (metis list_update_id)
  with absent t show ?thesis by (auto simp: walk_shard_def intro: part_rep.absent)
next
  case (single ps)
  then obtain bs fs where bs: "holds s r bs" "decode_index E r bs p INDEX_MAGIC = Inr fs"
    "list_all2 (page_rep E (holds s) p) fs ps" by (auto simp: leaf_rep_def)
  have r: "r \<noteq> default_ref" "take 4 bs \<noteq> INTERNAL_MAGIC"
    using single(2) magic_of_index [OF bs(2)] by (auto simp: validate_ref_iff default_ref_def magic_neq)
  let ?S = "set (refs @ [r]) \<union> set (map fence_data fs)"
  have "leaf_rep E (restrict_to (holds s) ?S) p r ps"
    unfolding leaf_rep_def using bs(1,2) page_rep_restrict [OF bs(3), of ?S] by (auto simp: restrict_to_def)
  then have "part_rep E (restrict_to (holds s) ?S) p r leaves"
    using single by (simp add: part_rep.single)
  moreover have "page_refs E (holds s) p (map fence_data fs) (concat leaves)"
    using page_refs_of_rep [OF bs(3)] single by simp
  ultimately show ?thesis
    using r single(2) t empty
    by (simp add: walk_shard_def) (rule fetch_ctx [where bs = bs], auto simp: bs)
next
  case (internal bs ps)
  have r: "r \<noteq> default_ref" "take 4 bs = INTERNAL_MAGIC"
    using internal(1) magic_of_index [OF internal(3)] by (auto simp: validate_ref_iff default_ref_def)
  have loop: "outcome fails (\<lambda>(refs', fs) t''. holds t'' = holds s \<and> set refs \<subseteq> set refs' \<and>
      page_refs E (holds s) p (map fence_data fs) (concat leaves) \<and>
      part_rep E (restrict_to (holds s) (set refs' \<union> set (map fence_data fs))) p r leaves)
    (fold_a (walk_leaf E p fetch) (refs @ [r], []) ps t')" if "holds t' = holds s" for t'
    using walk_leaves_correct [OF internal(3,4) that, of "refs @ [r]"]
    by (rule outcome_mono)
      (use internal in \<open>auto simp: restrict_to_def intro!: page_refs_of_rep part_rep.internal [of r _ bs]\<close>)
  show ?thesis
    using r internal(1,3) t empty
    by (simp add: walk_shard_def)
      (rule fetch_ctx [where bs = bs], simp add: internal, simp, rule outcome_mono [OF loop],
        auto intro!: exI [where x = "map fence_data fs" for fs])
qed

text \<open>
  \<^verbatim>\<open>walk\<close> names every object a run needs: restricted to the references it returns, the holding
  still represents the run. Its pages are the data pages of each partition in record order.
\<close>

theorem walk_correct:
  assumes rep: "reader_rep E (holds s) rr recs"
  shows "outcome fails (\<lambda>(refs, pages) s'. holds s' = holds s \<and>
      reader_rep E (restrict_to (holds s) (set refs \<union> set (concat pages))) rr recs \<and> length pages = PARTITIONS \<and>
      (\<forall>p<PARTITIONS. \<exists>chunks. page_refs E (holds s) p (pages ! p) chunks \<and>
         concat chunks = filter (\<lambda>r. run_partition E (rec_key r) = p) recs))
    (walk E rr fetch s)"
proof -
  let ?part = "\<lambda>p. filter (\<lambda>r. run_partition E (rec_key r) = p) recs"
  let ?R = "\<lambda>refs pages. restrict_to (holds s) (set refs \<union> set (concat pages))"
  let ?idx = "rr_indexes rr"
  have len: "length ?idx = PARTITIONS" using rep by (simp add: reader_rep_def)
  define good where "good = (\<lambda>p refs pages. \<exists>leaves. part_rep E (?R refs pages) p (?idx ! p) leaves \<and>
      concat (concat leaves) = ?part p \<and> page_refs E (holds s) p (pages ! p) (concat leaves))"
  define I where "I = (\<lambda>(ys :: (nat \<times> obj_ref) list) (refs, pages) t. holds t = holds s \<and> length pages = PARTITIONS \<and>
      (\<forall>p<length ys. good p refs pages) \<and> (\<forall>p<PARTITIONS. length ys \<le> p \<longrightarrow> pages ! p = []))"
  have "outcome fails (I (ys @ [x])) (walk_shard E fetch b x t)"
    if pre: "prefix (ys @ [x]) (enumerate 0 ?idx)" and I: "I ys b t" for ys x b t
  proof -
    obtain refs pages where b: "b = (refs, pages)" by (cases b)
    let ?n = "length ys"
    from pre obtain zs where zs: "enumerate 0 ?idx = ys @ x # zs" by (auto simp: prefix_def)
    then have n: "?n < PARTITIONS" using len by (metis add_Suc_right length_append length_enumerate less_add_Suc1 list.size(4))
    then have x: "x = (?n, ?idx ! ?n)"
      using arg_cong [OF zs, of "\<lambda>xs. xs ! ?n"] len by (simp add: nth_enumerate_eq)
    from rep n obtain leaves where leaves: "part_rep E (holds s) ?n (?idx ! ?n) leaves" "concat (concat leaves) = ?part ?n"
      by (auto simp: reader_rep_def)
    have st: "holds t = holds s" "pages ! ?n = []" "length pages = PARTITIONS"
      and old: "\<And>p. p < ?n \<Longrightarrow> good p refs pages" "\<And>p. ?n \<le> p \<Longrightarrow> p < PARTITIONS \<Longrightarrow> pages ! p = []"
      using I n by (auto simp: I_def b)
    have keep: "good p refs' (pages[?n := new])" if "p < ?n" "set refs \<subseteq> set refs'" for p refs' new
    proof -
      have "set (concat pages) \<subseteq> set (concat (pages[?n := new]))"
        using st(2,3) n by (auto simp: in_set_conv_nth) (metis length_list_update nth_list_update_neq nth_mem list.size(3) not_less_zero)
      then have "?R refs pages \<le> ?R refs' (pages[?n := new])" using that(2) by (intro restrict_to_mono) blast
      with old(1) [OF that(1)] that(1) show ?thesis unfolding good_def
        by (metis nth_list_update_neq nat_neq_iff part_rep_mono)
    qed
    have new: "good ?n refs' (pages[?n := new])"
      if "part_rep E (restrict_to (holds s) (set refs' \<union> set new)) ?n (?idx ! ?n) leaves"
        "page_refs E (holds s) ?n new (concat leaves)" for refs' new
    proof -
      have "set new \<subseteq> set (concat (pages[?n := new]))" using st(3) n set_update_memI [of ?n pages new] by auto
      then have "restrict_to (holds s) (set refs' \<union> set new) \<le> ?R refs' (pages[?n := new])" by (intro restrict_to_mono) blast
      with that leaves(2) st(3) n show ?thesis unfolding good_def by (metis part_rep_mono nth_list_update_eq)
    qed
    show ?thesis
      using walk_shard_correct [OF leaves(1) st(1,2), of refs]
      unfolding b x by (rule outcome_mono) (use keep new st old in \<open>auto simp: I_def less_Suc_eq\<close>)
  qed
  then have "outcome fails (I (enumerate 0 ?idx)) (walk E rr fetch s)"
    unfolding walk_def by (intro outcome_fold) (simp_all add: I_def)
  then show ?thesis
    by (rule outcome_mono) (use rep len in \<open>auto simp: I_def good_def reader_rep_def\<close>)
qed

end

section \<open>What reading keeps\<close>

text \<open>Reading keeps whatever each fetch keeps of the state, also when it fails.\<close>

lemma lookup_keeps:
  assumes "\<And>r. keeps (grows f) (fetch r)"
  shows "keeps (grows f) (lookup E rr key block fetch)"
  unfolding lookup_def lookup_leaf_def lookup_page_def Let_def
  by (auto intro!: keeps_rules assms split: option.splits prod.splits)

lemma walk_keeps:
  assumes "\<And>r. keeps (grows f) (fetch r)"
  shows "keeps (grows f) (walk E rr fetch)"
  unfolding walk_def walk_shard_def walk_leaf_def
  by (auto intro!: keeps_rules assms split: prod.splits)

lemma data_pages_keeps: "(\<And>r. keeps (grows f) (fetch r)) \<Longrightarrow> keeps (grows f) (data_pages E rr fetch)"
  unfolding data_pages_def by (auto intro!: keeps_rules walk_keeps split: prod.splits)

lemma object_refs_keeps: "(\<And>r. keeps (grows f) (fetch r)) \<Longrightarrow> keeps (grows f) (object_refs E rr fetch)"
  unfolding object_refs_def by (auto intro!: keeps_rules walk_keeps split: prod.splits)

section \<open>What a lookup costs\<close>

text \<open>Every run of \<open>m\<close>, failing or not, adds at most \<open>n\<close> to the quantity \<open>g\<close> of the state.\<close>

definition spends :: "('s \<Rightarrow> nat) \<Rightarrow> nat \<Rightarrow> ('s, 'a) act \<Rightarrow> bool" where
  "spends g n m \<longleftrightarrow> (\<forall>s. g (snd (m s)) \<le> g s + n)"

lemma spendsD: "spends g n m \<Longrightarrow> m s = (x, s') \<Longrightarrow> g s' \<le> g s + n"
  by (metis snd_conv spends_def)

lemma spendsI: "(\<And>s x s'. m s = (x, s') \<Longrightarrow> g s' \<le> g s + n) \<Longrightarrow> spends g n m"
  unfolding spends_def by (metis prod.collapse)

lemma spends_pure: "spends g n (ret x)" "spends g n (lift_r r)" "spends g n (bail_a msg)"
  by (simp_all add: spends_def)

lemma spends_mono: "spends g n m \<Longrightarrow> n \<le> k \<Longrightarrow> spends g k m"
  unfolding spends_def by (meson add_le_mono1 le_trans add_left_mono)

lemma spends_bind:
  assumes "spends g n m" "\<And>x. spends g k (f x)"
  shows "spends g (n + k) (bind_a m f)"
proof (rule spendsI)
  fix s y s' assume "bind_a m f s = (y, s')"
  moreover obtain r t where "m s = (r, t)" by (cases "m s")
  ultimately show "g s' \<le> g s + (n + k)"
    using spendsD [OF assms(1), of s r t] spendsD [OF assms(2)] by (cases r) (fastforce simp: bind_a_step)+
qed

lemma spends_check: "(\<And>x. r = Inr x \<Longrightarrow> spends g n (f x)) \<Longrightarrow> spends g n (bind_a (lift_r r) f)"
  by (cases r) (auto simp: spends_def)

lemma spends_ctx: "spends g n m \<Longrightarrow> spends g n (ctx_a msg m)"
  by (auto simp: spends_def ctx_a_def split: prod.splits sum.splits) (metis snd_conv)+

text \<open>A lookup fetches at most two fence objects and one data page, whatever the bytes it is given.\<close>

lemma lookup_spends:
  assumes index: "\<And>r. validate_index_ref r = Inr () \<Longrightarrow> spends g i (fetch r)"
    and data: "\<And>r. validate_data_ref r = Inr () \<Longrightarrow> spends g d (fetch r)"
  shows "spends g (2 * i + d) (lookup E rr key block fetch)"
proof -
  have page: "spends g d (lookup_page E shard target fetch f)" for shard target f
    unfolding lookup_page_def
    by (rule spends_check) (rule spends_bind [where k = 0, simplified], auto intro!: spends_ctx data spends_check spends_pure split: option.split)
  have leaf: "spends g (2 * i) (lookup_leaf E root_ref shard target fetch)" for root_ref shard target
    unfolding lookup_leaf_def
  proof (rule spends_check)
    fix u assume "validate_index_ref root_ref = Inr u"
    then have root: "spends g i (ctx_a msg (fetch root_ref))" for msg by (intro spends_ctx index) simp
    have "spends g i (bind_a (lift_r (validate_index_ref (fence_data entry))) (\<lambda>_.
        bind_a (ctx_a ''fetch run fence leaf'' (fetch (fence_data entry))) (\<lambda>bytes.
          ret (Some (fence_data entry, bytes, Some (fence_vkey entry))))))" for entry
      by (rule spends_check) (rule spends_bind [where k = 0, simplified], auto intro!: spends_ctx index spends_pure)
    then show "spends g (2 * i) (bind_a (ctx_a ''fetch run fence root'' (fetch root_ref)) (\<lambda>root_bytes.
       if take 4 root_bytes = INTERNAL_MAGIC then
         bind_a (lift_r (decode_index E root_ref root_bytes shard INTERNAL_MAGIC)) (\<lambda>parents.
           case predecessor fence_vkey target parents of
             None \<Rightarrow> ret None
           | Some entry \<Rightarrow>
               bind_a (lift_r (validate_index_ref (fence_data entry))) (\<lambda>_.
               bind_a (ctx_a ''fetch run fence leaf'' (fetch (fence_data entry))) (\<lambda>bytes.
                 ret (Some (fence_data entry, bytes, Some (fence_vkey entry))))))
       else ret (Some (root_ref, root_bytes, None))))"
      unfolding mult_2 by (intro spends_bind [OF root]) (auto intro!: spends_check spends_pure split: option.split)
  qed
  have "spends g (2 * i + d) (bind_a (lookup_leaf E root_ref shard (key, block) fetch) (\<lambda>leaf.
      case leaf of
        None \<Rightarrow> ret None
      | Some (leaf_ref, leaf_bytes, expected_start) \<Rightarrow>
          bind_a (lift_r (decode_index E leaf_ref leaf_bytes shard INDEX_MAGIC)) (\<lambda>fences.
            if (case expected_start of
                  None \<Rightarrow> False
                | Some start \<Rightarrow> (case first_opt fences of None \<Rightarrow> True | Some fence \<Rightarrow> fence_vkey fence \<noteq> start))
            then bail_a ''run fence leaf does not match its parent entry''
            else
              case predecessor fence_vkey (key, block) fences of
                None \<Rightarrow> ret None
              | Some fence \<Rightarrow> lookup_page E shard (key, block) fetch fence)))" for root_ref shard
    by (rule spends_bind [OF leaf]) (auto intro!: spends_check spends_pure page split: option.split)
  then show ?thesis by (auto simp: lookup_def Let_def intro: spends_pure)
qed

end
