(* ===== verification/Run_Scanner.thy ===== *)
theory Run_Scanner
  imports Run_Reader
begin

text \<open>
  \<^verbatim>\<open>RunScanner\<close> and \<^verbatim>\<open>PartitionCursor\<close> of \<^verbatim>\<open>codec/src/run.rs\<close>: one cursor per partition holds a
  fence leaf and a decoded page, and \<^verbatim>\<open>next\<close> returns the least record at the front of the
  cursors. A cursor is threaded through its operations; the scanner's own state (its cursors
  and its \<^verbatim>\<open>failed\<close> flag) and the caller's state form the state of \<open>scan_next\<close>. When \<^verbatim>\<open>ready\<close>
  fails the scanner only records the failure: its cursors are never read again.
\<close>

section \<open>Operations\<close>

record cursor =
  c_root :: obj_ref
  c_initialized :: bool
  c_parents :: "fence list"
  c_parent_pos :: nat
  c_leaf :: "fence list"
  c_fence_pos :: nat
  c_page :: "krecord list"
  c_previous :: "vkey option"
  c_previous_fence :: "vkey option"

definition cursor_new :: "obj_ref \<Rightarrow> cursor" where
  "cursor_new root = \<lparr>c_root = root, c_initialized = False, c_parents = [], c_parent_pos = 0, c_leaf = [],
     c_fence_pos = 0, c_page = [], c_previous = None, c_previous_fence = None\<rparr>"

text \<open>The first call of \<^verbatim>\<open>ready\<close>. The flag is \<open>False\<close> when \<^verbatim>\<open>ready\<close> returns at once.\<close>

definition cursor_init :: "'x ext_scheme \<Rightarrow> nat \<Rightarrow> (obj_ref \<Rightarrow> ('s, bytes) act) \<Rightarrow> cursor \<Rightarrow> ('s, bool \<times> cursor) act" where
  "cursor_init E shard fetch c =
     (if c_initialized c then ret (True, c)
      else
        let c = c\<lparr>c_initialized := True\<rparr>
        in if c_root c = default_ref then ret (False, c)
           else
             bind_a (lift_r (validate_index_ref (c_root c))) (\<lambda>_.
             bind_a (ctx_a ''fetch run fence root'' (fetch (c_root c))) (\<lambda>bytes.
               if take 4 bytes = INTERNAL_MAGIC then
                 bind_a (lift_r (decode_index E (c_root c) bytes shard INTERNAL_MAGIC)) (\<lambda>parents.
                   ret (True, c\<lparr>c_parents := parents\<rparr>))
               else
                 bind_a (lift_r (decode_index E (c_root c) bytes shard INDEX_MAGIC)) (\<lambda>leaf.
                   ret (True, c\<lparr>c_leaf := leaf\<rparr>)))))"

text \<open>The next leaf, when the current one is exhausted. \<open>False\<close> is the early return.\<close>

definition cursor_leaf :: "'x ext_scheme \<Rightarrow> nat \<Rightarrow> (obj_ref \<Rightarrow> ('s, bytes) act) \<Rightarrow> cursor \<Rightarrow> ('s, bool \<times> cursor) act" where
  "cursor_leaf E shard fetch c =
     (if c_fence_pos c \<noteq> length (c_leaf c) then ret (True, c)
      else
        let c = c\<lparr>c_leaf := [], c_fence_pos := 0\<rparr>
        in if c_parent_pos c \<ge> length (c_parents c) then ret (False, c)
           else
             let parent = c_parents c ! c_parent_pos c
             in bind_a (lift_r (validate_index_ref (fence_data parent))) (\<lambda>_.
                bind_a (ctx_a ''fetch run fence leaf'' (fetch (fence_data parent))) (\<lambda>bytes.
                bind_a (lift_r (decode_index E (fence_data parent) bytes shard INDEX_MAGIC)) (\<lambda>leaf.
                  if (case first_opt leaf of None \<Rightarrow> True | Some first \<Rightarrow> fence_vkey first \<noteq> fence_vkey parent)
                  then bail_a ''run fence leaf does not match its parent entry''
                  else ret (True, c\<lparr>c_leaf := leaf, c_parent_pos := c_parent_pos c + 1\<rparr>)))))"

definition precedes :: "vkey option \<Rightarrow> vkey \<Rightarrow> bool" where
  "precedes previous start = (case previous of None \<Rightarrow> True | Some v \<Rightarrow> \<not> v \<ge> start)"

definition cursor_page :: "'x ext_scheme \<Rightarrow> nat \<Rightarrow> (obj_ref \<Rightarrow> ('s, bytes) act) \<Rightarrow> cursor \<Rightarrow> ('s, cursor) act" where
  "cursor_page E shard fetch c =
     (let fence = c_leaf c ! c_fence_pos c; start = fence_vkey fence
      in if \<not> precedes (c_previous_fence c) start then bail_a ''run fence pages are not strictly ordered''
         else
           let c = c\<lparr>c_previous_fence := Some start, c_fence_pos := c_fence_pos c + 1\<rparr>
           in bind_a (lift_r (validate_data_ref (fence_data fence))) (\<lambda>_.
              bind_a (ctx_a ''fetch run data page'' (fetch (fence_data fence))) (\<lambda>bytes.
              bind_a (lift_r (decode_data_page E (fence_data fence) bytes shard)) (\<lambda>records.
                if rec_vkey (records ! 0) \<noteq> start then bail_a ''run data page does not match its exact fence''
                else if \<not> precedes (c_previous c) start then bail_a ''run data pages are not strictly ordered''
                else ret (c\<lparr>c_page := records\<rparr>)))))"

text \<open>One iteration of the loop of \<^verbatim>\<open>ready\<close>, the loop, and \<^verbatim>\<open>ready\<close>.\<close>

definition ready_body :: "'x ext_scheme \<Rightarrow> nat \<Rightarrow> (obj_ref \<Rightarrow> ('s, bytes) act) \<Rightarrow> cursor \<Rightarrow> ('s, bool \<times> cursor) act" where
  "ready_body E shard fetch c =
     bind_a (cursor_leaf E shard fetch c) (\<lambda>(more, c).
       if more then bind_a (cursor_page E shard fetch c) (\<lambda>c. ret (True, c)) else ret (False, c))"

lemma ready_body_page:
  assumes "ready_body E shard fetch c s = (Inr (True, c'), t)"
  shows "c_page c' \<noteq> []"
proof -
  from assms obtain c1 s1 where "cursor_page E shard fetch c1 s1 = (Inr c', t)"
    by (auto simp: ready_body_def split: if_splits prod.splits)
  then obtain r bs rs where "decode_data_page E r bs shard = Inr rs" "c_page c' = rs"
    by (auto simp: cursor_page_def Let_def bail_a_def split: if_splits)
  then show ?thesis using decode_data_page_sound(3) by blast
qed

function ready_loop :: "'x ext_scheme \<Rightarrow> nat \<Rightarrow> (obj_ref \<Rightarrow> ('s, bytes) act) \<Rightarrow> cursor \<Rightarrow> ('s, cursor) act" where
  "ready_loop E shard fetch c s =
     (if c_page c \<noteq> [] then (Inr c, s)
      else
        bind_a (ready_body E shard fetch c) (\<lambda>r s.
          if fst r then ready_loop E shard fetch (snd r) s else (Inr (snd r), s)) s)"
  by pat_completeness auto

termination
proof (relation "measure (\<lambda>(E, shard, fetch, c, s). if c_page c = [] then 1 else 0)")
  show "wf (measure (\<lambda>(E, shard, fetch, c, s). if c_page c = [] then 1 else (0 :: nat)))" by simp
next
  fix E :: "'x ext_scheme" and shard and fetch :: "obj_ref \<Rightarrow> ('s, bytes) act" and c s r t
  assume "\<not> c_page c \<noteq> []" "ready_body E shard fetch c s = (Inr r, t)" "fst r"
  then show "((E, shard, fetch, snd r, t), E, shard, fetch, c, s)
      \<in> measure (\<lambda>(E, shard, fetch, c, s). if c_page c = [] then 1 else (0 :: nat))"
    using ready_body_page [of E shard fetch c s "snd r" t] by (cases r) simp
qed

declare ready_loop.simps [simp del]

definition ready :: "'x ext_scheme \<Rightarrow> nat \<Rightarrow> (obj_ref \<Rightarrow> ('s, bytes) act) \<Rightarrow> cursor \<Rightarrow> ('s, cursor) act" where
  "ready E shard fetch c =
     bind_a (cursor_init E shard fetch c) (\<lambda>(more, c).
       if more then ready_loop E shard fetch c else ret c)"

record run_scanner =
  sc_cursors :: "cursor list"
  sc_failed :: bool

definition scanner :: "run_reader \<Rightarrow> run_scanner" where
  "scanner rr = \<lparr>sc_cursors = map cursor_new (rr_indexes rr), sc_failed = False\<rparr>"

text \<open>\<^verbatim>\<open>Iterator::min_by\<close>: the first of the least elements.\<close>

fun min_front :: "(nat \<times> krecord) list \<Rightarrow> (nat \<times> krecord) option" where
  "min_front [] = None"
| "min_front (x # xs) =
     (case min_front xs of
        None \<Rightarrow> Some x
      | Some y \<Rightarrow> if rec_vkey (snd y) < rec_vkey (snd x) then Some y else Some x)"

definition fronts :: "cursor list \<Rightarrow> (nat \<times> krecord) list" where
  "fronts cs = List.map_filter (\<lambda>(shard, c). map_option (Pair shard) (first_opt (c_page c))) (enumerate 0 cs)"

definition scan_next :: "'x ext_scheme \<Rightarrow> (obj_ref \<Rightarrow> ('s, bytes) act) \<Rightarrow> (run_scanner \<times> 's, krecord option) act" where
  "scan_next E fetch = (\<lambda>(sc, s).
     if sc_failed sc then (bail ''run scanner is invalid after a failed read'', (sc, s))
     else
       case map_a (\<lambda>(shard, c). ready E shard fetch c) (enumerate 0 (sc_cursors sc)) s of
         (Inl e, s) \<Rightarrow> (Inl e, (sc\<lparr>sc_failed := True\<rparr>, s))
       | (Inr cs, s) \<Rightarrow>
           (case min_front (fronts cs) of
              None \<Rightarrow> (Inr None, (sc\<lparr>sc_cursors := cs\<rparr>, s))
            | Some (shard, record) \<Rightarrow>
                (Inr (Some record),
                 (sc\<lparr>sc_cursors := cs[shard := (cs ! shard)\<lparr>c_page := tl (c_page (cs ! shard)), c_previous := Some (rec_vkey record)\<rparr>]\<rparr>, s))))"

section \<open>What a cursor has left\<close>

text \<open>
  \<open>L\<close> are the unread pages of the cursor's leaf and \<open>T\<close> the unread leaves of its partition;
  neither marker is past anything still to be read.
\<close>

definition open_rep :: "'x ext_scheme \<Rightarrow> holding \<Rightarrow> nat \<Rightarrow> cursor \<Rightarrow> krecord list list \<Rightarrow> krecord list list list \<Rightarrow> bool" where
  "open_rep E H p c L T \<longleftrightarrow>
     c_initialized c \<and> c_fence_pos c \<le> length (c_leaf c) \<and> c_parent_pos c \<le> length (c_parents c) \<and>
     list_all2 (\<lambda>f rs. page_rep E H p f rs \<and> validate_data_ref (fence_data f) = Inr ()) (drop (c_fence_pos c) (c_leaf c)) L \<and>
     list_all2 (\<lambda>f ps. parent_rep E H p f ps \<and> validate_index_ref (fence_data f) = Inr ()) (drop (c_parent_pos c) (c_parents c)) T \<and>
     (\<forall>r\<in>set (concat L @ concat (concat T)). precedes (c_previous_fence c) (rec_vkey r)) \<and>
     (\<forall>r\<in>set (c_page c @ concat L @ concat (concat T)). precedes (c_previous c) (rec_vkey r))"

definition cursor_rep :: "'x ext_scheme \<Rightarrow> holding \<Rightarrow> nat \<Rightarrow> cursor \<Rightarrow> krecord list \<Rightarrow> bool" where
  "cursor_rep E H p c rs \<longleftrightarrow>
     (if c_initialized c then \<exists>L T. open_rep E H p c L T \<and> rs = c_page c @ concat L @ concat (concat T)
      else c = cursor_new (c_root c) \<and> (\<exists>T. part_rep E H p (c_root c) T \<and> rs = concat (concat T)))"

lemma list_all2_conj_left:
  "list_all2 P xs ys \<Longrightarrow> (\<And>x. x \<in> set xs \<Longrightarrow> Q x) \<Longrightarrow> list_all2 (\<lambda>x y. P x y \<and> Q x) xs ys"
  by (auto simp: list_all2_conv_all_nth)

lemma cursor_rep_open:
  assumes "open_rep E H p c L T" "c_page c @ concat L @ concat (concat T) = rs"
  shows "cursor_rep E H p c rs"
proof -
  have "c_initialized c" using assms(1) by (simp add: open_rep_def)
  with assms show ?thesis unfolding cursor_rep_def by auto
qed

context object_source begin

lemma cursor_init_correct:
  assumes "cursor_rep E (holds s) p c rs"
  shows "outcome fails (\<lambda>(more, c') s'. holds s' = holds s \<and> c_initialized c' \<and> cursor_rep E (holds s) p c' rs \<and> (more \<or> rs = []))
    (cursor_init E p fetch c s)"
proof (cases "c_initialized c")
  case True
  with assms show ?thesis by (simp add: cursor_init_def)
next
  case False
  with assms obtain T where c: "c = cursor_new (c_root c)" and part: "part_rep E (holds s) p (c_root c) T" and rs: "rs = concat (concat T)"
    by (auto simp: cursor_rep_def)
  have fields: "c_parents c = []" "c_parent_pos c = 0" "c_leaf c = []" "c_fence_pos c = 0" "c_page c = []"
    "c_previous c = None" "c_previous_fence c = None"
    by (subst c, simp add: cursor_new_def)+
  note rep = cursor_rep_def open_rep_def precedes_def fields
  from part show ?thesis
  proof cases
    case absent
    with False rs show ?thesis by (simp add: cursor_init_def rep)
  next
    case (single pages)
    then obtain bs fs where bs: "holds s (c_root c) bs" "decode_index E (c_root c) bs p INDEX_MAGIC = Inr fs"
      "list_all2 (page_rep E (holds s) p) fs pages" by (auto simp: leaf_rep_def)
    have r: "c_root c \<noteq> default_ref" "take 4 bs \<noteq> INTERNAL_MAGIC"
      using single(2) magic_of_index [OF bs(2)] by (auto simp: validate_ref_iff default_ref_def magic_neq)
    have "list_all2 (\<lambda>f rs. page_rep E (holds s) p f rs \<and> validate_data_ref (fence_data f) = Inr ()) fs pages"
      using bs(3) decoded_fence_valid(2) [OF bs(2)] by (rule list_all2_conj_left)
    then have "open_rep E (holds s) p (c\<lparr>c_initialized := True, c_leaf := fs\<rparr>) pages []" by (simp add: rep)
    then have "cursor_rep E (holds s) p (c\<lparr>c_initialized := True, c_leaf := fs\<rparr>) rs"
      by (rule cursor_rep_open) (simp add: rs single(1) fields)
    with False r single(2) show ?thesis
      by (simp add: cursor_init_def Let_def) (rule fetch_ctx [OF bs(1)], simp add: bs(2))
  next
    case (internal bs ps)
    have r: "c_root c \<noteq> default_ref" "take 4 bs = INTERNAL_MAGIC"
      using internal(1) magic_of_index [OF internal(3)] by (auto simp: validate_ref_iff default_ref_def)
    have "list_all2 (\<lambda>f l. parent_rep E (holds s) p f l \<and> validate_index_ref (fence_data f) = Inr ()) ps T"
      using internal(4) decoded_fence_valid(1) [OF internal(3)] by (rule list_all2_conj_left)
    then have "open_rep E (holds s) p (c\<lparr>c_initialized := True, c_parents := ps\<rparr>) [] T" by (simp add: rep)
    then have "cursor_rep E (holds s) p (c\<lparr>c_initialized := True, c_parents := ps\<rparr>) rs"
      by (rule cursor_rep_open) (simp add: rs fields)
    with False r internal(1,3) show ?thesis
      by (simp add: cursor_init_def Let_def) (rule fetch_ctx [OF internal(2)], simp add: internal(3))
  qed
qed

lemma cursor_leaf_correct:
  assumes rep: "open_rep E (holds s) p c L T" and page: "c_page c = []"
  shows "outcome fails (\<lambda>(more, c') s'. holds s' = holds s \<and> c_page c' = [] \<and>
      (\<exists>L' T'. open_rep E (holds s) p c' L' T' \<and> concat L' @ concat (concat T') = concat L @ concat (concat T) \<and>
         (if more then L' \<noteq> [] else L' = [] \<and> T' = [])))
    (cursor_leaf E p fetch c s)"
proof (cases "c_fence_pos c = length (c_leaf c)")
  case False
  with rep have "L \<noteq> []" by (auto simp: open_rep_def)
  with False rep page show ?thesis by (auto simp: cursor_leaf_def)
next
  case True
  with rep have L: "L = []" by (auto simp: open_rep_def)
  let ?c = "c\<lparr>c_leaf := [], c_fence_pos := 0\<rparr>"
  have rep': "open_rep E (holds s) p ?c [] T" using rep L by (simp add: open_rep_def)
  show ?thesis
  proof (cases "c_parent_pos c \<ge> length (c_parents c)")
    case end_of_parents: True
    then have "T = []" using rep by (simp add: open_rep_def)
    with True end_of_parents rep' L page show ?thesis by (auto simp: cursor_leaf_def)
  next
    case more: False
    let ?f = "c_parents c ! c_parent_pos c"
    have "drop (c_parent_pos c) (c_parents c) = ?f # drop (Suc (c_parent_pos c)) (c_parents c)"
      using more by (simp add: Cons_nth_drop_Suc)
    with rep obtain ps T' where T: "T = ps # T'" and f: "parent_rep E (holds s) p ?f ps" "validate_index_ref (fence_data ?f) = Inr ()"
      and T': "list_all2 (\<lambda>f ps. parent_rep E (holds s) p f ps \<and> validate_index_ref (fence_data f) = Inr ())
        (drop (Suc (c_parent_pos c)) (c_parents c)) T'"
      by (auto simp: open_rep_def list_all2_Cons1)
    from f(1) obtain bs fs where bs: "holds s (fence_data ?f) bs" "decode_index E (fence_data ?f) bs p INDEX_MAGIC = Inr fs"
      "list_all2 (page_rep E (holds s) p) fs ps" and start: "fence_vkey ?f = rec_vkey (hd (concat ps))"
      by (auto simp: parent_rep_def leaf_rep_def)
    have ne: "fs \<noteq> []" using bs(2) by (simp add: decode_index_iff)
    then have first: "first_opt fs = Some (hd fs)" "fence_vkey (hd fs) = fence_vkey ?f" "ps \<noteq> []"
      using pages_rep_facts(4) [OF bs(3)] start by (cases fs; auto)+
    have "list_all2 (\<lambda>f rs. page_rep E (holds s) p f rs \<and> validate_data_ref (fence_data f) = Inr ()) fs ps"
      using bs(3) decoded_fence_valid(2) [OF bs(2)] by (rule list_all2_conj_left)
    then have "open_rep E (holds s) p (?c\<lparr>c_leaf := fs, c_parent_pos := c_parent_pos c + 1\<rparr>) ps T'"
      using rep' T' more by (auto simp: open_rep_def T)
    with first(3) have "\<exists>L' T'. open_rep E (holds s) p (?c\<lparr>c_leaf := fs, c_parent_pos := c_parent_pos c + 1\<rparr>) L' T' \<and>
        concat L' @ concat (concat T') = concat L @ concat (concat T) \<and> L' \<noteq> []"
      unfolding T L by (intro exI [of _ ps] exI [of _ T']) simp
    then show ?thesis
      using True more f(2) page
      by (simp add: cursor_leaf_def Let_def) (rule fetch_ctx [OF bs(1)], simp add: bs(2) first(1,2))
  qed
qed

lemma cursor_page_correct:
  assumes rep: "open_rep E (holds s) p c (rs # L) T" and "c_page c = []"
    and sorted: "ssorted (map rec_vkey (rs @ concat L @ concat (concat T)))"
  shows "outcome fails (\<lambda>c' s'. holds s' = holds s \<and> open_rep E (holds s) p c' L T \<and> c_page c' = rs \<and> rs \<noteq> [])
    (cursor_page E p fetch c s)"
proof -
  let ?n = "c_fence_pos c" and ?f = "c_leaf c ! c_fence_pos c"
  have n: "?n < length (c_leaf c)" using rep by (auto simp: open_rep_def list_all2_Cons2 dest: arg_cong [of "drop _ _" _ length])
  then have "drop ?n (c_leaf c) = ?f # drop (Suc ?n) (c_leaf c)" by (simp add: Cons_nth_drop_Suc)
  with rep have f: "page_rep E (holds s) p ?f rs" "validate_data_ref (fence_data ?f) = Inr ()"
    and L: "list_all2 (\<lambda>f rs. page_rep E (holds s) p f rs \<and> validate_data_ref (fence_data f) = Inr ()) (drop (Suc ?n) (c_leaf c)) L"
    by (auto simp: open_rep_def)
  from f(1) obtain bs where bs: "holds s (fence_data ?f) bs" "decode_data_page E (fence_data ?f) bs p = Inr rs"
    and start: "fence_vkey ?f = rec_vkey (hd rs)" and ne: "rs \<noteq> []"
    using page_rep_facts(1) [OF f(1)] by (auto simp: page_rep_def)
  then have hd: "rs ! 0 = hd rs" "hd rs \<in> set rs" by (simp_all add: hd_conv_nth)
  have prec: "precedes (c_previous_fence c) (fence_vkey ?f)" "precedes (c_previous c) (fence_vkey ?f)"
    using rep hd(2) start by (auto simp: open_rep_def)
  have "\<forall>r\<in>set (concat L @ concat (concat T)). precedes (Some (fence_vkey ?f)) (rec_vkey r)"
    using sorted hd(2) start by (simp add: ssorted_append precedes_def not_le del: set_concat) blast
  then have "open_rep E (holds s) p (c\<lparr>c_previous_fence := Some (fence_vkey ?f), c_fence_pos := ?n + 1, c_page := rs\<rparr>) L T"
    using rep L n by (auto simp: open_rep_def)
  then show ?thesis
    using prec f(2) ne start hd by (simp add: cursor_page_def Let_def) (rule fetch_ctx [OF bs(1)], simp add: bs(2))
qed

lemma ready_loop_page: "c_page c \<noteq> [] \<Longrightarrow> ready_loop E p fetch c t = (Inr c, t)"
  by (subst ready_loop.simps) simp

lemma ready_body_correct:
  assumes rep: "open_rep E (holds s) p c L T" and page: "c_page c = []"
    and rs: "concat L @ concat (concat T) = rs" and sorted: "ssorted (map rec_vkey rs)"
  shows "outcome fails (\<lambda>r s'. holds s' = holds s \<and> c_initialized (snd r) \<and> cursor_rep E (holds s) p (snd r) rs \<and>
      (if fst r then c_page (snd r) \<noteq> [] else rs = []))
    (ready_body E p fetch c s)"
proof -
  let ?post = "\<lambda>r s'. holds s' = holds s \<and> c_initialized (snd r) \<and> cursor_rep E (holds s) p (snd r) rs \<and>
      (if fst r then c_page (snd r) \<noteq> [] else rs = [])"
  have load: "outcome fails (\<lambda>c' t'. ?post (True, c') t') (cursor_page E p fetch c1 s1)"
    if "holds s1 = holds s" "open_rep E (holds s) p c1 (q # L1) T1" "q @ concat L1 @ concat (concat T1) = rs" "c_page c1 = []" for c1 s1 q L1 T1
  proof -
    have "outcome fails (\<lambda>c' s'. holds s' = holds s1 \<and> open_rep E (holds s1) p c' L1 T1 \<and> c_page c' = q \<and> q \<noteq> []) (cursor_page E p fetch c1 s1)"
      using that sorted by (intro cursor_page_correct) simp_all
    then show ?thesis
      by (rule outcome_mono) (use that in \<open>auto simp: open_rep_def intro!: cursor_rep_open\<close>)
  qed
  have "outcome fails ?post ((if go then bind_a (cursor_page E p fetch c1) (\<lambda>c. ret (True, c)) else ret (False, c1)) s1)"
    if "holds s1 = holds s" "c_page c1 = []" "open_rep E (holds s) p c1 L1 T1" "concat L1 @ concat (concat T1) = rs"
      "if go then L1 \<noteq> [] else L1 = [] \<and> T1 = []" for go c1 s1 L1 T1
  proof (cases go)
    case True
    with that(5) obtain q L2 where "L1 = q # L2" by (cases L1) auto
    with True load [of s1 c1 q L2 T1] that show ?thesis by simp
  next
    case False
    then have "rs = []" "cursor_rep E (holds s) p c1 rs" "c_initialized c1"
      using that cursor_rep_open [OF that(3), of rs] by (auto simp: open_rep_def)
    with False that(1) show ?thesis by simp
  qed
  note after = this
  show ?thesis
    unfolding ready_body_def outcome_bind
    apply (rule outcome_mono [OF cursor_leaf_correct [OF rep page]], assumption)
    subgoal for r t using after [of t "snd r" _ _ "fst r"] by (cases r) (simp only: prod.case fst_conv snd_conv rs, blast)
    done
qed

lemma ready_loop_correct:
  assumes rep: "open_rep E (holds s) p c L T" and t: "holds t = holds s"
    and rs: "c_page c @ concat L @ concat (concat T) = rs" and sorted: "ssorted (map rec_vkey rs)"
  shows "outcome fails (\<lambda>c' s'. holds s' = holds s \<and> c_initialized c' \<and> cursor_rep E (holds s) p c' rs \<and> (c_page c' = [] \<longrightarrow> rs = []))
    (ready_loop E p fetch c t)"
proof (cases "c_page c = []")
  case False
  have "c_initialized c" using rep by (simp add: open_rep_def)
  with False show ?thesis using cursor_rep_open [OF rep rs] t by (simp add: ready_loop_page)
next
  case True
  have "outcome fails (\<lambda>r s'. holds s' = holds t \<and> c_initialized (snd r) \<and> cursor_rep E (holds t) p (snd r) rs \<and>
      (if fst r then c_page (snd r) \<noteq> [] else rs = []))
    (ready_body E p fetch c t)"
    using rep t True rs sorted by (intro ready_body_correct) simp_all
  moreover have "ready_loop E p fetch c t =
      bind_a (ready_body E p fetch c) (\<lambda>r s. if fst r then ready_loop E p fetch (snd r) s else (Inr (snd r), s)) t"
    using True by (subst ready_loop.simps) simp
  ultimately show ?thesis
    by simp (erule outcome_mono, assumption, auto simp: t ready_loop_page)
qed

lemma ready_correct:
  assumes "cursor_rep E (holds s) p c rs" and sorted: "ssorted (map rec_vkey rs)"
  shows "outcome fails (\<lambda>c' s'. holds s' = holds s \<and> c_initialized c' \<and> cursor_rep E (holds s) p c' rs \<and> (c_page c' = [] \<longrightarrow> rs = []))
    (ready E p fetch c s)"
proof -
  let ?post = "\<lambda>c' s'. holds s' = holds s \<and> c_initialized c' \<and> cursor_rep E (holds s) p c' rs \<and> (c_page c' = [] \<longrightarrow> rs = [])"
  have "outcome fails ?post ((if go then ready_loop E p fetch c1 else ret c1) s1)"
    if "holds s1 = holds s" "c_initialized c1" "cursor_rep E (holds s) p c1 rs" "go \<or> rs = []" for go c1 s1
  proof (cases go)
    case True
    from that(2,3) obtain L T where "open_rep E (holds s) p c1 L T" "c_page c1 @ concat L @ concat (concat T) = rs"
      by (auto simp: cursor_rep_def)
    from ready_loop_correct [OF this(1) that(1) this(2) sorted] True show ?thesis by simp
  next
    case False
    with that show ?thesis by simp
  qed
  note after = this
  show ?thesis
    unfolding ready_def outcome_bind
    apply (rule outcome_mono [OF cursor_init_correct [OF assms(1)]], assumption)
    subgoal for r t using after [of t "snd r" "fst r"] by (cases r) (simp only: prod.case fst_conv snd_conv)
    done
qed

end

section \<open>The front of the cursors\<close>

lemma min_front_None: "min_front xs = None \<longleftrightarrow> xs = []"
  by (cases xs) (auto split: option.splits)

lemma min_front_Some:
  "min_front xs = Some x \<Longrightarrow> x \<in> set xs \<and> (\<forall>y\<in>set xs. rec_vkey (snd x) \<le> rec_vkey (snd y))"
proof (induction xs arbitrary: x)
  case Nil
  then show ?case by simp
next
  case (Cons z xs)
  show ?case
  proof (cases "min_front xs")
    case None
    with Cons.prems show ?thesis by (simp add: min_front_None)
  next
    case (Some y)
    from Cons.IH [OF this] Cons.prems Some show ?thesis by (auto split: if_splits intro: order_trans less_imp_le)
  qed
qed

lemma fronts_mem: "(i, r) \<in> set (fronts cs) \<longleftrightarrow> i < length cs \<and> (\<exists>rest. c_page (cs ! i) = r # rest)"
proof -
  have "(i, r) \<in> set (fronts cs) \<longleftrightarrow> (\<exists>(j, c)\<in>set (enumerate 0 cs). map_option (Pair j) (first_opt (c_page c)) = Some (i, r))"
    by (force simp: fronts_def map_filter_def)
  also have "\<dots> \<longleftrightarrow> (\<exists>c. (i, c) \<in> set (enumerate 0 cs) \<and> (\<exists>rest. c_page c = r # rest))" by auto
  also have "\<dots> \<longleftrightarrow> i < length cs \<and> (\<exists>rest. c_page (cs ! i) = r # rest)" by (auto simp: in_set_enumerate_eq)
  finally show ?thesis .
qed

text \<open>Among cursors that are ready for the sorted records \<open>rest\<close>, the least front is the first of them.\<close>

definition all_ready :: "'x ext_scheme \<Rightarrow> holding \<Rightarrow> cursor list \<Rightarrow> krecord list \<Rightarrow> bool" where
  "all_ready E H cs rest \<longleftrightarrow> length cs = PARTITIONS \<and>
     (\<forall>p<PARTITIONS. c_initialized (cs ! p) \<and> cursor_rep E H p (cs ! p) (routes E p rest) \<and>
        (c_page (cs ! p) = [] \<longrightarrow> routes E p rest = []))"

lemma all_ready_front:
  assumes "all_ready E H cs rest" "p < PARTITIONS"
  shows "c_page (cs ! p) = r # pg \<Longrightarrow> \<exists>later. routes E p rest = r # later"
    and "routes E p rest = r # later \<Longrightarrow> \<exists>pg. c_page (cs ! p) = r # pg"
proof -
  have "c_initialized (cs ! p)" "cursor_rep E H p (cs ! p) (routes E p rest)" using assms by (auto simp: all_ready_def)
  then obtain L T where "routes E p rest = c_page (cs ! p) @ concat L @ concat (concat T)"
    by (auto simp: cursor_rep_def)
  moreover have "c_page (cs ! p) = [] \<longrightarrow> routes E p rest = []" using assms by (simp add: all_ready_def)
  ultimately show "c_page (cs ! p) = r # pg \<Longrightarrow> \<exists>later. routes E p rest = r # later"
    and "routes E p rest = r # later \<Longrightarrow> \<exists>pg. c_page (cs ! p) = r # pg"
    by (cases "c_page (cs ! p)"; auto)+
qed

lemma min_front_all_ready:
  assumes ready: "all_ready E H cs rest" and sorted: "ssorted (map rec_vkey rest)"
  shows "min_front (fronts cs) = (case rest of [] \<Rightarrow> None | r # _ \<Rightarrow> Some (run_partition E (rec_key r), r))"
proof (cases rest)
  case Nil
  have "c_page (cs ! p) = []" if "p < PARTITIONS" for p
    using all_ready_front(1) [OF ready that] by (cases "c_page (cs ! p)") (auto simp: routes_def Nil)
  then have "(i, r) \<notin> set (fronts cs)" for i r using ready by (auto simp: fronts_mem all_ready_def)
  then have "fronts cs = []" by (cases "fronts cs") auto
  with Nil show ?thesis by simp
next
  case (Cons r0 rest')
  let ?p = "run_partition E (rec_key r0)"
  have "routes E ?p rest = r0 # routes E ?p rest'" by (simp add: routes_def Cons)
  with all_ready_front(2) [OF ready run_partition_less [of E "rec_key r0"]] obtain pg where pg: "c_page (cs ! ?p) = r0 # pg" by auto
  then have mem: "(?p, r0) \<in> set (fronts cs)"
    using ready run_partition_less [of E "rec_key r0"] by (simp add: fronts_mem all_ready_def)
  then obtain i r where min: "min_front (fronts cs) = Some (i, r)"
    by (cases "min_front (fronts cs)") (auto simp: min_front_None)
  from min_front_Some [OF this] have ir: "(i, r) \<in> set (fronts cs)" and le: "rec_vkey r \<le> rec_vkey r0" using mem by auto
  then obtain pg' where i: "i < PARTITIONS" "c_page (cs ! i) = r # pg'" using ready by (auto simp: fronts_mem all_ready_def)
  obtain later where "routes E i rest = r # later" using all_ready_front(1) [OF ready i] by blast
  then have "r \<in> set (routes E i rest)" by simp
  then have r: "r \<in> set rest" "run_partition E (rec_key r) = i" by (simp_all add: routes_def)
  have "r = r0"
  proof (rule ccontr)
    assume "r \<noteq> r0"
    with r(1) have "r \<in> set rest'" by (simp add: Cons)
    with sorted have "rec_vkey r0 < rec_vkey r" by (simp add: Cons)
    with le show False by simp
  qed
  with min r(2) show ?thesis by (simp add: Cons)
qed

section \<open>Scanning\<close>

definition scan_rep :: "'x ext_scheme \<Rightarrow> holding \<Rightarrow> run_scanner \<Rightarrow> krecord list \<Rightarrow> bool" where
  "scan_rep E H sc rest \<longleftrightarrow> \<not> sc_failed sc \<and> length (sc_cursors sc) = PARTITIONS \<and> ssorted (map rec_vkey rest) \<and>
     (\<forall>p<PARTITIONS. cursor_rep E H p (sc_cursors sc ! p) (routes E p rest))"

lemma scanner_rep:
  assumes "reader_rep E H rr recs"
  shows "scan_rep E H (scanner rr) recs"
  using assms unfolding reader_rep_def scan_rep_def scanner_def routes_def
  by (auto simp: cursor_rep_def cursor_new_def) metis

text \<open>Taking the front record of its cursor.\<close>

lemma cursor_pop:
  assumes "cursor_rep E H p c (r # rest)" "c_initialized c" "c_page c = r # pg" "ssorted (map rec_vkey (r # rest))"
  shows "cursor_rep E H p (c\<lparr>c_page := tl (c_page c), c_previous := Some (rec_vkey r)\<rparr>) rest"
proof -
  from assms obtain L T where rep: "open_rep E H p c L T" and rest: "rest = pg @ concat L @ concat (concat T)"
    by (auto simp: cursor_rep_def)
  have "\<forall>r'\<in>set rest. precedes (Some (rec_vkey r)) (rec_vkey r')" using assms(4) by (auto simp: precedes_def)
  with rep assms(3) rest have "open_rep E H p (c\<lparr>c_page := tl (c_page c), c_previous := Some (rec_vkey r)\<rparr>) L T"
    by (simp add: open_rep_def)
  then show ?thesis by (rule cursor_rep_open) (simp add: assms(3) rest)
qed

lemma scan_rep_pop:
  assumes ready: "all_ready E H cs (r # rest)" and sorted: "ssorted (map rec_vkey (r # rest))"
    and p: "p = run_partition E (rec_key r)"
  shows "scan_rep E H \<lparr>sc_cursors = cs[p := (cs ! p)\<lparr>c_page := tl (c_page (cs ! p)), c_previous := Some (rec_vkey r)\<rparr>], sc_failed = False\<rparr> rest"
proof -
  have pl: "p < PARTITIONS" using p run_partition_less by simp
  have routes: "routes E p (r # rest) = r # routes E p rest" using p by (simp add: routes_def)
  obtain pg where pg: "c_page (cs ! p) = r # pg" using all_ready_front(2) [OF ready pl routes] by blast
  have "ssorted (map rec_vkey (r # routes E p rest))" using routes_sorted [OF sorted, of E p] routes by simp
  then have pop: "cursor_rep E H p ((cs ! p)\<lparr>c_page := tl (c_page (cs ! p)), c_previous := Some (rec_vkey r)\<rparr>) (routes E p rest)"
    using ready pl routes pg by (intro cursor_pop) (auto simp: all_ready_def)
  have "cursor_rep E H q (cs[p := (cs ! p)\<lparr>c_page := tl (c_page (cs ! p)), c_previous := Some (rec_vkey r)\<rparr>] ! q) (routes E q rest)"
    if "q < PARTITIONS" for q
  proof (cases "q = p")
    case True
    with pop ready pl show ?thesis by (simp add: all_ready_def)
  next
    case False
    then have "routes E q (r # rest) = routes E q rest" using p by (simp add: routes_def)
    with False ready that show ?thesis by (auto simp: all_ready_def)
  qed
  with ready sorted show ?thesis by (simp add: scan_rep_def all_ready_def)
qed

context object_source begin

lemma ready_all_correct:
  assumes "scan_rep E (holds s) sc rest"
  shows "outcome fails (\<lambda>cs s'. holds s' = holds s \<and> all_ready E (holds s) cs rest)
    (map_a (\<lambda>(shard, c). ready E shard fetch c) (enumerate 0 (sc_cursors sc)) s)"
proof -
  let ?P = "\<lambda>p c. c_initialized c \<and> cursor_rep E (holds s) p c (routes E p rest) \<and> (c_page c = [] \<longrightarrow> routes E p rest = [])"
  have len: "length (sc_cursors sc) = PARTITIONS" using assms by (simp add: scan_rep_def)
  have sorted: "ssorted (map rec_vkey (routes E p rest))" for p using assms by (simp add: scan_rep_def routes_sorted)
  have "outcome fails (\<lambda>cs s'. holds s' = holds s \<and> length cs = length (enumerate 0 (sc_cursors sc)) \<and>
      (\<forall>p<length (enumerate 0 (sc_cursors sc)). ?P p (cs ! p)))
    (map_a (\<lambda>(shard, c). ready E shard fetch c) (enumerate 0 (sc_cursors sc)) s)"
  proof (rule outcome_map)
    show "holds s = holds s" ..
  next
    fix p t assume "p < length (enumerate 0 (sc_cursors sc))" and t: "holds t = holds s"
    then have p: "p < PARTITIONS" "enumerate 0 (sc_cursors sc) ! p = (p, sc_cursors sc ! p)"
      using len by (simp_all add: nth_enumerate_eq)
    have "cursor_rep E (holds t) p (sc_cursors sc ! p) (routes E p rest)" using assms p(1) t by (simp add: scan_rep_def)
    from ready_correct [OF this sorted] show "outcome fails (\<lambda>c s'. holds s' = holds s \<and> ?P p c)
      ((case enumerate 0 (sc_cursors sc) ! p of (shard, c) \<Rightarrow> ready E shard fetch c) t)"
      by (simp add: p(2) t)
  qed
  then show ?thesis by (rule outcome_mono) (auto simp: all_ready_def len)
qed

theorem scan_next_correct:
  assumes rep: "scan_rep E (holds s) sc rest"
  shows "outcome fails (\<lambda>v (sc', s'). holds s' = holds s \<and> v = first_opt rest \<and> scan_rep E (holds s) sc' (tl rest))
    (scan_next E fetch (sc, s))"
proof -
  have f: "\<not> sc_failed sc" and sorted: "ssorted (map rec_vkey rest)" using rep by (simp_all add: scan_rep_def)
  note all = ready_all_correct [OF rep]
  show ?thesis
  proof (cases "map_a (\<lambda>(shard, c). ready E shard fetch c) (enumerate 0 (sc_cursors sc)) s")
    case (Pair res s')
    show ?thesis
    proof (cases res)
      case (Inl e)
      with Pair all f show ?thesis by (simp add: scan_next_def)
    next
      case (Inr cs)
      with Pair all have s': "holds s' = holds s" and ready: "all_ready E (holds s) cs rest" by simp_all
      note front = min_front_all_ready [OF ready sorted]
      show ?thesis
      proof (cases rest)
        case Nil
        with front have "min_front (fronts cs) = None" by simp
        moreover have "scan_rep E (holds s) (sc\<lparr>sc_cursors := cs\<rparr>) []"
          using ready f by (simp add: scan_rep_def all_ready_def Nil)
        ultimately show ?thesis using Inr Pair f s' Nil by (simp add: scan_next_def)
      next
        case (Cons r rest')
        let ?p = "run_partition E (rec_key r)"
        let ?cs = "cs[?p := (cs ! ?p)\<lparr>c_page := tl (c_page (cs ! ?p)), c_previous := Some (rec_vkey r)\<rparr>]"
        have "scan_rep E (holds s) \<lparr>sc_cursors = ?cs, sc_failed = False\<rparr> rest'"
          using ready sorted unfolding Cons by (rule scan_rep_pop) simp
        then have "scan_rep E (holds s) (sc\<lparr>sc_cursors := ?cs\<rparr>) rest'" using f by (simp add: scan_rep_def)
        with front Inr Pair f s' Cons show ?thesis by (simp add: scan_next_def)
      qed
    qed
  qed
qed

end

section \<open>What scanning keeps\<close>

lemma ready_loop_keeps:
  assumes "\<And>r. keeps (grows f) (fetch r)"
  shows "keeps (grows f) (ready_loop E shard fetch c)"
proof (rule keepsI)
  have body: "keeps (grows f) (ready_body E shard fetch c)" for c
    unfolding ready_body_def cursor_leaf_def cursor_page_def Let_def
    by (auto intro!: keeps_rules assms split: prod.splits)
  fix s x s' assume loop: "ready_loop E shard fetch c s = (x, s')"
  show "f s \<le> f s'"
  proof (cases "c_page c = []")
    case True
    obtain r t where r: "ready_body E shard fetch c s = (r, t)" by (cases "ready_body E shard fetch c s")
    have "s' = t"
    proof (cases r)
      case (Inl e)
      with loop True r show ?thesis by (simp add: ready_loop.simps [of E shard fetch c] bind_a_step)
    next
      case (Inr v)
      then show ?thesis
        using loop True r ready_loop.simps [of E shard fetch "snd v" t] ready_body_page [of E shard fetch c s "snd v" t]
        by (cases v) (auto simp: ready_loop.simps [of E shard fetch c] bind_a_step split: if_splits)
    qed
    with keepsD [OF body r] show ?thesis by simp
  next
    case False
    with loop show ?thesis by (simp add: ready_loop.simps)
  qed
qed

lemma ready_keeps: "(\<And>r. keeps (grows f) (fetch r)) \<Longrightarrow> keeps (grows f) (ready E shard fetch c)"
  unfolding ready_def cursor_init_def Let_def
  by (auto intro!: keeps_rules ready_loop_keeps split: prod.splits)

lemma scan_next_keeps:
  assumes "\<And>r. keeps (grows f) (fetch r)"
  shows "keeps (grows (\<lambda>(sc, s). f s)) (scan_next E fetch)"
proof -
  have "keeps (grows f) (map_a (\<lambda>(shard, c). ready E shard fetch c) (enumerate 0 (sc_cursors sc)))" for sc
    by (auto intro!: keeps_rules ready_keeps assms)
  note ready = keepsD [OF this]
  show ?thesis
    by (rule keepsI) (auto simp: scan_next_def Let_def dest!: ready split: prod.splits if_splits sum.splits option.splits)
qed

end
