(* ===== verification/Run_Builder.thy ===== *)
theory Run_Builder
  imports Run_Tree
begin

text \<open>
  \<^verbatim>\<open>RunBuilder::build\<close> of \<^verbatim>\<open>codec/src/run.rs\<close>: sorted records are routed to sixteen partitions,
  buffered into data pages, indexed by fence leaves and parent entries, and every finished
  object is handed to the caller's \<^verbatim>\<open>emit\<close> closure. The four arrays and \<^verbatim>\<open>previous\<close> that the
  function keeps are the record \<open>bstate\<close>; \<^verbatim>\<open>emit\<close> is an action on the caller's state. The main
  lemma is that whatever \<open>build\<close> returns represents exactly its input.
\<close>

section \<open>Operations\<close>

record bstate =
  b_pages :: "bytes list"
  b_counts :: "u32 list"
  b_leaves :: "fence list list"
  b_parents :: "fence list list"
  b_previous :: "vkey option"

definition build_start :: bstate where
  "build_start = \<lparr>b_pages = replicate PARTITIONS data_page_start, b_counts = replicate PARTITIONS 0,
     b_leaves = replicate PARTITIONS [], b_parents = replicate PARTITIONS [], b_previous = None\<rparr>"

definition emit_leaf :: "'x ext_scheme \<Rightarrow> (encoded_object \<Rightarrow> ('s, unit) act) \<Rightarrow> nat \<Rightarrow> bstate \<Rightarrow> ('s, bstate) act" where
  "emit_leaf E emit p b =
     (case b_leaves b ! p of
        [] \<Rightarrow> ret b
      | first # _ \<Rightarrow>
          bind_a (lift_r (encode_index (b_leaves b ! p) INDEX_MAGIC)) (\<lambda>bytes.
          bind_a (lift_r (make_object E bytes)) (\<lambda>object.
            let parents = b_parents b ! p;
                parent_entry = \<lparr>fence_key = fence_key first, fence_block = fence_block first, fence_data = obj_reference object\<rparr>
            in if (case last_opt parents of None \<Rightarrow> False | Some prior \<Rightarrow> fence_vkey prior \<ge> fence_vkey parent_entry)
               then bail_a ''run fence leaves are not strictly ordered''
               else if index_size (parents @ [parent_entry]) > MAX_INDEX_BYTES
               then bail_a ''run internal fence root exceeds 512 KiB bound''
               else
                 bind_a (ctx_a ''emit run fence leaf'' (emit object)) (\<lambda>_.
                   ret (b\<lparr>b_leaves := (b_leaves b)[p := []], b_parents := (b_parents b)[p := parents @ [parent_entry]]\<rparr>)))))"

definition append_leaf_fence ::
  "'x ext_scheme \<Rightarrow> (encoded_object \<Rightarrow> ('s, unit) act) \<Rightarrow> nat \<Rightarrow> fence \<Rightarrow> bstate \<Rightarrow> ('s, bstate) act" where
  "append_leaf_fence E emit p fence b =
     (let leaf = b_leaves b ! p @ [fence]
      in if index_size leaf \<le> MAX_INDEX_BYTES then ret (b\<lparr>b_leaves := (b_leaves b)[p := leaf]\<rparr>)
         else if b_leaves b ! p = [] then bail_a ''single run fence exceeds 512 KiB leaf bound''
         else
           bind_a (emit_leaf E emit p b) (\<lambda>b.
             let leaf = b_leaves b ! p @ [fence]
             in if index_size leaf > MAX_INDEX_BYTES then bail_a ''single run fence exceeds 512 KiB leaf bound''
                else ret (b\<lparr>b_leaves := (b_leaves b)[p := leaf]\<rparr>)))"

definition flush_page :: "'x ext_scheme \<Rightarrow> (encoded_object \<Rightarrow> ('s, unit) act) \<Rightarrow> nat \<Rightarrow> bstate \<Rightarrow> ('s, bstate) act" where
  "flush_page E emit p b =
     (let count = b_counts b ! p
      in if count = 0 then ret b
         else
           let page = take 5 (b_pages b ! p) @ u32_be count @ drop 9 (b_pages b ! p)
           in bind_a (lift_r (decode_first_record E page)) (\<lambda>first.
              bind_a (lift_r (zstd_encode E page)) (\<lambda>compressed.
                let bytes = COMPRESSED_MAGIC @ [VERSION] @ u32_be (word_of_nat (length page)) @
                      u32_be (word_of_nat (length compressed)) @ compressed
                in if length page > MAX_PAGE_BYTES \<or> length bytes > MAX_PAGE_BYTES
                   then bail_a ''run data page exceeds 1 MiB encoded or decoded bound''
                   else
                     bind_a (lift_r (make_object E bytes)) (\<lambda>object.
                     bind_a (ctx_a ''emit run data page'' (emit object)) (\<lambda>_.
                     bind_a (append_leaf_fence E emit p
                       \<lparr>fence_key = rec_key first, fence_block = rec_block first, fence_data = obj_reference object\<rparr> b) (\<lambda>b.
                       ret (b\<lparr>b_pages := (b_pages b)[p := data_page_start], b_counts := (b_counts b)[p := 0]\<rparr>)))))))"

text \<open>One record of the main loop.\<close>

definition build_record :: "'x ext_scheme \<Rightarrow> (encoded_object \<Rightarrow> ('s, unit) act) \<Rightarrow> bstate \<Rightarrow> krecord \<Rightarrow> ('s, bstate) act" where
  "build_record E emit b record =
     (if rec_key record = [] then bail_a ''run record key must not be empty''
      else if (case b_previous b of None \<Rightarrow> False | Some previous \<Rightarrow> previous \<ge> rec_vkey record)
      then bail_a ''run records must be strictly sorted by (key, block)''
      else if length (rec_key record) + length (rec_value record) + (16 + 9) > MAX_PAGE_BYTES
      then bail_a ''single run record exceeds 1 MiB data-page bound''
      else
        let p = run_partition E (rec_key record)
        in bind_a (lift_r (encode_record record)) (\<lambda>encoded_record.
           bind_a
             (if length (b_pages b ! p) + length encoded_record > MAX_PAGE_BYTES then
                if b_counts b ! p = 0 then bail_a ''single run record exceeds 1 MiB data-page bound''
                else
                  bind_a (flush_page E emit p b) (\<lambda>b.
                    if length (b_pages b ! p) + length encoded_record > MAX_PAGE_BYTES
                    then bail_a ''single run record exceeds 1 MiB data-page bound''
                    else ret b)
              else ret b)
             (\<lambda>b. ret (b\<lparr>b_pages := (b_pages b)[p := b_pages b ! p @ encoded_record],
                          b_counts := (b_counts b)[p := b_counts b ! p + 1],
                          b_previous := Some (rec_vkey record)\<rparr>))))"

definition build_finish :: "'x ext_scheme \<Rightarrow> (encoded_object \<Rightarrow> ('s, unit) act) \<Rightarrow> bstate \<Rightarrow> nat \<Rightarrow> ('s, bstate) act" where
  "build_finish E emit b p =
     bind_a (if b_counts b ! p \<noteq> 0 then flush_page E emit p b else ret b) (\<lambda>b.
       if b_leaves b ! p \<noteq> [] then emit_leaf E emit p b else ret b)"

definition build_root_slot :: "'x ext_scheme \<Rightarrow> (encoded_object \<Rightarrow> ('s, unit) act) \<Rightarrow> bytes \<Rightarrow> fence list \<Rightarrow> ('s, bytes) act" where
  "build_root_slot E emit root entries =
     bind_a
       (case entries of
          [] \<Rightarrow> ret default_ref
        | [only] \<Rightarrow> ret (fence_data only)
        | _ \<Rightarrow>
            bind_a (lift_r (encode_index entries INTERNAL_MAGIC)) (\<lambda>bytes.
            bind_a (lift_r (make_object E bytes)) (\<lambda>object.
            bind_a (ctx_a ''emit run internal fence root'' (emit object)) (\<lambda>_.
              ret (obj_reference object)))))
       (\<lambda>reference. ret (put_ref root reference))"

definition build :: "'x ext_scheme \<Rightarrow> (encoded_object \<Rightarrow> ('s, unit) act) \<Rightarrow> krecord list \<Rightarrow> ('s, obj_ref) act" where
  "build E emit records =
     bind_a (fold_a (build_record E emit) build_start records) (\<lambda>b.
     bind_a (fold_a (build_finish E emit) b [0..<PARTITIONS]) (\<lambda>b.
     bind_a (fold_a (build_root_slot E emit) (ROOT_MAGIC @ [VERSION]) (b_parents b)) (\<lambda>root.
     bind_a (lift_r (make_object E root)) (\<lambda>object.
     bind_a (ctx_a ''emit run root'' (emit object)) (\<lambda>_.
       ret (obj_reference object))))))"

section \<open>Sinks and the hypotheses on third-party code\<close>

text \<open>Building keeps whatever each emission keeps of the state, also when it fails.\<close>

lemma build_keep:
  assumes emit: "\<And>ob. keeps (grows f) (emit ob)"
  shows "keeps (grows f) (emit_leaf E emit p b)"
    and "keeps (grows f) (append_leaf_fence E emit p fence b)"
    and "keeps (grows f) (flush_page E emit p b)"
    and "keeps (grows f) (build_record E emit b r)"
    and "keeps (grows f) (build_finish E emit b p)"
    and "keeps (grows f) (build_root_slot E emit root entries)"
    and "keeps (grows f) (build E emit records)"
proof -
  show leaf: "keeps (grows f) (emit_leaf E emit p b)" for p b
    by (auto simp: emit_leaf_def Let_def intro!: keeps_rules emit split: list.split)
  show fence: "keeps (grows f) (append_leaf_fence E emit p fence b)" for p fence b
    by (auto simp: append_leaf_fence_def Let_def intro!: keeps_rules leaf)
  show page: "keeps (grows f) (flush_page E emit p b)" for p b
    by (auto simp: flush_page_def Let_def intro!: keeps_rules fence emit)
  show rec: "keeps (grows f) (build_record E emit b r)" for b r
    by (auto simp: build_record_def Let_def simp del: bind_a_ret intro!: keeps_rules page)
  show finish: "keeps (grows f) (build_finish E emit b p)" for b p
    by (auto simp: build_finish_def simp del: bind_a_ret intro!: keeps_rules page leaf)
  show slot: "keeps (grows f) (build_root_slot E emit root entries)" for root entries
    by (auto simp: build_root_slot_def simp del: bind_a_ret intro!: keeps_rules emit split: list.split)
  show "keeps (grows f) (build E emit records)"
    by (auto simp: build_def intro!: keeps_rules rec finish slot emit)
qed

text \<open>The contract of an \<^verbatim>\<open>emit\<close> closure: it holds what it accepted and never loses an object.\<close>

locale object_sink =
  fixes emit :: "encoded_object \<Rightarrow> ('s, unit) act"
    and holds :: "'s \<Rightarrow> holding"
  assumes emit_held: "emit ob s = (Inr u, s') \<Longrightarrow> holds s' (obj_reference ob) (obj_bytes ob)"
    and emit_mono: "emit ob s = (res, s') \<Longrightarrow> holds s \<le> holds s'"

text \<open>What the page codec relies on: decoding what zstd encoded, within the page bound, gives it back.\<close>

definition zstd_roundtrip :: "'x ext_scheme \<Rightarrow> bool" where
  "zstd_roundtrip E \<longleftrightarrow>
     (\<forall>page c. zstd_encode E page = Inr c \<longrightarrow> length page \<le> MAX_PAGE_BYTES \<longrightarrow> zstd_decode E MAX_PAGE_BYTES c = Inr page)"

section \<open>The invariant of a partition\<close>

type_synonym slots = "bytes \<times> u32 \<times> fence list \<times> fence list"

definition slots :: "bstate \<Rightarrow> nat \<Rightarrow> slots" where
  "slots b p = (b_pages b ! p, b_counts b ! p, b_leaves b ! p, b_parents b ! p)"

definition bstate_wf :: "bstate \<Rightarrow> bool" where
  "bstate_wf b \<longleftrightarrow> length (b_pages b) = PARTITIONS \<and> length (b_counts b) = PARTITIONS \<and>
     length (b_leaves b) = PARTITIONS \<and> length (b_parents b) = PARTITIONS"

text \<open>
  The records routed to a partition are those under its parent entries, then those under the
  open leaf, then those buffered in the open page.
\<close>

definition part_inv ::
  "'x ext_scheme \<Rightarrow> holding \<Rightarrow> nat \<Rightarrow> slots \<Rightarrow> krecord list list list \<Rightarrow> krecord list list \<Rightarrow> krecord list \<Rightarrow> bool" where
  "part_inv E H p = (\<lambda>(page, count, leaf, parents) T L C.
     list_all2 (parent_rep E H p) parents T \<and> list_all2 (page_rep E H p) leaf L \<and>
     page = data_page_start @ concat (map rec_bytes C) \<and> count = word_of_nat (length C) \<and>
     length page \<le> MAX_PAGE_BYTES \<and> (\<forall>r\<in>set C. rec_ok E (Some p) r) \<and>
     index_size leaf \<le> MAX_INDEX_BYTES \<and> index_size parents \<le> MAX_INDEX_BYTES)"

text \<open>An operation on partition \<open>p\<close> touches nothing of another partition.\<close>

definition frame :: "nat \<Rightarrow> bstate \<Rightarrow> bstate \<Rightarrow> bool" where
  "frame p b b' \<longleftrightarrow> bstate_wf b' \<and> b_previous b' = b_previous b \<and> (\<forall>q. q \<noteq> p \<longrightarrow> slots b' q = slots b q)"

section \<open>Objects represent what was put into them\<close>

lemma list_all2_left: "list_all2 P xs ys \<Longrightarrow> (\<And>x y. P x y \<Longrightarrow> Q x) \<Longrightarrow> \<forall>x\<in>set xs. Q x"
  by (induction rule: list_all2_induct) auto

lemma decode_encoded_index:
  assumes "fs \<noteq> []" "index_size fs \<le> MAX_INDEX_BYTES" "ssorted (map fence_vkey fs)" "length magic = 4"
    and "\<forall>f\<in>set fs. fence_key f \<noteq> [] \<and> run_partition E (fence_key f) = p \<and> ref_ok (index_limit magic) (fence_data f)"
    and "make_object E (index_payload magic fs) = Inr ob"
  shows "decode_index E (obj_reference ob) (obj_bytes ob) p magic = Inr fs"
proof -
  have "length (fence_key f) < 2 ^ 32" if "f \<in> set fs" for f
    using index_size_key [OF that] assms(2) bounds_u32(1) by linarith
  moreover have "length (index_payload magic fs) < 2 ^ 32"
    using length_index_payload [OF assms(4)] assms(2) bounds_u32(1) by (metis order.strict_trans1)
  ultimately show ?thesis
    using assms by (auto simp: make_object_iff decode_index_iff fence_ok_def unat_u32)
qed

lemma page_rep_fence:
  assumes "page_rep E H p f rs" "nonzero H"
  shows "fence_key f \<noteq> [] \<and> run_partition E (fence_key f) = p \<and> ref_ok (index_limit INDEX_MAGIC) (fence_data f)"
proof -
  from assms(1) obtain bs where bs: "H (fence_data f) bs" "decode_data_page E (fence_data f) bs p = Inr rs"
    and f: "fence_vkey f = rec_vkey (hd rs)" by (auto simp: page_rep_def)
  note page = decode_data_page_sound [OF bs(2)]
  have "hd rs \<in> set rs" using page(3) by simp
  moreover have "fence_key f = rec_key (hd rs)" using f by (simp add: fence_vkey_def rec_vkey_def)
  moreover have "ref_length (fence_data f) \<noteq> 0" using page(1,7) by (metis not_numeral_le_zero unsigned_0)
  moreover note nonzeroD [OF assms(2) bs(1)]
  ultimately show ?thesis
    using page by (simp add: ref_ok_def index_limit_def magic_neq)
qed

lemma parent_rep_fence:
  assumes "parent_rep E H p f pages" "nonzero H"
  shows "fence_key f \<noteq> [] \<and> run_partition E (fence_key f) = p \<and> ref_ok (index_limit INTERNAL_MAGIC) (fence_data f)"
proof -
  from assms(1) have leaf: "leaf_rep E H p (fence_data f) pages" and f: "fence_vkey f = rec_vkey (hd (concat pages))"
    by (auto simp: parent_rep_def)
  then obtain bs fs where bs: "H (fence_data f) bs" "decode_index E (fence_data f) bs p INDEX_MAGIC = Inr fs"
    by (auto simp: leaf_rep_def)
  have "unat (ref_length (fence_data f)) = index_size fs" "index_size fs \<le> MAX_INDEX_BYTES"
    using bs(2) by (simp_all add: decode_index_iff length_index_payload)
  moreover from this have "ref_length (fence_data f) \<noteq> 0" by (metis index_size_length not_less_zero unsigned_0)
  moreover have "hd (concat pages) \<in> set (concat pages)" using leaf_rep_facts(1) [OF leaf] by (rule hd_in_set)
  moreover have "fence_key f = rec_key (hd (concat pages))" using f by (simp add: fence_vkey_def rec_vkey_def)
  moreover note nonzeroD [OF assms(2) bs(1)]
  ultimately show ?thesis
    using leaf_rep_facts(2) [OF leaf]
    by (simp add: ref_ok_def index_limit_def routed_def del: set_concat)
qed

lemma fences_sorted:
  assumes "list_all2 (\<lambda>f rs. rs \<noteq> [] \<and> fence_vkey f = rec_vkey (hd rs)) fs pages"
    and "ssorted (map rec_vkey (concat pages))"
  shows "ssorted (map fence_vkey fs)"
proof -
  have "map fence_vkey fs = map (\<lambda>rs. rec_vkey (hd rs)) pages" "\<forall>rs\<in>set pages. rs \<noteq> []"
    using assms(1) by (induction rule: list_all2_induct) auto
  with ssorted_heads [OF assms(2)] show ?thesis by simp
qed

lemma leaf_object_rep:
  assumes pages: "list_all2 (page_rep E H p) fs pages" and "fs \<noteq> []" "index_size fs \<le> MAX_INDEX_BYTES"
    and sorted: "ssorted (map rec_vkey (concat pages))" and "H \<le> H'" "nonzero H'"
    and ob: "make_object E (index_payload INDEX_MAGIC fs) = Inr ob" "H' (obj_reference ob) (obj_bytes ob)"
  shows "leaf_rep E H' p (obj_reference ob) pages"
proof -
  have pages': "list_all2 (page_rep E H' p) fs pages"
    using pages by (rule list_all2_mono) (rule page_rep_mono [OF _ assms(5)])
  then have "\<forall>f\<in>set fs. fence_key f \<noteq> [] \<and> run_partition E (fence_key f) = p \<and> ref_ok (index_limit INDEX_MAGIC) (fence_data f)"
    by (rule list_all2_left) (rule page_rep_fence [OF _ assms(6)])
  with assms fences_sorted [OF pages_rep_facts(3) [OF pages] sorted]
  have "decode_index E (obj_reference ob) (obj_bytes ob) p INDEX_MAGIC = Inr fs"
    by (intro decode_encoded_index) simp_all
  with pages' ob(2) show ?thesis by (auto simp: leaf_rep_def)
qed

lemma internal_object_rep:
  assumes leaves: "list_all2 (parent_rep E H p) ps leaves" and "ps \<noteq> []" "index_size ps \<le> MAX_INDEX_BYTES"
    and sorted: "ssorted (map rec_vkey (concat (concat leaves)))" and "H \<le> H'" "nonzero H'"
    and ob: "make_object E (index_payload INTERNAL_MAGIC ps) = Inr ob" "H' (obj_reference ob) (obj_bytes ob)"
  shows "part_rep E H' p (obj_reference ob) leaves"
proof -
  have leaves': "list_all2 (parent_rep E H' p) ps leaves"
    using leaves by (rule list_all2_mono) (rule parent_rep_mono [OF _ assms(5)])
  then have "\<forall>f\<in>set ps. fence_key f \<noteq> [] \<and> run_partition E (fence_key f) = p \<and> ref_ok (index_limit INTERNAL_MAGIC) (fence_data f)"
    by (rule list_all2_left) (rule parent_rep_fence [OF _ assms(6)])
  moreover have "ssorted (map rec_vkey (concat (map concat leaves)))" using sorted by (simp add: concat_map_concat)
  ultimately have "decode_index E (obj_reference ob) (obj_bytes ob) p INTERNAL_MAGIC = Inr ps"
    using assms fences_sorted [OF parents_rep_facts(1) [OF leaves]] by (intro decode_encoded_index) simp_all
  moreover have "validate_index_ref (obj_reference ob) = Inr ()"
  proof -
    have len: "length (obj_bytes ob) = index_size ps" "unat (ref_length (obj_reference ob)) = index_size ps"
      using ob(1) assms(3) bounds_u32(1) by (auto simp: make_object_iff length_index_payload unat_u32)
    then have "ref_length (obj_reference ob) \<noteq> 0" by (metis index_size_length not_less_zero unsigned_0)
    with len assms(3) nonzeroD [OF assms(6) ob(2)] show ?thesis by (simp add: validate_ref_iff)
  qed
  ultimately show ?thesis using leaves' ob(2) by (intro part_rep.internal)
qed

lemma page_object_rep:
  assumes "zstd_roundtrip E" "zstd_encode E (page_payload rs) = Inr c"
    and "length (page_payload rs) \<le> MAX_PAGE_BYTES" "length (page_object_bytes (page_payload rs) c) \<le> MAX_PAGE_BYTES"
    and "rs \<noteq> []" "length rs < 2 ^ 32" "ssorted (map rec_vkey rs)" "\<forall>r\<in>set rs. rec_ok E (Some p) r"
    and "make_object E (page_object_bytes (page_payload rs) c) = Inr ob" "H (obj_reference ob) (obj_bytes ob)"
    and "fence_data f = obj_reference ob" "fence_vkey f = rec_vkey (hd rs)"
  shows "page_rep E H p f rs"
proof -
  have "zstd_decode E MAX_PAGE_BYTES c = Inr (page_payload rs)"
    using assms(1-3) by (simp add: zstd_roundtrip_def)
  moreover have "unat (ref_length (obj_reference ob)) = length (page_object_bytes (page_payload rs) c)"
    "ref_digest (obj_reference ob) = sha256 E (page_object_bytes (page_payload rs) c)"
    "obj_bytes ob = page_object_bytes (page_payload rs) c"
    using assms(9) by (auto simp: make_object_iff unat_u32)
  ultimately have "decode_data_page E (obj_reference ob) (obj_bytes ob) p = Inr rs"
    using assms bounds_u32(2) decode_compressed_page [of E MAX_PAGE_BYTES c "page_payload rs" "obj_reference ob"]
    by (simp add: decode_data_page_def parse_data_payload_iff)
  with assms(10-12) show ?thesis by (auto simp: page_rep_def)
qed

section \<open>Operations keep the invariant\<close>

lemma part_inv_mono:
  assumes "part_inv E H p sl T L C" and "H \<le> H'"
  shows "part_inv E H' p sl T L C"
proof -
  obtain page count leaf parents where sl: "sl = (page, count, leaf, parents)" by (cases sl)
  have "list_all2 (parent_rep E H' p) parents T" "list_all2 (page_rep E H' p) leaf L"
    using assms(1) parent_rep_mono [OF _ assms(2)] page_rep_mono [OF _ assms(2)]
    by (auto simp: part_inv_def sl elim!: list_all2_mono)
  with assms(1) show ?thesis by (auto simp: part_inv_def sl)
qed

lemma length_recs_le: "length C \<le> length (concat (map rec_bytes C))"
  by (induction C) (simp_all add: length_rec_bytes)

lemma part_inv_count:
  assumes "part_inv E H p (page, count, leaf, parents) T L C"
  shows "length C < 2 ^ 32" "count = 0 \<longleftrightarrow> C = []" "length page = 9 + length (concat (map rec_bytes C))"
proof -
  show len: "length page = 9 + length (concat (map rec_bytes C))"
    using assms by (simp add: part_inv_def data_page_start_def)
  then show small: "length C < 2 ^ 32"
    using assms length_recs_le [of C] by (simp add: part_inv_def MAX_PAGE_BYTES_def)
  then have "unat count = length C" using assms by (simp add: part_inv_def unat_u32)
  then show "count = 0 \<longleftrightarrow> C = []" by (metis length_0_conv unat_eq_zero)
qed

lemma frame_refl: "bstate_wf b \<Longrightarrow> frame p b b"
  by (simp add: frame_def)

lemma frame_trans: "frame p a b \<Longrightarrow> frame p b c \<Longrightarrow> frame p a c"
  by (simp add: frame_def)

context object_sink begin

lemma emit_keeps [keeps_rules]: "keeps (grows holds) (emit ob)"
  by (rule keepsI) (rule emit_mono)

lemmas emit_leaf_keeps [keeps_rules] = build_keep(1) [where emit = emit and f = holds, OF emit_keeps]
lemmas append_leaf_fence_keeps [keeps_rules] = build_keep(2) [where emit = emit and f = holds, OF emit_keeps]
lemmas flush_page_keeps [keeps_rules] = build_keep(3) [where emit = emit and f = holds, OF emit_keeps]
lemmas build_steps_keep [keeps_rules] = build_keep(4-6) [where emit = emit and f = holds, OF emit_keeps]
lemmas build_keeps = build_keep(7) [where emit = emit and f = holds, OF emit_keeps]

lemma emit_leaf_inv:
  assumes run: "emit_leaf E emit p b s = (Inr b', s')" and wf: "bstate_wf b" "p < PARTITIONS" and nz: "nonzero (holds s')"
    and inv: "part_inv E (holds s) p (slots b p) T L C" and ne: "b_leaves b ! p \<noteq> []"
    and sorted: "ssorted (map rec_vkey (concat L))"
  shows "frame p b b' \<and> holds s \<le> holds s' \<and> part_inv E (holds s') p (slots b' p) (T @ [L]) [] C \<and> b_leaves b' ! p = []"
proof -
  obtain first rest where leaf: "b_leaves b ! p = first # rest" using ne by (cases "b_leaves b ! p") auto
  have size: "index_size (b_leaves b ! p) \<le> MAX_INDEX_BYTES" and pages: "list_all2 (page_rep E (holds s) p) (b_leaves b ! p) L"
    using inv by (auto simp: part_inv_def slots_def)
  from run leaf obtain ob where ob: "make_object E (index_payload INDEX_MAGIC (b_leaves b ! p)) = Inr ob" "emit ob s = (Inr (), s')"
    and size': "index_size (b_parents b ! p @ [\<lparr>fence_key = fence_key first, fence_block = fence_block first, fence_data = obj_reference ob\<rparr>]) \<le> MAX_INDEX_BYTES"
    and b': "b' = b\<lparr>b_leaves := (b_leaves b)[p := []], b_parents := (b_parents b)[p := b_parents b ! p @
        [\<lparr>fence_key = fence_key first, fence_block = fence_block first, fence_data = obj_reference ob\<rparr>]]\<rparr>"
    by (auto simp: emit_leaf_def encode_index_iff Let_def bail_a_def split: if_splits)
  have mono: "holds s \<le> holds s'" using ob(2) by (rule emit_mono)
  have "leaf_rep E (holds s') p (obj_reference ob) L"
    using pages ne size sorted mono nz ob(1) emit_held [OF ob(2)] by (rule leaf_object_rep)
  moreover have "fence_vkey first = rec_vkey (hd (concat L))" using pages_rep_facts(4) [OF pages ne] leaf by simp
  ultimately have "parent_rep E (holds s') p \<lparr>fence_key = fence_key first, fence_block = fence_block first, fence_data = obj_reference ob\<rparr> L"
    by (simp add: parent_rep_def fence_vkey_def)
  with part_inv_mono [OF inv mono] size' wf have "part_inv E (holds s') p (slots b' p) (T @ [L]) [] C"
    by (auto simp: part_inv_def slots_def b' bstate_wf_def index_size_def MAX_INDEX_BYTES_def intro: list_all2_appendI)
  moreover have "frame p b b'" using wf by (auto simp: frame_def b' bstate_wf_def slots_def)
  ultimately show ?thesis using mono wf by (simp add: b' bstate_wf_def)
qed

lemma append_leaf_fence_inv:
  assumes run: "append_leaf_fence E emit p f b s = (Inr b', s')" and wf: "bstate_wf b" "p < PARTITIONS" and nz: "nonzero (holds s')"
    and inv: "part_inv E (holds s) p (slots b p) T L C" and page: "page_rep E (holds s) p f rs"
    and sorted: "ssorted (map rec_vkey (concat L))"
  shows "\<exists>T' L'. frame p b b' \<and> holds s \<le> holds s' \<and> part_inv E (holds s') p (slots b' p) T' L' C \<and>
    concat (concat T') @ concat L' = concat (concat T) @ concat L @ rs"
proof (cases "index_size (b_leaves b ! p @ [f]) \<le> MAX_INDEX_BYTES")
  case True
  then have "b' = b\<lparr>b_leaves := (b_leaves b)[p := b_leaves b ! p @ [f]]\<rparr>" "s' = s"
    using run by (simp_all add: append_leaf_fence_def)
  moreover from this have "frame p b b'" using wf by (auto simp: frame_def bstate_wf_def slots_def)
  ultimately show ?thesis
    using True inv page wf
    by (intro exI [of _ T] exI [of _ "L @ [rs]"]) (auto simp: part_inv_def slots_def bstate_wf_def intro: list_all2_appendI)
next
  case False
  with run obtain b1 where ne: "b_leaves b ! p \<noteq> []" and b1: "emit_leaf E emit p b s = (Inr b1, s')"
    and size: "index_size (b_leaves b1 ! p @ [f]) \<le> MAX_INDEX_BYTES"
    and b': "b' = b1\<lparr>b_leaves := (b_leaves b1)[p := b_leaves b1 ! p @ [f]]\<rparr>"
    by (auto simp: append_leaf_fence_def Let_def bail_a_def split: if_splits)
  from emit_leaf_inv [OF b1 wf nz inv ne sorted] have
    e: "frame p b b1" "holds s \<le> holds s'" "part_inv E (holds s') p (slots b1 p) (T @ [L]) [] C" "b_leaves b1 ! p = []" by auto
  have "frame p b1 b'" using e(1) by (auto simp: frame_def b' bstate_wf_def slots_def)
  then have "frame p b b'" using e(1) frame_trans by blast
  then show ?thesis
    using e size wf page_rep_mono [OF page e(2)]
    by (intro exI [of _ "T @ [L]"] exI [of _ "[rs]"]) (auto simp: part_inv_def slots_def b' frame_def bstate_wf_def)
qed

lemma flush_page_inv:
  assumes run: "flush_page E emit p b s = (Inr b', s')" and wf: "bstate_wf b" "p < PARTITIONS" and nz: "nonzero (holds s')"
    and inv: "part_inv E (holds s) p (slots b p) T L C" and zstd: "zstd_roundtrip E"
    and sorted: "ssorted (map rec_vkey (concat (concat T) @ concat L @ C))"
  shows "\<exists>T' L'. frame p b b' \<and> part_inv E (holds s') p (slots b' p) T' L' [] \<and>
    concat (concat T') @ concat L' = concat (concat T) @ concat L @ C"
proof (cases "b_counts b ! p = 0")
  case True
  then have "b' = b" "s' = s" "C = []" using run part_inv_count(2) [OF inv [unfolded slots_def]]
    by (auto simp: flush_page_def)
  with inv wf show ?thesis by (auto simp: frame_refl)
next
  case False
  let ?page = "take 5 (b_pages b ! p) @ u32_be (b_counts b ! p) @ drop 9 (b_pages b ! p)"
  have page: "?page = page_payload C" and small: "length C < 2 ^ 32" and C: "C \<noteq> []" and ok: "\<forall>r\<in>set C. rec_ok E (Some p) r"
    using inv False part_inv_count [OF inv [unfolded slots_def]]
    by (auto simp: part_inv_def slots_def data_page_start_def page_payload_def)
  have sC: "ssorted (map rec_vkey C)" and sL: "ssorted (map rec_vkey (concat L))" using sorted by (simp_all add: ssorted_append)
  have "parse_data_payload E (page_payload C) None = Inr C"
    using C small sC ok by (auto simp: parse_data_payload_iff rec_ok_def)
  then have first: "decode_first_record E (page_payload C) = Inr (hd C)"
    using C by (cases C) (simp_all add: decode_first_record_def)
  define f where "f ob = \<lparr>fence_key = rec_key (hd C), fence_block = rec_block (hd C), fence_data = obj_reference ob\<rparr>" for ob :: encoded_object
  from run False obtain c ob s1 b1 where c: "zstd_encode E (page_payload C) = Inr c"
    and len: "length (page_payload C) \<le> MAX_PAGE_BYTES" "length (page_object_bytes (page_payload C) c) \<le> MAX_PAGE_BYTES"
    and ob: "make_object E (page_object_bytes (page_payload C) c) = Inr ob" "emit ob s = (Inr (), s1)"
    and app: "append_leaf_fence E emit p (f ob) b s1 = (Inr b1, s')"
    and b': "b' = b1\<lparr>b_pages := (b_pages b1)[p := data_page_start], b_counts := (b_counts b1)[p := 0]\<rparr>"
    by (auto simp: flush_page_def Let_def page first f_def bail_a_def page_object_bytes_def split: if_splits)
  have mono: "holds s \<le> holds s1" "holds s1 \<le> holds s'"
    using emit_mono [OF ob(2)] keepsD [OF append_leaf_fence_keeps app] by simp_all
  have "page_rep E (holds s1) p (f ob) C"
    using zstd c len C small sC ok ob(1) emit_held [OF ob(2)]
    by (rule page_object_rep) (simp_all add: f_def fence_vkey_def rec_vkey_def)
  from append_leaf_fence_inv [OF app wf nz part_inv_mono [OF inv mono(1)] this sL] obtain T' L' where
    a: "frame p b b1" "part_inv E (holds s') p (slots b1 p) T' L' C" "concat (concat T') @ concat L' = concat (concat T) @ concat L @ C"
    by auto
  have "frame p b1 b'" using a(1) by (auto simp: frame_def b' bstate_wf_def slots_def)
  with a(1) have "frame p b b'" by (rule frame_trans)
  moreover have "part_inv E (holds s') p (slots b' p) T' L' []"
    using a(1,2) wf(2) by (auto simp: part_inv_def slots_def b' frame_def bstate_wf_def data_page_start_def MAX_PAGE_BYTES_def)
  ultimately show ?thesis using a(3) by blast
qed

end

section \<open>The invariant of the builder\<close>

definition build_inv :: "'x ext_scheme \<Rightarrow> holding \<Rightarrow> bstate \<Rightarrow> krecord list \<Rightarrow> bool" where
  "build_inv E H b recs \<longleftrightarrow> bstate_wf b \<and> ssorted (map rec_vkey recs) \<and> b_previous b = map_option rec_vkey (last_opt recs) \<and>
     (\<forall>p<PARTITIONS. \<exists>T L C. part_inv E H p (slots b p) T L C \<and> concat (concat T) @ concat L @ C = routes E p recs)"

lemma build_inv_start: "build_inv E H build_start []"
proof -
  have "part_inv E H p (slots build_start p) [] [] []" if "p < PARTITIONS" for p
    using that by (simp add: part_inv_def slots_def build_start_def data_page_start_def index_size_def
        MAX_PAGE_BYTES_def MAX_INDEX_BYTES_def)
  then show ?thesis
    by (auto simp: build_inv_def bstate_wf_def build_start_def routes_def intro!: exI [of _ "[]"])
qed

lemma build_inv_part:
  assumes "build_inv E H b recs" "p < PARTITIONS"
  obtains T L C where "part_inv E H p (slots b p) T L C" "concat (concat T) @ concat L @ C = routes E p recs"
    "ssorted (map rec_vkey (concat (concat T) @ concat L @ C))"
proof -
  from assms obtain T L C where *: "part_inv E H p (slots b p) T L C" "concat (concat T) @ concat L @ C = routes E p recs"
    unfolding build_inv_def by blast
  moreover have "ssorted (map rec_vkey (concat (concat T) @ concat L @ C))"
    unfolding *(2) using assms by (simp add: build_inv_def routes_sorted)
  ultimately show thesis by (rule that)
qed

text \<open>Replacing the share of one partition in a state that is otherwise framed.\<close>

lemma build_inv_frame:
  assumes "build_inv E H b recs" "frame p b b'" "H \<le> H'"
    and "part_inv E H' p (slots b' p) T L C" "concat (concat T) @ concat L @ C = routes E p recs"
  shows "build_inv E H' b' recs"
proof -
  have "\<exists>T L C. part_inv E H' q (slots b' q) T L C \<and> concat (concat T) @ concat L @ C = routes E q recs" if q: "q < PARTITIONS" for q
  proof (cases "q = p")
    case True
    then show ?thesis using assms(4,5) by blast
  next
    case False
    with assms(2) have "slots b' q = slots b q" by (simp add: frame_def)
    with build_inv_part [OF assms(1) q] part_inv_mono [OF _ assms(3)] show ?thesis by metis
  qed
  with assms(1,2) show ?thesis by (simp add: build_inv_def frame_def)
qed

lemma part_inv_push:
  assumes "part_inv E H p (page, count, leaf, parents) T L C" "rec_ok E (Some p) r"
    and "length page + length (rec_bytes r) \<le> MAX_PAGE_BYTES"
  shows "part_inv E H p (page @ rec_bytes r, count + 1, leaf, parents) T L (C @ [r])"
  using assms by (auto simp: part_inv_def)

lemma build_inv_push:
  assumes inv: "build_inv E H b recs" and p: "p = run_partition E (rec_key r)"
    and ok: "rec_key r \<noteq> []" "length (b_pages b ! p) + length (rec_bytes r) \<le> MAX_PAGE_BYTES"
    and prev: "\<not> (case b_previous b of None \<Rightarrow> False | Some v \<Rightarrow> v \<ge> rec_vkey r)"
  shows "build_inv E H (b\<lparr>b_pages := (b_pages b)[p := b_pages b ! p @ rec_bytes r],
    b_counts := (b_counts b)[p := b_counts b ! p + 1], b_previous := Some (rec_vkey r)\<rparr>) (recs @ [r])" (is "build_inv E H ?b _")
proof -
  have wf: "bstate_wf b" and sorted: "ssorted (map rec_vkey recs)" and bp: "b_previous b = map_option rec_vkey (last_opt recs)"
    using inv by (simp_all add: build_inv_def)
  have pl: "p < PARTITIONS" using p run_partition_less by simp
  have snoc: "ssorted (map rec_vkey (recs @ [r]))"
    using sorted prev by (cases "recs = []") (simp_all add: bp ssorted_snoc last_opt_def last_map)
  have rec: "rec_ok E (Some p) r"
    using ok p by (simp add: rec_ok_def length_rec_bytes MAX_PAGE_BYTES_def)
  have "\<exists>T L C. part_inv E H q (slots ?b q) T L C \<and> concat (concat T) @ concat L @ C = routes E q (recs @ [r])" if q: "q < PARTITIONS" for q
  proof (cases "q = p")
    case True
    from build_inv_part [OF inv pl] obtain T L C where
      "part_inv E H p (b_pages b ! p, b_counts b ! p, b_leaves b ! p, b_parents b ! p) T L C"
      "concat (concat T) @ concat L @ C = routes E p recs" unfolding slots_def .
    with part_inv_push [OF _ rec ok(2)] have "part_inv E H p (slots ?b p) T L (C @ [r])"
      "concat (concat T) @ concat L @ (C @ [r]) = routes E p (recs @ [r])"
      using wf pl p by (simp_all add: slots_def bstate_wf_def routes_def)
    with True show ?thesis by blast
  next
    case False
    then have "slots ?b q = slots b q" "routes E q (recs @ [r]) = routes E q recs" using p by (simp_all add: slots_def routes_def)
    with build_inv_part [OF inv q] show ?thesis by metis
  qed
  with wf snoc show ?thesis by (simp add: build_inv_def bstate_wf_def)
qed

lemma finished_parents:
  assumes inv: "build_inv E H b recs" and closed: "\<forall>p<PARTITIONS. b_counts b ! p = 0 \<and> b_leaves b ! p = []"
  shows "\<exists>T. \<forall>p\<in>{..<PARTITIONS}. list_all2 (parent_rep E H p) (b_parents b ! p) (T p) \<and>
    index_size (b_parents b ! p) \<le> MAX_INDEX_BYTES \<and> concat (concat (T p)) = routes E p recs"
proof -
  have "\<exists>T. list_all2 (parent_rep E H p) (b_parents b ! p) T \<and> index_size (b_parents b ! p) \<le> MAX_INDEX_BYTES \<and>
      concat (concat T) = routes E p recs" if p: "p < PARTITIONS" for p
  proof -
    obtain T L C where part: "part_inv E H p (slots b p) T L C" "concat (concat T) @ concat L @ C = routes E p recs"
      using build_inv_part [OF inv p] .
    moreover from this have "C = []" "L = []"
      using closed p part_inv_count(2) [OF part(1) [unfolded slots_def]] by (simp_all add: part_inv_def slots_def)
    ultimately show ?thesis by (auto simp: part_inv_def slots_def)
  qed
  then show ?thesis by (intro bchoice) blast
qed

lemma root_object_rep:
  assumes len: "length idx = PARTITIONS" and sorted: "ssorted (map rec_vkey recs)" and mono: "H \<le> H'"
    and parts: "\<And>p. p < PARTITIONS \<Longrightarrow> part_rep E H p (idx ! p) (T p)" "\<And>p. p < PARTITIONS \<Longrightarrow> concat (concat (T p)) = routes E p recs"
    and ob: "make_object E (root_bytes idx) = Inr ob" "H' (obj_reference ob) (obj_bytes ob)"
  shows "run_rep E H' (obj_reference ob) recs"
proof -
  have "slot_ok sl" if sl: "sl \<in> set idx" for sl
  proof -
    obtain i where "i < PARTITIONS" "idx ! i = sl" using sl len by (auto simp: in_set_conv_nth)
    with parts(1) [of i] have "part_rep E H i sl (T i)" by simp
    then show ?thesis by cases (simp_all add: slot_ok_def)
  qed
  moreover have "obj_bytes ob = root_bytes idx" "ref_digest (obj_reference ob) = sha256 E (root_bytes idx)"
    "unat (ref_length (obj_reference ob)) = length (root_bytes idx)"
    using ob(1) by (simp_all add: make_object_iff unat_u32)
  ultimately have "decode_root E (obj_reference ob) (obj_bytes ob) = Inr \<lparr>rr_indexes = idx\<rparr>"
    using len by (simp add: decode_root_iff)
  moreover have "reader_rep E H' \<lparr>rr_indexes = idx\<rparr> recs"
    unfolding reader_rep_def
  proof (intro conjI allI impI exI)
    fix p assume "p < PARTITIONS"
    then show "part_rep E H' p (rr_indexes \<lparr>rr_indexes = idx\<rparr> ! p) (T p)"
      "concat (concat (T p)) = filter (\<lambda>r. run_partition E (rec_key r) = p) recs"
      using part_rep_mono [OF parts(1) mono] parts(2) by (simp_all add: routes_def)
  qed (simp_all add: len sorted)
  ultimately show ?thesis using ob(2) by (auto simp: run_rep_def)
qed

context object_sink begin

lemma flush_page_build_inv:
  assumes "flush_page E emit p b s = (Inr b', s')" "p < PARTITIONS" "nonzero (holds s')" "zstd_roundtrip E"
    and inv: "build_inv E (holds s) b recs"
  shows "build_inv E (holds s') b' recs \<and> frame p b b' \<and> b_counts b' ! p = 0"
proof -
  have wf: "bstate_wf b" using inv by (simp add: build_inv_def)
  obtain T L C where part: "part_inv E (holds s) p (slots b p) T L C" "concat (concat T) @ concat L @ C = routes E p recs"
    "ssorted (map rec_vkey (concat (concat T) @ concat L @ C))" using build_inv_part [OF inv assms(2)] .
  obtain T' L' where new: "frame p b b'" "part_inv E (holds s') p (slots b' p) T' L' []"
    "concat (concat T') @ concat L' = concat (concat T) @ concat L @ C"
    using flush_page_inv [OF assms(1) wf assms(2,3) part(1) assms(4) part(3)] by blast
  moreover have "holds s \<le> holds s'" using keepsD [OF flush_page_keeps assms(1)] .
  ultimately have "build_inv E (holds s') b' recs"
    using build_inv_frame [OF inv new(1) _ new(2)] part(2) by simp
  with new(1) part_inv_count(2) [OF new(2) [unfolded slots_def]] show ?thesis by simp
qed

lemma build_record_inv:
  assumes run: "build_record E emit b r s = (Inr b', s')" and nz: "nonzero (holds s')" and zstd: "zstd_roundtrip E"
    and inv: "build_inv E (holds s) b recs"
  shows "build_inv E (holds s') b' (recs @ [r])"
proof -
  let ?p = "run_partition E (rec_key r)"
  note p = run_partition_less [of E "rec_key r"]
  from run obtain b1 where key: "rec_key r \<noteq> []" and prev: "\<not> (case b_previous b of None \<Rightarrow> False | Some v \<Rightarrow> v \<ge> rec_vkey r)"
    and b1: "(if length (b_pages b ! ?p) + length (rec_bytes r) > MAX_PAGE_BYTES then
          if b_counts b ! ?p = 0 then bail_a ''single run record exceeds 1 MiB data-page bound''
          else bind_a (flush_page E emit ?p b) (\<lambda>b. if length (b_pages b ! ?p) + length (rec_bytes r) > MAX_PAGE_BYTES
               then bail_a ''single run record exceeds 1 MiB data-page bound'' else ret b)
        else ret b) s = (Inr b1, s')"
    and b': "b' = b1\<lparr>b_pages := (b_pages b1)[?p := b_pages b1 ! ?p @ rec_bytes r],
      b_counts := (b_counts b1)[?p := b_counts b1 ! ?p + 1], b_previous := Some (rec_vkey r)\<rparr>"
    by (auto simp: build_record_def Let_def bail_a_def encode_record_iff split: if_splits)
  have "build_inv E (holds s') b1 recs \<and> b_previous b1 = b_previous b \<and> length (b_pages b1 ! ?p) + length (rec_bytes r) \<le> MAX_PAGE_BYTES"
  proof (cases "length (b_pages b ! ?p) + length (rec_bytes r) > MAX_PAGE_BYTES")
    case True
    with b1 have "flush_page E emit ?p b s = (Inr b1, s')" "length (b_pages b1 ! ?p) + length (rec_bytes r) \<le> MAX_PAGE_BYTES"
      by (auto simp: bail_a_def split: if_splits)
    with flush_page_build_inv [OF _ p nz zstd inv] show ?thesis by (auto simp: frame_def)
  next
    case False
    with b1 inv show ?thesis by auto
  qed
  with key prev show ?thesis unfolding b' by (intro build_inv_push) auto
qed

lemma build_records_inv:
  assumes "fold_a (build_record E emit) b rs s = (Inr b', s')" "nonzero (holds s')" "zstd_roundtrip E"
    and "build_inv E (holds s) b recs"
  shows "build_inv E (holds s') b' (recs @ rs)"
  using assms
proof (induction rs arbitrary: b s recs)
  case Nil
  then show ?case by simp
next
  case (Cons r rs)
  then obtain b1 s1 where step: "build_record E emit b r s = (Inr b1, s1)" "fold_a (build_record E emit) b1 rs s1 = (Inr b', s')"
    by auto
  have "keeps (grows holds) (fold_a (build_record E emit) b1 rs)" by (intro keeps_rules)
  from keepsD [OF this step(2)] have "holds s1 \<le> holds s'" .
  then have "nonzero (holds s1)" using Cons.prems(2) nonzero_mono by blast
  then have "build_inv E (holds s1) b1 (recs @ [r])" using build_record_inv [OF step(1)] Cons.prems by blast
  with Cons.IH [OF step(2) Cons.prems(2,3), of "recs @ [r]"] show ?case by simp
qed

text \<open>After its flush a partition has no open page and no open leaf.\<close>

lemma build_finish_inv:
  assumes run: "build_finish E emit b p s = (Inr b', s')" and p: "p < PARTITIONS" and nz: "nonzero (holds s')" and zstd: "zstd_roundtrip E"
    and inv: "build_inv E (holds s) b recs"
  shows "build_inv E (holds s') b' recs \<and> frame p b b' \<and> b_counts b' ! p = 0 \<and> b_leaves b' ! p = []"
proof -
  from run obtain b1 s1 where flush: "(if b_counts b ! p \<noteq> 0 then flush_page E emit p b else ret b) s = (Inr b1, s1)"
    and leaf: "(if b_leaves b1 ! p \<noteq> [] then emit_leaf E emit p b1 else ret b1) s1 = (Inr b', s')"
    by (auto simp: build_finish_def)
  have "keeps (grows holds) (if b_leaves b1 ! p \<noteq> [] then emit_leaf E emit p b1 else ret b1)" by (simp add: keeps_rules)
  from keepsD [OF this leaf] have mono: "holds s1 \<le> holds s'" .
  have wf: "bstate_wf b" using inv by (simp add: build_inv_def)
  have f: "build_inv E (holds s1) b1 recs \<and> frame p b b1 \<and> b_counts b1 ! p = 0"
    using flush flush_page_build_inv [OF _ p nonzero_mono [OF nz mono] zstd inv] inv frame_refl [OF wf]
    by (auto split: if_splits)
  then have inv1: "build_inv E (holds s1) b1 recs" and wf1: "bstate_wf b1" by (simp_all add: build_inv_def)
  show ?thesis
  proof (cases "b_leaves b1 ! p = []")
    case True
    with leaf f show ?thesis by simp
  next
    case False
    obtain T L C where part: "part_inv E (holds s1) p (slots b1 p) T L C" "concat (concat T) @ concat L @ C = routes E p recs"
      "ssorted (map rec_vkey (concat (concat T) @ concat L @ C))" using build_inv_part [OF inv1 p] .
    have C: "C = []" "ssorted (map rec_vkey (concat L))"
      using f part_inv_count(2) [OF part(1) [unfolded slots_def]] part(3) by (simp_all add: ssorted_append)
    from False leaf have "emit_leaf E emit p b1 s1 = (Inr b', s')" by simp
    from emit_leaf_inv [OF this wf1 p nz part(1) False C(2)] have
      e: "frame p b1 b'" "part_inv E (holds s') p (slots b' p) (T @ [L]) [] C" "b_leaves b' ! p = []" by auto
    from build_inv_frame [OF inv1 e(1) mono e(2)] part(2) have "build_inv E (holds s') b' recs" by simp
    moreover have "frame p b b'" using f e(1) frame_trans by blast
    ultimately show ?thesis using e(3) part_inv_count(2) [OF e(2) [unfolded slots_def]] C by simp
  qed
qed

lemma build_finishes_inv:
  assumes "fold_a (build_finish E emit) b ps s = (Inr b', s')" "set ps \<subseteq> {..<PARTITIONS}" "nonzero (holds s')" "zstd_roundtrip E"
    and "build_inv E (holds s) b recs"
    and "\<forall>p<PARTITIONS. p \<notin> set ps \<longrightarrow> b_counts b ! p = 0 \<and> b_leaves b ! p = []"
  shows "build_inv E (holds s') b' recs \<and> (\<forall>p<PARTITIONS. b_counts b' ! p = 0 \<and> b_leaves b' ! p = [])"
  using assms
proof (induction ps arbitrary: b s)
  case Nil
  then show ?case by simp
next
  case (Cons p ps)
  then obtain b1 s1 where step: "build_finish E emit b p s = (Inr b1, s1)" "fold_a (build_finish E emit) b1 ps s1 = (Inr b', s')"
    by auto
  have "keeps (grows holds) (fold_a (build_finish E emit) b1 ps)" by (intro keeps_rules)
  from keepsD [OF this step(2)] have "nonzero (holds s1)" using Cons.prems(3) nonzero_mono by blast
  with build_finish_inv [OF step(1)] Cons.prems have
    b1: "build_inv E (holds s1) b1 recs" "frame p b b1" "b_counts b1 ! p = 0" "b_leaves b1 ! p = []" by auto
  have "b_counts b1 ! q = 0 \<and> b_leaves b1 ! q = []" if "q < PARTITIONS" "q \<notin> set ps" for q
    using that b1 Cons.prems(6) by (cases "q = p") (simp_all add: frame_def slots_def)
  with Cons.IH [OF step(2)] Cons.prems b1(1) show ?case by simp
qed

lemma build_root_slot_rep:
  assumes run: "build_root_slot E emit root entries s = (Inr root', s')" and nz: "nonzero (holds s')"
    and leaves: "list_all2 (parent_rep E (holds s) p) entries leaves" "index_size entries \<le> MAX_INDEX_BYTES"
    and sorted: "ssorted (map rec_vkey (concat (concat leaves)))"
  shows "\<exists>r. root' = root @ ref_bytes r \<and> part_rep E (holds s') p r leaves"
proof (cases entries)
  case Nil
  with run leaves(1) show ?thesis by (auto simp: build_root_slot_def put_ref_eq intro: part_rep.absent)
next
  case (Cons f rest)
  show ?thesis
  proof (cases rest)
    case Nil
    with Cons leaves(1) obtain pages where pages: "leaves = [pages]" "parent_rep E (holds s) p f pages"
      by (auto simp: list_all2_Cons1)
    from run have s: "root' = root @ ref_bytes (fence_data f)" "s' = s"
      using Cons Nil by (simp_all add: build_root_slot_def put_ref_eq)
    have "validate_index_ref (fence_data f) = Inr ()"
      using parent_rep_fence [OF pages(2)] nz s(2) by (simp add: ref_ok_def index_limit_def validate_ref_iff)
    with pages s show ?thesis by (auto simp: parent_rep_def intro: part_rep.single)
  next
    case (Cons f2 rest2)
    with run \<open>entries = f # rest\<close> obtain ob where ob: "make_object E (index_payload INTERNAL_MAGIC entries) = Inr ob" "emit ob s = (Inr (), s')"
      and root': "root' = root @ ref_bytes (obj_reference ob)"
      by (auto simp: build_root_slot_def put_ref_eq encode_index_iff)
    have "part_rep E (holds s') p (obj_reference ob) leaves"
      using leaves(1) _ leaves(2) sorted emit_mono [OF ob(2)] nz ob(1) emit_held [OF ob(2)]
      by (rule internal_object_rep) (simp add: \<open>entries = f # rest\<close>)
    with root' show ?thesis by blast
  qed
qed

lemma build_root_slots_rep:
  assumes "fold_a (build_root_slot E emit) root parents s = (Inr root', s')" "nonzero (holds s')"
    and "\<forall>i<length parents. list_all2 (parent_rep E (holds s) (k + i)) (parents ! i) (T (k + i)) \<and>
      index_size (parents ! i) \<le> MAX_INDEX_BYTES \<and> ssorted (map rec_vkey (concat (concat (T (k + i)))))"
  shows "\<exists>idx. root' = root @ concat (map ref_bytes idx) \<and> length idx = length parents \<and>
    (\<forall>i<length parents. part_rep E (holds s') (k + i) (idx ! i) (T (k + i)))"
  using assms
proof (induction parents arbitrary: root s k)
  case Nil
  then show ?case by simp
next
  case (Cons entries parents)
  then obtain root1 s1 where step: "build_root_slot E emit root entries s = (Inr root1, s1)"
    "fold_a (build_root_slot E emit) root1 parents s1 = (Inr root', s')"
    by auto
  have keep: "holds s \<le> holds s1" using keepsD [OF build_steps_keep(3) step(1)] .
  have "keeps (grows holds) (fold_a (build_root_slot E emit) root1 parents)" by (intro keeps_rules)
  from keepsD [OF this step(2)] have mono: "holds s1 \<le> holds s'" .
  then have nz1: "nonzero (holds s1)" using Cons.prems(2) nonzero_mono by blast
  from Cons.prems(3) have entries: "list_all2 (parent_rep E (holds s) k) entries (T k)" "index_size entries \<le> MAX_INDEX_BYTES"
    "ssorted (map rec_vkey (concat (concat (T k))))" by fastforce+
  obtain r where r: "root1 = root @ ref_bytes r" "part_rep E (holds s1) k r (T k)"
    using build_root_slot_rep [OF step(1) nz1 entries] by blast
  have "\<forall>i<length parents. list_all2 (parent_rep E (holds s1) (Suc k + i)) (parents ! i) (T (Suc k + i)) \<and>
      index_size (parents ! i) \<le> MAX_INDEX_BYTES \<and> ssorted (map rec_vkey (concat (concat (T (Suc k + i)))))"
  proof (intro allI impI)
    fix i assume "i < length parents"
    with Cons.prems(3) have *: "list_all2 (parent_rep E (holds s) (Suc k + i)) (parents ! i) (T (Suc k + i))"
      "index_size (parents ! i) \<le> MAX_INDEX_BYTES" "ssorted (map rec_vkey (concat (concat (T (Suc k + i)))))"
      by (auto dest: spec [of _ "Suc i"])
    moreover have "list_all2 (parent_rep E (holds s1) (Suc k + i)) (parents ! i) (T (Suc k + i))"
      using *(1) by (rule list_all2_mono) (rule parent_rep_mono [OF _ keep])
    ultimately show "list_all2 (parent_rep E (holds s1) (Suc k + i)) (parents ! i) (T (Suc k + i)) \<and>
      index_size (parents ! i) \<le> MAX_INDEX_BYTES \<and> ssorted (map rec_vkey (concat (concat (T (Suc k + i)))))" by blast
  qed
  from Cons.IH [OF step(2) Cons.prems(2) this] obtain idx where idx: "root' = root1 @ concat (map ref_bytes idx)"
    "length idx = length parents" "\<forall>i<length parents. part_rep E (holds s') (Suc k + i) (idx ! i) (T (Suc k + i))" by blast
  with r part_rep_mono [OF r(2) mono] show ?case
    by (intro exI [of _ "r # idx"]) (auto simp: All_less_Suc2)
qed

text \<open>Whatever \<open>build\<close> returns names a run that represents exactly the records it was given.\<close>

theorem build_rep:
  assumes run: "build E emit recs s = (Inr r, t)" and zstd: "zstd_roundtrip E" and nz: "nonzero (holds t)"
  shows "run_rep E (holds t) r recs"
proof -
  from run obtain b1 s1 b2 s2 root s3 ob where
    records: "fold_a (build_record E emit) build_start recs s = (Inr b1, s1)"
    and finish: "fold_a (build_finish E emit) b1 [0..<PARTITIONS] s1 = (Inr b2, s2)"
    and slots: "fold_a (build_root_slot E emit) (ROOT_MAGIC @ [VERSION]) (b_parents b2) s2 = (Inr root, s3)"
    and ob: "make_object E root = Inr ob" "emit ob s3 = (Inr (), t)" "r = obj_reference ob"
    by (auto simp: build_def)
  have "keeps (grows holds) (fold_a (build_root_slot E emit) (ROOT_MAGIC @ [VERSION]) (b_parents b2))"
    "keeps (grows holds) (fold_a (build_finish E emit) b1 [0..<PARTITIONS])" by (intro keeps_rules)+
  note mono = emit_mono [OF ob(2)] keepsD [OF this(1) slots] keepsD [OF this(2) finish]
  note nz3 = nonzero_mono [OF nz mono(1)] note nz2 = nonzero_mono [OF nz3 mono(2)] note nz1 = nonzero_mono [OF nz2 mono(3)]
  have "build_inv E (holds s1) b1 recs" using build_records_inv [OF records nz1 zstd build_inv_start] by simp
  with nz2 zstd have "build_inv E (holds s2) b2 recs \<and> (\<forall>p<PARTITIONS. b_counts b2 ! p = 0 \<and> b_leaves b2 ! p = [])"
    by (intro build_finishes_inv [OF finish]) auto
  then have inv: "build_inv E (holds s2) b2 recs" and closed: "\<forall>p<PARTITIONS. b_counts b2 ! p = 0 \<and> b_leaves b2 ! p = []"
    by blast+
  from finished_parents [OF inv closed] obtain T where
    *: "\<forall>p\<in>{..<PARTITIONS}. list_all2 (parent_rep E (holds s2) p) (b_parents b2 ! p) (T p) \<and>
      index_size (b_parents b2 ! p) \<le> MAX_INDEX_BYTES \<and> concat (concat (T p)) = routes E p recs" ..
  then have T: "\<And>p. p < PARTITIONS \<Longrightarrow> list_all2 (parent_rep E (holds s2) p) (b_parents b2 ! p) (T p)"
    "\<And>p. p < PARTITIONS \<Longrightarrow> index_size (b_parents b2 ! p) \<le> MAX_INDEX_BYTES"
    "\<And>p. p < PARTITIONS \<Longrightarrow> concat (concat (T p)) = routes E p recs"
    by simp_all
  have wf: "length (b_parents b2) = PARTITIONS" and sorted: "ssorted (map rec_vkey recs)"
    using inv by (simp_all add: build_inv_def bstate_wf_def)
  have "\<exists>idx. root = (ROOT_MAGIC @ [VERSION]) @ concat (map ref_bytes idx) \<and> length idx = length (b_parents b2) \<and>
      (\<forall>i<length (b_parents b2). part_rep E (holds s3) (0 + i) (idx ! i) (T (0 + i)))"
    using slots nz3 by (rule build_root_slots_rep) (simp add: T wf routes_sorted [OF sorted])
  then obtain idx where idx: "root = root_bytes idx" "length idx = PARTITIONS" "\<And>i. i < PARTITIONS \<Longrightarrow> part_rep E (holds s3) i (idx ! i) (T i)"
    using wf by (auto simp: root_bytes_def)
  show ?thesis
    unfolding ob(3) using idx(2) sorted mono(1) idx(3) T(3) ob(1) [unfolded idx(1)] emit_held [OF ob(2)]
    by (rule root_object_rep)
qed

end

end
