(* ===== verification/Store.thy ===== *)
theory Store
  imports Fossil_Prelude "HOL-Library.AList"
begin

text \<open>
  \<^verbatim>\<open>src/store.rs\<close>: the interface \<^verbatim>\<open>ArchiveStore\<close> as a record of actions (a \<^verbatim>\<open>&dyn ArchiveStore\<close>),
  the in-memory store and the counting wrapper. A \<^verbatim>\<open>HashMap\<close> is an association list with one
  entry per key; the order in which a hash map lists its entries is not specified, and the
  model lists them in the order of the association list. A time is a number of seconds since
  the epoch. Mutexes are not modelled: an operation on the memory store is one step.
  The locale \<open>archive_laws\<close> states what the rest of the program relies on, for any store.
\<close>

section \<open>The interface\<close>

record versioned_bytes =
  v_bytes :: bytes
  v_version :: string

record listed =
  l_key :: string
  l_size :: u64
  l_modified :: nat

record 's archive_store =
  st_list :: "string \<Rightarrow> ('s, listed list) act"
  st_delete :: "string \<Rightarrow> ('s, unit) act"
  st_modified :: "string \<Rightarrow> ('s, nat option) act"
  st_get :: "string \<Rightarrow> ('s, bytes) act"
  st_get_bounded :: "string \<Rightarrow> nat \<Rightarrow> ('s, bytes) act"
  st_put_immutable :: "string \<Rightarrow> bytes \<Rightarrow> ('s, unit) act"
  st_read_mutable :: "string \<Rightarrow> ('s, versioned_bytes option) act"
  st_read_mutable_bounded :: "string \<Rightarrow> nat \<Rightarrow> ('s, versioned_bytes option) act"
  st_compare_and_swap :: "string \<Rightarrow> versioned_bytes option \<Rightarrow> bytes \<Rightarrow> ('s, unit) act"

section \<open>The memory store\<close>

record mem_entry =
  me_bytes :: bytes
  me_version :: u64

record mem_state =
  m_entries :: "(string \<times> mem_entry) list"
  m_next_version :: u64

definition mem_empty :: mem_state where
  "mem_empty = \<lparr>m_entries = [], m_next_version = 0\<rparr>"

definition mem_insert :: "string \<Rightarrow> bytes \<Rightarrow> mem_state \<Rightarrow> mem_state" where
  "mem_insert key bs s =
     (let version = m_next_version s + 1
      in \<lparr>m_entries = AList.update key \<lparr>me_bytes = bs, me_version = version\<rparr> (m_entries s), m_next_version = version\<rparr>)"

definition mem_list :: "string \<Rightarrow> (mem_state, listed list) act" where
  "mem_list pre s =
     (Inr (map (\<lambda>(key, entry). \<lparr>l_key = key, l_size = word_of_nat (length (me_bytes entry)), l_modified = 0\<rparr>)
             (filter (\<lambda>(key, entry). prefix pre key) (m_entries s))), s)"

definition mem_modified :: "string \<Rightarrow> (mem_state, nat option) act" where
  "mem_modified key s = (Inr (map_option (\<lambda>_. 0) (map_of (m_entries s) key)), s)"

definition mem_delete :: "string \<Rightarrow> (mem_state, unit) act" where
  "mem_delete key s = (Inr (), s\<lparr>m_entries := AList.delete key (m_entries s)\<rparr>)"

definition mem_get :: "string \<Rightarrow> (mem_state, bytes) act" where
  "mem_get key s =
     (case map_of (m_entries s) key of
        None \<Rightarrow> (bail (''object not found: '' @ key), s)
      | Some entry \<Rightarrow> (Inr (me_bytes entry), s))"

definition mem_get_bounded :: "string \<Rightarrow> nat \<Rightarrow> (mem_state, bytes) act" where
  "mem_get_bounded key maximum s =
     (case map_of (m_entries s) key of
        None \<Rightarrow> (bail (''object not found: '' @ key), s)
      | Some entry \<Rightarrow>
          if length (me_bytes entry) > maximum then (bail ''object metadata length exceeds bounded GET limit'', s)
          else (Inr (me_bytes entry), s))"

definition mem_put_immutable :: "string \<Rightarrow> bytes \<Rightarrow> (mem_state, unit) act" where
  "mem_put_immutable key bs s =
     (case map_of (m_entries s) key of
        Some entry \<Rightarrow> if me_bytes entry = bs then (Inr (), s) else (bail (''immutable object collision at '' @ key), s)
      | None \<Rightarrow> (Inr (), mem_insert key bs s))"

definition mem_versioned :: "mem_entry \<Rightarrow> versioned_bytes" where
  "mem_versioned entry = \<lparr>v_bytes = me_bytes entry, v_version = decimal (unat (me_version entry))\<rparr>"

definition mem_read_mutable :: "string \<Rightarrow> (mem_state, versioned_bytes option) act" where
  "mem_read_mutable key s = (Inr (map_option mem_versioned (map_of (m_entries s) key)), s)"

definition mem_read_mutable_bounded :: "string \<Rightarrow> nat \<Rightarrow> (mem_state, versioned_bytes option) act" where
  "mem_read_mutable_bounded key maximum s =
     (case map_of (m_entries s) key of
        None \<Rightarrow> (Inr None, s)
      | Some entry \<Rightarrow>
          if length (me_bytes entry) > maximum then (bail ''mutable object exceeds bounded read limit'', s)
          else (Inr (Some (mem_versioned entry)), s))"

definition mem_compare_and_swap :: "string \<Rightarrow> versioned_bytes option \<Rightarrow> bytes \<Rightarrow> (mem_state, unit) act" where
  "mem_compare_and_swap key expected bs s =
     (let matches = (case (expected, map_of (m_entries s) key) of
                       (None, None) \<Rightarrow> True
                     | (Some expected, Some current) \<Rightarrow> v_version expected = decimal (unat (me_version current))
                     | _ \<Rightarrow> False)
      in if \<not> matches then (bail ''conditional head update failed'', s) else (Inr (), mem_insert key bs s))"

definition memory_store :: "mem_state archive_store" where
  "memory_store = \<lparr>st_list = mem_list, st_delete = mem_delete, st_modified = mem_modified, st_get = mem_get,
     st_get_bounded = mem_get_bounded, st_put_immutable = mem_put_immutable, st_read_mutable = mem_read_mutable,
     st_read_mutable_bounded = mem_read_mutable_bounded, st_compare_and_swap = mem_compare_and_swap\<rparr>"

section \<open>The counting wrapper\<close>

record counters =
  ct_gets :: u64
  ct_bytes :: u64

text \<open>\<open>inner\<close> runs an operation of the wrapped store; \<open>count\<close> adds one request of \<open>n\<close> bytes.\<close>

definition inner :: "('s, 'a) act \<Rightarrow> (counters \<times> 's, 'a) act" where
  "inner m = (\<lambda>(c, s). case m s of (r, s) \<Rightarrow> (r, (c, s)))"

definition count :: "nat \<Rightarrow> counters \<Rightarrow> counters" where
  "count n c = \<lparr>ct_gets = ct_gets c + 1, ct_bytes = ct_bytes c + word_of_nat n\<rparr>"

definition counting_take :: "(counters \<times> 's, u64 \<times> u64) act" where
  "counting_take = (\<lambda>(c, s). (Inr (ct_gets c, ct_bytes c), (\<lparr>ct_gets = 0, ct_bytes = 0\<rparr>, s)))"

definition counting_get :: "'s archive_store \<Rightarrow> string \<Rightarrow> (counters \<times> 's, bytes) act" where
  "counting_get S key = (\<lambda>(c, s).
     case st_get S key s of
       (Inl e, s) \<Rightarrow> (Inl e, (c, s))
     | (Inr bs, s) \<Rightarrow> (Inr bs, (count (length bs) c, s)))"

definition counting_get_bounded :: "'s archive_store \<Rightarrow> string \<Rightarrow> nat \<Rightarrow> (counters \<times> 's, bytes) act" where
  "counting_get_bounded S key maximum = (\<lambda>(c, s).
     case st_get_bounded S key maximum s of
       (r, s) \<Rightarrow> (r, (count (case r of Inl e \<Rightarrow> 0 | Inr bs \<Rightarrow> length bs) c, s)))"

definition counting_read :: "('s, 'a) act \<Rightarrow> (counters \<times> 's, 'a) act" where
  "counting_read m = (\<lambda>(c, s). case m s of (r, s) \<Rightarrow> (r, (count 0 c, s)))"

definition counting_store :: "'s archive_store \<Rightarrow> (counters \<times> 's) archive_store" where
  "counting_store S = \<lparr>st_list = (\<lambda>p. inner (st_list S p)), st_delete = (\<lambda>k. inner (st_delete S k)),
     st_modified = (\<lambda>k. inner (st_modified S k)), st_get = counting_get S, st_get_bounded = counting_get_bounded S,
     st_put_immutable = (\<lambda>k bs. inner (st_put_immutable S k bs)),
     st_read_mutable = (\<lambda>k. counting_read (st_read_mutable S k)),
     st_read_mutable_bounded = (\<lambda>k n. counting_read (st_read_mutable_bounded S k n)),
     st_compare_and_swap = (\<lambda>k v bs. inner (st_compare_and_swap S k v bs))\<rparr>"

section \<open>The laws\<close>

text \<open>
  \<open>contents\<close> is what a store holds under each key and \<open>version\<close> the version a conditional update
  must present. Reads return what is held and change neither; an immutable put adds its object
  and never replaces another one; a conditional update replaces exactly its key, and only
  against the current version. \<open>fails\<close> is the class of errors a store may raise by itself.
\<close>

locale archive_laws =
  fixes S :: "'s archive_store"
    and contents :: "'s \<Rightarrow> string \<Rightarrow> bytes option"
    and version :: "'s \<Rightarrow> string \<Rightarrow> string option"
    and fails :: "error \<Rightarrow> bool"
  assumes fails_Ctx: "fails e \<Longrightarrow> fails (Ctx msg e)"
    and version_dom: "version s k = None \<longleftrightarrow> contents s k = None"
    and get_held: "contents s k = Some bs \<Longrightarrow> length bs \<le> n \<Longrightarrow>
      outcome fails (\<lambda>b s'. b = bs \<and> contents s' = contents s \<and> version s' = version s) (st_get_bounded S k n s)"
    and get_sound: "st_get_bounded S k n s = (res_get, s') \<Longrightarrow>
      contents s' = contents s \<and> version s' = version s \<and> (\<forall>b. res_get = Inr b \<longrightarrow> contents s k = Some b \<and> length b \<le> n)"
    and put_fresh: "contents s k = None \<or> contents s k = Some bs \<Longrightarrow>
      outcome fails (\<lambda>_ s'. contents s' = (contents s)(k \<mapsto> bs)) (st_put_immutable S k bs s)"
    and put_sound: "st_put_immutable S k bs s = (res_put, s') \<Longrightarrow>
      (contents s' = contents s \<or> contents s k = None \<and> contents s' = (contents s)(k \<mapsto> bs)) \<and>
      (\<forall>u. res_put = Inr u \<longrightarrow> contents s' k = Some bs) \<and> (\<forall>k'. k' \<noteq> k \<longrightarrow> version s' k' = version s k')"
    and read_sound: "st_read_mutable_bounded S k n s = (res_read, s') \<Longrightarrow>
      contents s' = contents s \<and> version s' = version s \<and> (res_read = Inr None \<longrightarrow> contents s k = None) \<and>
      (\<forall>v. res_read = Inr (Some v) \<longrightarrow> contents s k = Some (v_bytes v) \<and> version s k = Some (v_version v) \<and> length (v_bytes v) \<le> n)"
    and read_held: "length (the (contents s k)) \<le> n \<or> contents s k = None \<Longrightarrow>
      outcome fails (\<lambda>r s'. map_option v_bytes r = contents s k) (st_read_mutable_bounded S k n s)"
    and cas_sound: "st_compare_and_swap S k expected bs s = (res_cas, s') \<Longrightarrow>
      (case res_cas of
         Inr _ \<Rightarrow> version s k = map_option v_version expected \<and> contents s' = (contents s)(k \<mapsto> bs)
       | Inl _ \<Rightarrow> contents s' = contents s \<and> version s' = version s)"
begin

lemma put_mono: "st_put_immutable S k bs s = (r, s') \<Longrightarrow> contents s \<subseteq>\<^sub>m contents s'"
  using put_sound [of k bs s r s'] by (auto simp: map_le_def)

lemma put_held: "st_put_immutable S k bs s = (Inr u, s') \<Longrightarrow> contents s' = (contents s)(k \<mapsto> bs)"
  using put_sound [of k bs s "Inr u" s'] by (auto simp: fun_eq_iff)

text \<open>Counting requests changes nothing else of a store.\<close>

lemma counting_laws:
  "archive_laws (counting_store S) (\<lambda>cs. contents (snd cs)) (\<lambda>cs. version (snd cs)) fails"
proof
  fix cs :: "counters \<times> 's" and k n bs
  show "contents (snd cs) k = Some bs \<Longrightarrow> length bs \<le> n \<Longrightarrow>
    outcome fails (\<lambda>b s'. b = bs \<and> contents (snd s') = contents (snd cs) \<and> version (snd s') = version (snd cs))
      (st_get_bounded (counting_store S) k n cs)"
    using get_held [of "snd cs" k bs n]
    by (auto simp: counting_store_def counting_get_bounded_def outcome_def split: prod.splits sum.splits)
  show "contents (snd cs) k = None \<or> contents (snd cs) k = Some bs \<Longrightarrow>
    outcome fails (\<lambda>_ s'. contents (snd s') = (contents (snd cs))(k \<mapsto> bs)) (st_put_immutable (counting_store S) k bs cs)"
    using put_fresh [of "snd cs" k bs] by (auto simp: counting_store_def inner_def outcome_def split: prod.splits sum.splits)
  show "length (the (contents (snd cs) k)) \<le> n \<or> contents (snd cs) k = None \<Longrightarrow>
    outcome fails (\<lambda>r s'. map_option v_bytes r = contents (snd cs) k) (st_read_mutable_bounded (counting_store S) k n cs)"
    using read_held [of "snd cs" k n]
    by (auto simp: counting_store_def counting_read_def outcome_def split: prod.splits sum.splits)
qed (auto simp: fails_Ctx version_dom counting_store_def counting_get_bounded_def counting_read_def inner_def
    split: prod.splits sum.splits dest!: get_sound put_sound read_sound cas_sound)

end

section \<open>The memory store satisfies the laws\<close>

definition mem_contents :: "mem_state \<Rightarrow> string \<Rightarrow> bytes option" where
  "mem_contents s k = map_option me_bytes (map_of (m_entries s) k)"

definition mem_version :: "mem_state \<Rightarrow> string \<Rightarrow> string option" where
  "mem_version s k = map_option (\<lambda>e. decimal (unat (me_version e))) (map_of (m_entries s) k)"

lemma mem_insert_contents [simp]: "mem_contents (mem_insert k bs s) = (mem_contents s)(k \<mapsto> bs)"
  by (auto simp: mem_contents_def mem_insert_def Let_def update_conv' fun_eq_iff)

lemma mem_insert_version: "k' \<noteq> k \<Longrightarrow> mem_version (mem_insert k bs s) k' = mem_version s k'"
  by (simp add: mem_version_def mem_insert_def Let_def update_conv')

lemmas mem_ops = mem_get_bounded_def mem_put_immutable_def mem_read_mutable_bounded_def mem_compare_and_swap_def
  mem_versioned_def

interpretation mem: archive_laws memory_store mem_contents mem_version "\<lambda>_. False"
proof
  fix s k n r s' bs expected
  show "mem_version s k = None \<longleftrightarrow> mem_contents s k = None" by (simp add: mem_version_def mem_contents_def)
  show "mem_contents s k = Some bs \<Longrightarrow> length bs \<le> n \<Longrightarrow>
    outcome (\<lambda>_. False) (\<lambda>b s'. b = bs \<and> mem_contents s' = mem_contents s \<and> mem_version s' = mem_version s)
      (st_get_bounded memory_store k n s)"
    by (auto simp: memory_store_def mem_ops mem_contents_def split: option.splits)
  show "mem_contents s k = None \<or> mem_contents s k = Some bs \<Longrightarrow>
    outcome (\<lambda>_. False) (\<lambda>_ s'. mem_contents s' = (mem_contents s)(k \<mapsto> bs)) (st_put_immutable memory_store k bs s)"
    by (cases "map_of (m_entries s) k")
      (auto simp: memory_store_def mem_put_immutable_def fun_upd_idem, auto simp: mem_contents_def fun_upd_idem)
  show "length (the (mem_contents s k)) \<le> n \<or> mem_contents s k = None \<Longrightarrow>
    outcome (\<lambda>_. False) (\<lambda>r s'. map_option v_bytes r = mem_contents s k) (st_read_mutable_bounded memory_store k n s)"
    by (auto simp: memory_store_def mem_ops mem_contents_def split: option.splits)
  show "st_put_immutable memory_store k bs s = (r, s') \<Longrightarrow>
      (mem_contents s' = mem_contents s \<or> mem_contents s k = None \<and> mem_contents s' = (mem_contents s)(k \<mapsto> bs)) \<and>
      (\<forall>u. r = Inr u \<longrightarrow> mem_contents s' k = Some bs) \<and> (\<forall>k'. k' \<noteq> k \<longrightarrow> mem_version s' k' = mem_version s k')"
    by (auto simp: memory_store_def mem_ops mem_insert_version split: option.splits if_splits) (auto simp: mem_contents_def)
next
  fix s k n and r :: "bytes result" and s'
  assume "st_get_bounded memory_store k n s = (r, s')"
  then show "mem_contents s' = mem_contents s \<and> mem_version s' = mem_version s \<and>
      (\<forall>b. r = Inr b \<longrightarrow> mem_contents s k = Some b \<and> length b \<le> n)"
    by (auto simp: memory_store_def mem_ops mem_contents_def split: option.splits if_splits)
next
  fix s k n and r :: "versioned_bytes option result" and s'
  assume "st_read_mutable_bounded memory_store k n s = (r, s')"
  then show "mem_contents s' = mem_contents s \<and> mem_version s' = mem_version s \<and> (r = Inr None \<longrightarrow> mem_contents s k = None) \<and>
      (\<forall>v. r = Inr (Some v) \<longrightarrow> mem_contents s k = Some (v_bytes v) \<and> mem_version s k = Some (v_version v) \<and> length (v_bytes v) \<le> n)"
    by (auto simp: memory_store_def mem_ops mem_contents_def mem_version_def split: option.splits if_splits)
next
  fix s k expected bs and r :: "unit result" and s'
  assume "st_compare_and_swap memory_store k expected bs s = (r, s')"
  then show "case r of
         Inr _ \<Rightarrow> mem_version s k = map_option v_version expected \<and> mem_contents s' = (mem_contents s)(k \<mapsto> bs)
       | Inl _ \<Rightarrow> mem_contents s' = mem_contents s \<and> mem_version s' = mem_version s"
    by (auto simp: memory_store_def mem_ops mem_version_def bail_def Let_def split: option.splits if_splits)
qed simp

interpretation counted: archive_laws "counting_store memory_store" "\<lambda>cs. mem_contents (snd cs)" "\<lambda>cs. mem_version (snd cs)" "\<lambda>_. False"
  by (rule mem.counting_laws)

end
