(* ===== verification/Compact.thy ===== *)
theory Compact
  imports Run_Scanner Run_Builder Summary Store
begin

text \<open>
  The first part of \<^verbatim>\<open>src/compact.rs\<close>: fetching a run object from a store and writing a run and its
  summary from sorted records. Uploads are modelled in the order in which the code issues them.
  A store that satisfies its laws is a source and a sink of run objects, so that the results on
  readers and on the builder hold for it; a written run represents the records it was given,
  its root is returned beside it, and its summary shards answer for every key.
\<close>

section \<open>Operations\<close>

definition PAGE_LIMIT :: nat where "PAGE_LIMIT = 1024 * 1024"

record built_run =
  br_root :: obj_ref
  br_root_bytes :: bytes
  br_keys :: u64
  br_shards :: u32

definition fetch :: "'x ext_scheme \<Rightarrow> 's archive_store \<Rightarrow> obj_ref \<Rightarrow> ('s, bytes) act" where
  "fetch E S r =
     (let limit = unat (ref_length r)
      in if limit = 0 \<or> limit > PAGE_LIMIT \<or> ref_digest r = 0 then bail_a ''invalid run object reference''
         else
           bind_a (st_get_bounded S (object_key E (ref_digest r)) limit) (\<lambda>bytes.
             if length bytes \<noteq> limit \<or> sha256 E bytes \<noteq> ref_digest r
             then bail_a ''run object digest or length mismatch''
             else ret bytes))"

definition put_all :: "'s archive_store \<Rightarrow> (string \<times> bytes) list \<Rightarrow> ('s, unit) act" where
  "put_all S objects = fold_a (\<lambda>_ (key, bytes). st_put_immutable S key bytes) () objects"

text \<open>Uploading one object of a run.\<close>

definition put_object :: "'x ext_scheme \<Rightarrow> 's archive_store \<Rightarrow> encoded_object \<Rightarrow> ('s, unit) act" where
  "put_object E S ob = st_put_immutable S (object_key E (ref_digest (obj_reference ob))) (obj_bytes ob)"

subsection \<open>Writing sorted records\<close>

text \<open>The keys of records whose predecessor has another key.\<close>

definition new_keys :: "krecord list \<Rightarrow> bytes list" where
  "new_keys records =
     map (\<lambda>(index, record). rec_key record)
       (filter (\<lambda>(index, record). index = 0 \<or> rec_key (records ! (index - 1)) \<noteq> rec_key record) (enumerate 0 records))"

text \<open>The closure that collects emitted objects.\<close>

definition push_object :: "'x ext_scheme \<Rightarrow> encoded_object \<Rightarrow> ((string \<times> bytes) list, unit) act" where
  "push_object E ob objects = (Inr (), objects @ [(object_key E (ref_digest (obj_reference ob)), obj_bytes ob)])"

definition write_sorted :: "'x ext_scheme \<Rightarrow> 's archive_store \<Rightarrow> krecord list \<Rightarrow> ('s, built_run) act" where
  "write_sorted E S records =
     bind_a (lift_r (summary_new (word_of_nat (length (new_keys records))))) (\<lambda>summary.
       let summary = summary_adds E (new_keys records) summary
       in case build E (push_object E) records [] of
            (Inl e, objects) \<Rightarrow> lift_r (Inl e)
          | (Inr root, objects) \<Rightarrow>
              bind_a (put_all S objects) (\<lambda>_.
              bind_a (put_all S (summary_finish E summary (ref_digest root))) (\<lambda>_.
                ret \<lparr>br_root = root, br_root_bytes = snd (last objects), br_keys = sb_keys summary,
                  br_shards = sb_shards summary\<rparr>)))"

section \<open>What writing keeps\<close>

text \<open>
  A run touches a store only by bounded reads and by immutable puts under object and summary
  keys: whatever these keep of the store's state, the operations on runs keep.
\<close>

definition immutable_keys :: "string set" where
  "immutable_keys = {k. prefix ''objects/'' k \<or> prefix ''summaries/'' k}"

definition store_keeps :: "'s archive_store \<Rightarrow> ('s \<Rightarrow> 'p::preorder) \<Rightarrow> bool" where
  "store_keeps S f \<longleftrightarrow> (\<forall>k n. keeps (grows f) (st_get_bounded S k n)) \<and>
     (\<forall>k bs. k \<in> immutable_keys \<longrightarrow> keeps (grows f) (st_put_immutable S k bs))"

lemma immutable_key [simp]: "object_key E d \<in> immutable_keys" "shard_path E run shards kind i \<in> immutable_keys"
  by (simp_all add: immutable_keys_def object_key_def shard_path_def Let_def)

lemma summary_finish_keys: "fst ` set (summary_finish E b run) \<subseteq> immutable_keys"
  by (auto simp: summary_finish_def Let_def)

lemma fetch_keep: "store_keeps S f \<Longrightarrow> keeps (grows f) (fetch E S r)"
  by (auto simp: fetch_def Let_def store_keeps_def intro!: keeps_rules)

lemma put_object_keep: "store_keeps S f \<Longrightarrow> keeps (grows f) (put_object E S ob)"
  by (simp add: put_object_def store_keeps_def)

lemma put_all_keep:
  assumes "store_keeps S f" "fst ` set objects \<subseteq> immutable_keys"
  shows "keeps (grows f) (put_all S objects)"
  using assms(2)
proof (induction objects)
  case (Cons ob objects)
  with assms(1) show ?case by (cases ob) (auto simp: put_all_def store_keeps_def intro!: keeps_rules)
qed (auto simp: put_all_def intro!: keeps_rules)

lemma pushed_keys:
  assumes "build E (push_object E) recs [] = (res, objects)"
  shows "fst ` set objects \<subseteq> immutable_keys"
proof -
  have "keeps (grows (\<lambda>objects. fst ` set objects \<subseteq> immutable_keys)) (push_object E ob)" for ob
    by (simp add: keeps_def push_object_def)
  from keepsD [OF build_keep(7) [OF this] assms] show ?thesis by simp
qed

lemma write_sorted_keep:
  assumes "store_keeps S f"
  shows "keeps (grows f) (write_sorted E S recs)"
proof (cases "build E (push_object E) recs []")
  case (Pair res objects)
  show ?thesis
    unfolding write_sorted_def Let_def Pair prod.case
    by (cases res) (auto intro!: keeps_rules put_all_keep [OF assms summary_finish_keys] put_all_keep [OF assms pushed_keys [OF Pair]])
qed

section \<open>A store as a source and a sink of objects\<close>

definition store_holds :: "'x ext_scheme \<Rightarrow> (string \<Rightarrow> bytes option) \<Rightarrow> holding" where
  "store_holds E c r bs \<longleftrightarrow> c (object_key E (ref_digest r)) = Some bs"

text \<open>The stored objects that \<open>fetch\<close> accepts.\<close>

definition stored :: "'x ext_scheme \<Rightarrow> (string \<Rightarrow> bytes option) \<Rightarrow> holding" where
  "stored E c r bs \<longleftrightarrow> store_holds E c r bs \<and> fetchable E r bs"

definition collected :: "'x ext_scheme \<Rightarrow> (string \<times> bytes) list \<Rightarrow> holding" where
  "collected E objects r bs \<longleftrightarrow> (object_key E (ref_digest r), bs) \<in> set objects"

lemma map_leD: "c k = Some v \<Longrightarrow> c \<subseteq>\<^sub>m c' \<Longrightarrow> c' k = Some v"
  by (auto simp: map_le_def dom_def)

lemma has_le_iff: "(\<lambda>k b. c k = Some b) \<le> (\<lambda>k b. c' k = Some b) \<longleftrightarrow> c \<subseteq>\<^sub>m c'"
  by (auto simp: map_le_def dom_def le_fun_def)

lemma store_holds_mono: "c \<subseteq>\<^sub>m c' \<Longrightarrow> store_holds E c \<le> store_holds E c'"
  by (auto simp: store_holds_def map_le_def dom_def)

lemma stored_mono: "c \<subseteq>\<^sub>m c' \<Longrightarrow> stored E c \<le> stored E c'"
  using store_holds_mono [of c c' E] by (auto simp: stored_def)

lemma stored_unique: "stored E c r bs \<Longrightarrow> stored E c r' bs' \<Longrightarrow> ref_digest r = ref_digest r' \<Longrightarrow> bs = bs'"
  by (simp add: stored_def store_holds_def)

lemma run_rep_stored: "run_rep E (store_holds E c) root recs \<Longrightarrow> nonzero (store_holds E c) \<Longrightarrow> run_rep E (stored E c) root recs"
  using run_rep_fetchable [of E "store_holds E c" root recs] by (simp add: stored_def [abs_def])

interpretation collect: object_sink "push_object E" "collected E" for E :: "'x ext_scheme"
  by unfold_locales (auto simp: push_object_def collected_def)

context archive_laws begin

lemma fetch_stored:
  assumes "stored E (contents s) r bs"
  shows "outcome fails (\<lambda>b s'. b = bs \<and> contents s' = contents s) (fetch E S r s)"
proof -
  have "outcome fails (\<lambda>b s'. b = bs \<and> contents s' = contents s \<and> version s' = version s)
      (st_get_bounded S (object_key E (ref_digest r)) (unat (ref_length r)) s)"
    using assms by (intro get_held) (auto simp: stored_def store_holds_def fetchable_def)
  then show ?thesis
    using assms by (auto simp: fetch_def Let_def stored_def fetchable_def PAGE_LIMIT_def MAX_PAGE_BYTES_def
        unat_eq_zero elim!: outcome_mono)
qed

lemma fetch_contents: "fetch E S r s = (res, s') \<Longrightarrow> contents s' = contents s"
  by (cases "st_get_bounded S (object_key E (ref_digest r)) (unat (ref_length r)) s"; cases "fst (st_get_bounded S (object_key E (ref_digest r)) (unat (ref_length r)) s)")
    (auto simp: fetch_def Let_def bind_a_def dest!: get_sound split: if_splits)

text \<open>What a successful fetch returns has the digest and the length of its reference.\<close>

lemma fetch_sound: "fetch E S r s = (Inr bs, s') \<Longrightarrow> stored E (contents s) r bs"
  by (auto simp: fetch_def Let_def stored_def fetchable_def store_holds_def PAGE_LIMIT_def MAX_PAGE_BYTES_def
      dest!: get_sound split: if_splits)

lemma put_all_mono: "put_all S objects s = (res, s') \<Longrightarrow> contents s \<subseteq>\<^sub>m contents s'"
proof (induction objects arbitrary: s)
  case Nil
  then show ?case by (simp add: put_all_def)
next
  case (Cons ob objects)
  obtain r t where t: "st_put_immutable S (fst ob) (snd ob) s = (r, t)" by fastforce
  then have "contents s \<subseteq>\<^sub>m contents t" by (rule put_mono)
  with t Cons show ?case
    by (cases r; cases ob) (auto simp: put_all_def bind_a_step intro: map_le_trans)
qed

lemma put_all_held: "put_all S objects s = (Inr u, s') \<Longrightarrow> (k, bs) \<in> set objects \<Longrightarrow> contents s' k = Some bs"
proof (induction objects arbitrary: s)
  case Nil
  then show ?case by simp
next
  case (Cons ob objects)
  from Cons.prems(1) obtain t u' where t: "st_put_immutable S (fst ob) (snd ob) s = (Inr u', t)"
    and rest: "put_all S objects t = (Inr u, s')" by (auto simp: put_all_def split: prod.splits)
  show ?case
  proof (cases "(k, bs) = ob")
    case True
    then have "contents t k = Some bs" using put_held [OF t] by auto
    then show ?thesis using put_all_mono [OF rest] by (auto simp: map_le_def dom_def)
  qed (use Cons.IH [OF rest] Cons.prems(2) in auto)
qed

end

sublocale archive_laws \<subseteq> source: object_source "fetch E S" "\<lambda>s. stored E (contents s)" fails for E :: "'x ext_scheme"
  by unfold_locales (auto intro: fails_Ctx elim!: outcome_mono dest!: fetch_stored)

sublocale archive_laws \<subseteq> sink: object_sink "put_object E S" "\<lambda>s. store_holds E (contents s)" for E :: "'x ext_scheme"
  by unfold_locales (auto simp: put_object_def store_holds_def dest: put_held intro: store_holds_mono [THEN predicate2D] put_mono)

section \<open>Written runs\<close>

text \<open>The stored shards of a run answer ``maybe'' for \<open>k\<close>, following the probes of a reader.\<close>

definition answers :: "'x ext_scheme \<Rightarrow> (string \<Rightarrow> bytes option) \<Rightarrow> hash32 \<Rightarrow> u32 \<Rightarrow> bytes \<Rightarrow> bool" where
  "answers E c run shards k \<longleftrightarrow>
     (let p = probe_new E k shards
      in \<exists>bs sh. c (shard_path E run shards Address (probe_address_index p)) = Some bs \<and>
           shard_decode E run Address (probe_address_index p) shards bs = Inr sh \<and>
           (shard_contains E sh k \<or> shard_contains E sh (probe_marker p) \<and>
             (\<exists>bs' sh'. c (shard_path E run shards Spill (probe_spill_index p)) = Some bs' \<and>
               shard_decode E run Spill (probe_spill_index p) shards bs' = Inr sh' \<and> shard_contains E sh' k)))"

lemma answers_mono: "answers E c run shards k \<Longrightarrow> c \<subseteq>\<^sub>m c' \<Longrightarrow> answers E c' run shards k"
  unfolding answers_def Let_def by (blast dest: map_leD)

text \<open>Every shard a probe can ask for is stored.\<close>

definition shards_stored :: "'x ext_scheme \<Rightarrow> (string \<Rightarrow> bytes option) \<Rightarrow> hash32 \<Rightarrow> u32 \<Rightarrow> bool" where
  "shards_stored E c run shards \<longleftrightarrow> is_power_of_two shards \<and>
     (\<forall>kind i. i < shards \<longrightarrow> (\<exists>bs sh. c (shard_path E run shards kind i) = Some bs \<and> shard_decode E run kind i shards bs = Inr sh))"

lemma shards_stored_mono: "shards_stored E c run shards \<Longrightarrow> c \<subseteq>\<^sub>m c' \<Longrightarrow> shards_stored E c' run shards"
  unfolding shards_stored_def by (blast dest: map_leD)

text \<open>A stored run with its summary.\<close>

definition built_rep :: "'x ext_scheme \<Rightarrow> (string \<Rightarrow> bytes option) \<Rightarrow> built_run \<Rightarrow> krecord list \<Rightarrow> bool" where
  "built_rep E c b recs \<longleftrightarrow>
     run_rep E (store_holds E c) (br_root b) recs \<and> store_holds E c (br_root b) (br_root_bytes b) \<and>
     shards_stored E c (ref_digest (br_root b)) (br_shards b) \<and>
     (\<forall>r\<in>set recs. answers E c (ref_digest (br_root b)) (br_shards b) (rec_key r))"

lemma built_rep_mono:
  assumes "built_rep E c b recs" "c \<subseteq>\<^sub>m c'"
  shows "built_rep E c' b recs"
  using assms(1) run_rep_mono [OF _ store_holds_mono [OF assms(2)]] store_holds_mono [OF assms(2), of E]
  by (auto simp: built_rep_def intro: answers_mono [OF _ assms(2)] shards_stored_mono [OF _ assms(2)])

lemma set_new_keys: "set (new_keys recs) = rec_key ` set recs"
proof (intro equalityI subsetI)
  fix k assume "k \<in> rec_key ` set recs"
  then have ex: "\<exists>i. i < length recs \<and> rec_key (recs ! i) = k" by (auto simp: in_set_conv_nth)
  define i where "i = (LEAST i. i < length recs \<and> rec_key (recs ! i) = k)"
  have i: "i < length recs" "rec_key (recs ! i) = k" using LeastI_ex [OF ex] by (simp_all add: i_def)
  have "rec_key (recs ! j) \<noteq> k" if "j < i" for j
    using not_less_Least [OF that [unfolded i_def]] that i(1) by auto
  then have "i = 0 \<or> rec_key (recs ! (i - 1)) \<noteq> k" by (cases i) auto
  moreover have "(i, recs ! i) \<in> set (enumerate 0 recs)" using i(1) by (simp add: in_set_enumerate_eq)
  ultimately show "k \<in> set (new_keys recs)"
    using i(2) by (force simp: new_keys_def)
qed (auto simp: new_keys_def in_set_enumerate_eq)

lemma collected_build:
  assumes "build E (push_object E) recs [] = (Inr root, objects)"
  shows "collected E objects root (snd (last objects))" "build E (push_object E) recs [] = (Inr root, objects)"
  using assms by (auto simp: build_def collected_def push_object_def ctx_a_def)

context archive_laws begin

lemma summary_put_answers:
  assumes "put_all S (summary_finish E b run) s = (Inr u, s')"
    and "summary_new n = Inr b0" "b = summary_adds E keys b0" "k \<in> set keys"
  shows "answers E (contents s') run (sb_shards b) k"
  using summary_complete [where E = E and run = run, OF assms(2-4)] put_all_held [OF assms(1)]
  unfolding answers_def Let_def by meson

lemma summary_put_shards:
  assumes "put_all S (summary_finish E b run) s = (Inr u, s')"
    and "summary_new n = Inr b0" "b = summary_adds E keys b0"
  shows "shards_stored E (contents s') run (sb_shards b)"
  using summary_shards [where E = E and run = run, OF assms(2,3)] put_all_held [OF assms(1)] summary_flushed(3) [OF assms(2)] assms(3)
  unfolding shards_stored_def word_less_nat_alt by simp meson

theorem write_sorted_correct:
  assumes run: "write_sorted E S recs s = (Inr b, s')" and zstd: "zstd_roundtrip E"
    and nz: "nonzero (store_holds E (contents s'))"
  shows "built_rep E (contents s') b recs"
proof -
  from run obtain b0 root objects t where b0: "summary_new (word_of_nat (length (new_keys recs))) = Inr b0"
    and build: "build E (push_object E) recs [] = (Inr root, objects)"
    and objects: "put_all S objects s = (Inr (), t)"
    and shards: "put_all S (summary_finish E (summary_adds E (new_keys recs) b0) (ref_digest root)) t = (Inr (), s')"
    and b: "b = \<lparr>br_root = root, br_root_bytes = snd (last objects), br_keys = sb_keys (summary_adds E (new_keys recs) b0),
      br_shards = sb_shards b0\<rparr>"
    by (cases "build E (push_object E) recs []"; cases "fst (build E (push_object E) recs [])")
      (auto simp: write_sorted_def Let_def)
  have mono: "contents t \<subseteq>\<^sub>m contents s'" using shards by (rule put_all_mono)
  have held: "collected E objects \<le> store_holds E (contents s')"
    using put_all_held [OF objects] mono by (auto simp: collected_def store_holds_def map_le_def dom_def)
  have "run_rep E (store_holds E (contents s')) root recs"
    using collect.build_rep [OF build zstd nonzero_mono [OF nz held]] held by (rule run_rep_mono)
  moreover have "store_holds E (contents s') root (snd (last objects))"
    using collected_build(1) [OF build] held by auto
  moreover have "answers E (contents s') (ref_digest root) (sb_shards b0) (rec_key r)" if "r \<in> set recs" for r
    using summary_put_answers [OF shards b0 refl, of "rec_key r"] that by (simp add: set_new_keys)
  moreover have "shards_stored E (contents s') (ref_digest root) (sb_shards b0)"
    using summary_put_shards [OF shards b0 refl] by simp
  ultimately show ?thesis by (simp add: built_rep_def b)
qed

text \<open>What a store holds only grows; what it holds elsewhere does not change.\<close>

definition outside :: "'s \<Rightarrow> (string \<Rightarrow> bytes option) \<times> (string \<Rightarrow> string option)" where
  "outside s = (contents s |` (- immutable_keys), version s |` (- immutable_keys))"

lemma keeps_contents: "store_keeps S (\<lambda>s k b. contents s k = Some b)"
  unfolding store_keeps_def
proof (intro conjI allI impI keepsI)
  fix k n s res s' assume "st_get_bounded S k n s = (res, s')"
  from get_sound [OF this] show "(\<lambda>k b. contents s k = Some b) \<le> (\<lambda>k b. contents s' k = Some b)" by simp
next
  fix k bs s res s' assume "st_put_immutable S k bs s = (res, s')"
  from put_mono [OF this] show "(\<lambda>k b. contents s k = Some b) \<le> (\<lambda>k b. contents s' k = Some b)" by (auto elim: map_leD)
qed

lemma keeps_outside: "store_keeps S (\<lambda>s x. x = outside s)"
  unfolding store_keeps_def
proof (intro conjI allI impI keepsI)
  fix k n s res s' assume "st_get_bounded S k n s = (res, s')"
  from get_sound [OF this] show "(\<lambda>x. x = outside s) \<le> (\<lambda>x. x = outside s')" by (simp add: outside_def)
next
  fix k bs s res s' assume "st_put_immutable S k bs s = (res, s')" "k \<in> immutable_keys"
  with put_sound [OF this(1)] have "outside s' = outside s" by (auto simp: outside_def restrict_map_def fun_eq_iff)
  then show "(\<lambda>x. x = outside s) \<le> (\<lambda>x. x = outside s')" by simp
qed

lemma write_sorted_mono: "write_sorted E S recs s = (res, s') \<Longrightarrow> contents s \<subseteq>\<^sub>m contents s'"
  using keepsD [OF write_sorted_keep [OF keeps_contents]] by (simp add: has_le_iff)

lemma write_sorted_outside: "write_sorted E S recs s = (res, s') \<Longrightarrow> outside s' = outside s"
  by (drule keepsD [OF write_sorted_keep [OF keeps_outside]]) (simp add: le_fun_def)

end

lemma built_reader:
  assumes "built_rep E c b recs" "nonzero (store_holds E c)"
  obtains rr where "decode_root E (br_root b) (br_root_bytes b) = Inr rr" "reader_rep E (stored E c) rr recs"
    "stored E c (br_root b) (br_root_bytes b)"
proof -
  from assms have "run_rep E (stored E c) (br_root b) recs" by (intro run_rep_stored) (simp_all add: built_rep_def)
  then obtain bs rr where "stored E c (br_root b) bs" "decode_root E (br_root b) bs = Inr rr" "reader_rep E (stored E c) rr recs"
    by (auto simp: run_rep_def)
  moreover from this assms(1) have "bs = br_root_bytes b" by (simp add: built_rep_def stored_def store_holds_def)
  ultimately show thesis using that by simp
qed

lemma nonzero_mem: "mem_contents s (object_key E 0) = None \<Longrightarrow> nonzero (store_holds E (mem_contents s))"
  by (auto simp: nonzero_def store_holds_def)

end
