(* ===== verification/Merge.thy ===== *)
theory Merge
  imports Compact "HOL-Library.Multiset"
begin

text \<open>
  The second part of \<^verbatim>\<open>src/compact.rs\<close>: the read-ahead cache of a merge and the k-way merge of
  adjacent runs. \<open>merge_runs\<close> runs its three concurrent tasks one after
  the other: the producer sends its records, the builder consumes them and its objects are
  uploaded; reads and create-only writes of a store do not affect each other. When the builder
  or an upload fails, the producer or the builder may notice it as a closed channel, and which
  error is returned depends on the scheduling; the model returns the original one.
\<close>

section \<open>Operations\<close>

definition READ_AHEAD :: nat where "READ_AHEAD = 8"

subsection \<open>Reading ahead\<close>

record read_ahead =
  ra_order :: "(hash32 \<times> (nat \<times> nat)) list"
  ra_lists :: "obj_ref list list"

text \<open>\<^verbatim>\<open>order.entry(page.digest).or_insert((list, position))\<close> over all pages.\<close>

definition read_ahead_order :: "obj_ref list list \<Rightarrow> (hash32 \<times> (nat \<times> nat)) list" where
  "read_ahead_order page_lists =
     fold (\<lambda>(l, pages) order.
       fold (\<lambda>(pos, page) order.
         if map_of order (ref_digest page) = None then order @ [(ref_digest page, (l, pos))] else order)
         (enumerate 0 pages) order)
       (enumerate 0 page_lists) []"

definition read_ahead_new :: "'x ext_scheme \<Rightarrow> 's archive_store \<Rightarrow> run_reader list \<Rightarrow> ('s, read_ahead) act" where
  "read_ahead_new E S readers =
     bind_a (map_a (\<lambda>rr. data_pages E rr (fetch E S)) readers) (\<lambda>pages.
       ret \<lparr>ra_order = read_ahead_order (concat pages), ra_lists = concat pages\<rparr>)"

text \<open>\<^verbatim>\<open>get\<close>: the state is the map \<^verbatim>\<open>ready\<close> of fetched pages, then the store.\<close>

type_synonym ready_pages = "(hash32 \<times> bytes) list"

definition read_ahead_get ::
  "'x ext_scheme \<Rightarrow> 's archive_store \<Rightarrow> read_ahead \<Rightarrow> obj_ref \<Rightarrow> (ready_pages \<times> 's, bytes) act" where
  "read_ahead_get E S ra r = (\<lambda>(pages, s).
     case map_of pages (ref_digest r) of
       Some bytes \<Rightarrow> (Inr bytes, (AList.delete (ref_digest r) pages, s))
     | None \<Rightarrow>
         (case map_of (ra_order ra) (ref_digest r) of
            None \<Rightarrow> (case fetch E S r s of (res, s) \<Rightarrow> (res, (pages, s)))
          | Some (l, position) \<Rightarrow>
              let batch = take READ_AHEAD (drop position (ra_lists ra ! l))
              in (case map_a (fetch E S) batch s of
                    (Inl e, s) \<Rightarrow> (Inl e, (pages, s))
                  | (Inr fetched, s) \<Rightarrow>
                      (Inr (hd fetched),
                       (fold (\<lambda>(page, bytes) pages. AList.update (ref_digest page) bytes pages)
                          (tl (zip batch fetched)) pages, s)))))"

subsection \<open>Merging\<close>

text \<open>The selection of the next record: the first least head; equal versions are refused.\<close>

fun choose_head :: "(nat \<times> krecord option) list \<Rightarrow> (nat \<times> krecord) option \<Rightarrow> (nat \<times> krecord) option result" where
  "choose_head [] chosen = Inr chosen"
| "choose_head ((index, None) # rest) chosen = choose_head rest chosen"
| "choose_head ((index, Some record) # rest) None = choose_head rest (Some (index, record))"
| "choose_head ((index, Some record) # rest) (Some (best, current)) =
     (if rec_vkey record = rec_vkey current then bail ''duplicate (key, block) across merged runs''
      else if rec_vkey record < rec_vkey current then choose_head rest (Some (index, record))
      else choose_head rest (Some (best, current)))"

text \<open>The producer: its scanners, the head record of each, the summary, the last key and what it sent.\<close>

record producer =
  pr_scanners :: "run_scanner list"
  pr_heads :: "krecord option list"
  pr_summary :: summary_builder
  pr_last_key :: "bytes option"
  pr_sent :: "krecord list"

definition advance :: "'x ext_scheme \<Rightarrow> (obj_ref \<Rightarrow> ('s, bytes) act) \<Rightarrow> nat \<Rightarrow> producer \<Rightarrow> 's \<Rightarrow> krecord option result \<times> producer \<times> 's" where
  "advance E get i p s =
     (case scan_next E get (pr_scanners p ! i, s) of
        (r, (sc, s)) \<Rightarrow> (r, p\<lparr>pr_scanners := (pr_scanners p)[i := sc]\<rparr>, s))"

text \<open>Filling the heads, in the order of the runs.\<close>

fun fill_heads :: "'x ext_scheme \<Rightarrow> (obj_ref \<Rightarrow> ('s, bytes) act) \<Rightarrow> nat list \<Rightarrow> producer \<Rightarrow> 's \<Rightarrow> unit result \<times> producer \<times> 's" where
  "fill_heads E get [] p s = (Inr (), p, s)"
| "fill_heads E get (i # is) p s =
     (case advance E get i p s of
        (Inl e, p, s) \<Rightarrow> (Inl e, p, s)
      | (Inr head, p, s) \<Rightarrow> fill_heads E get is (p\<lparr>pr_heads := pr_heads p @ [head]\<rparr>) s)"

text \<open>One iteration of the merge loop; \<open>Inr False\<close> is the \<^verbatim>\<open>break\<close>.\<close>

text \<open>Sending a record to the builder, after its key is in the summary.\<close>

definition send :: "'x ext_scheme \<Rightarrow> krecord \<Rightarrow> producer \<Rightarrow> producer" where
  "send E r p =
     (let p = (if pr_last_key p \<noteq> Some (rec_key r)
               then p\<lparr>pr_summary := summary_add E (pr_summary p) (rec_key r), pr_last_key := Some (rec_key r)\<rparr>
               else p)
      in p\<lparr>pr_sent := pr_sent p @ [r]\<rparr>)"

definition merge_step :: "'x ext_scheme \<Rightarrow> (obj_ref \<Rightarrow> ('s, bytes) act) \<Rightarrow> producer \<Rightarrow> 's \<Rightarrow> bool result \<times> producer \<times> 's" where
  "merge_step E get p s =
     (case choose_head (enumerate 0 (pr_heads p)) None of
        Inl e \<Rightarrow> (Inl e, p, s)
      | Inr None \<Rightarrow> (Inr False, p, s)
      | Inr (Some (i, record)) \<Rightarrow>
          (case advance E get i p s of
             (Inl e, p, s) \<Rightarrow> (Inl e, p, s)
           | (Inr head, p, s) \<Rightarrow>
               (Inr True, send E record (p\<lparr>pr_heads := (pr_heads p)[i := head]\<rparr>), s)))"

partial_function (option) merge_loop ::
  "'x ext_scheme \<Rightarrow> (obj_ref \<Rightarrow> ('s, bytes) act) \<Rightarrow> producer \<Rightarrow> 's \<Rightarrow> (unit result \<times> producer \<times> 's) option" where
  "merge_loop E get p s =
     (case merge_step E get p s of
        (Inl e, p, s) \<Rightarrow> Some (Inl e, p, s)
      | (Inr again, p, s) \<Rightarrow> if again then merge_loop E get p s else Some (Inr (), p, s))"

definition produce ::
  "'x ext_scheme \<Rightarrow> (obj_ref \<Rightarrow> ('s, bytes) act) \<Rightarrow> run_scanner list \<Rightarrow> summary_builder \<Rightarrow> 's \<Rightarrow> (unit result \<times> producer \<times> 's) option" where
  "produce E get scanners summary s =
     (let p = \<lparr>pr_scanners = scanners, pr_heads = [], pr_summary = summary, pr_last_key = None, pr_sent = []\<rparr>
      in case fill_heads E get [0..<length scanners] p s of
           (Inl e, p, s) \<Rightarrow> Some (Inl e, p, s)
         | (Inr _, p, s) \<Rightarrow> merge_loop E get p s)"

text \<open>
  The builder task and the uploads: \<^verbatim>\<open>root_bytes\<close> is the last object below 4096 bytes, kept beside the store.
\<close>

definition emit_object :: "'x ext_scheme \<Rightarrow> 's archive_store \<Rightarrow> encoded_object \<Rightarrow> (bytes \<times> 's, unit) act" where
  "emit_object E S ob = (\<lambda>(small, s).
     case put_object E S ob s of
       (r, s) \<Rightarrow> (r, (if length (obj_bytes ob) < 4096 then obj_bytes ob else small, s)))"

text \<open>
  The results of the three tasks: the builder consumes what the producer sent, and a failed
  producer leaves it with the records sent so far, which are built and uploaded before the error
  is returned.
\<close>

definition merge_join ::
  "'x ext_scheme \<Rightarrow> 's archive_store \<Rightarrow> summary_builder result \<Rightarrow> krecord list \<Rightarrow> ('s, built_run) act" where
  "merge_join E S produced sent s =
     (case build E (emit_object E S) sent ([], s) of
        (built, (small, s)) \<Rightarrow>
          bind_a (lift_r produced) (\<lambda>summary.
          bind_a (lift_r built) (\<lambda>root.
          bind_a (put_all S (summary_finish E summary (ref_digest root))) (\<lambda>_.
            ret \<lparr>br_root = root, br_root_bytes = small, br_keys = sb_keys summary, br_shards = sb_shards summary\<rparr>))) s)"

definition merge_readers ::
  "'x ext_scheme \<Rightarrow> 's archive_store \<Rightarrow> run_reader list \<Rightarrow> read_ahead \<Rightarrow> u64 \<Rightarrow> 's \<Rightarrow> (built_run result \<times> 's) option" where
  "merge_readers E S readers ra expected_keys s =
     (case summary_new expected_keys of
        Inl e \<Rightarrow> Some (merge_join E S (Inl e) [] s)
      | Inr summary \<Rightarrow>
          (case produce E (read_ahead_get E S ra) (map scanner readers) summary ([], s) of
             None \<Rightarrow> None
           | Some (produced, p, (_, s)) \<Rightarrow>
               Some (merge_join E S (map_sum id (\<lambda>_. pr_summary p) produced) (pr_sent p) s)))"

text \<open>\<open>None\<close> when the merge loop does not end.\<close>

definition merge_runs ::
  "'x ext_scheme \<Rightarrow> 's archive_store \<Rightarrow> (obj_ref \<times> bytes) list \<Rightarrow> u64 \<Rightarrow> 's \<Rightarrow> (built_run result \<times> 's) option" where
  "merge_runs E S runs expected_keys s =
     (case map_r (\<lambda>(r, bytes). decode_root E r bytes) runs of
        Inl e \<Rightarrow> Some (Inl e, s)
      | Inr readers \<Rightarrow>
          (case read_ahead_new E S readers s of
             (Inl e, s) \<Rightarrow> Some (Inl e, s)
           | (Inr ra, s) \<Rightarrow> merge_readers E S readers ra expected_keys s))"

section \<open>The read-ahead cache is a source\<close>

text \<open>Cached pages are stored objects, the order names pages of the lists, and all these are stored.\<close>

definition ra_ok :: "holding \<Rightarrow> read_ahead \<Rightarrow> ready_pages \<Rightarrow> bool" where
  "ra_ok H ra pages \<longleftrightarrow>
     (\<forall>d b. map_of pages d = Some b \<longrightarrow> (\<exists>r. ref_digest r = d \<and> H r b)) \<and>
     (\<forall>d l pos. map_of (ra_order ra) d = Some (l, pos) \<longrightarrow>
        l < length (ra_lists ra) \<and> pos < length (ra_lists ra ! l) \<and> ref_digest (ra_lists ra ! l ! pos) = d) \<and>
     (\<forall>list\<in>set (ra_lists ra). \<forall>r\<in>set list. \<exists>b. H r b)"

definition ra_holds :: "'x ext_scheme \<Rightarrow> read_ahead \<Rightarrow> (string \<Rightarrow> bytes option) \<Rightarrow> ready_pages \<Rightarrow> holding" where
  "ra_holds E ra c pages r bs \<longleftrightarrow> stored E c r bs \<and> ra_ok (stored E c) ra pages"

lemma map_of_cache_extend:
  assumes "map_of (fold (\<lambda>(page, bytes) pages. AList.update (ref_digest page) bytes pages) new pages) d = Some b"
  shows "map_of pages d = Some b \<or> (\<exists>r. (r, b) \<in> set new \<and> ref_digest r = d)"
  using assms
proof (induction new arbitrary: pages)
  case (Cons x new)
  show ?case using Cons.IH [of "AList.update (ref_digest (fst x)) (snd x) pages"] Cons.prems
    by (cases x) (auto simp: update_conv' split: if_splits)
qed simp

lemma ra_ok_delete: "ra_ok H ra pages \<Longrightarrow> ra_ok H ra (AList.delete d pages)"
  by (auto simp: ra_ok_def delete_conv')

lemma ra_ok_extend:
  assumes "ra_ok H ra pages" "\<forall>(r, b)\<in>set new. H r b"
  shows "ra_ok H ra (fold (\<lambda>(page, bytes) pages. AList.update (ref_digest page) bytes pages) new pages)"
  unfolding ra_ok_def
proof (intro conjI allI impI)
  fix d b assume "map_of (fold (\<lambda>(page, bytes) pages. AList.update (ref_digest page) bytes pages) new pages) d = Some b"
  from map_of_cache_extend [OF this] show "\<exists>r. ref_digest r = d \<and> H r b"
    using assms unfolding ra_ok_def by (elim disjE) blast+
qed (use assms(1) in \<open>simp_all add: ra_ok_def\<close>)

lemma ra_batch:
  assumes "ra_ok H ra pages" "map_of (ra_order ra) d = Some (l, pos)"
  defines "batch \<equiv> take READ_AHEAD (drop pos (ra_lists ra ! l))"
  shows "batch \<noteq> []" "ref_digest (batch ! 0) = d" "\<forall>r\<in>set batch. \<exists>b. H r b"
proof -
  have *: "l < length (ra_lists ra)" "pos < length (ra_lists ra ! l)" "ref_digest (ra_lists ra ! l ! pos) = d"
    using assms(1,2) unfolding ra_ok_def by blast+
  have "set batch \<subseteq> set (ra_lists ra ! l)" unfolding batch_def by (meson in_set_dropD in_set_takeD subsetI)
  moreover have "\<forall>r\<in>set (ra_lists ra ! l). \<exists>b. H r b"
    using assms(1) nth_mem [OF *(1)] unfolding ra_ok_def by blast
  ultimately show "\<forall>r\<in>set batch. \<exists>b. H r b" by blast
  show "batch \<noteq> []" "ref_digest (batch ! 0) = d" using * by (simp_all add: batch_def READ_AHEAD_def)
qed

text \<open>The order that \<^verbatim>\<open>new\<close> computes names pages.\<close>

definition order_ok :: "obj_ref list list \<Rightarrow> (hash32 \<times> (nat \<times> nat)) list \<Rightarrow> bool" where
  "order_ok page_lists order \<longleftrightarrow> (\<forall>(d, l, pos)\<in>set order.
     l < length page_lists \<and> pos < length (page_lists ! l) \<and> ref_digest (page_lists ! l ! pos) = d)"

lemma read_ahead_order_ok: "order_ok page_lists (read_ahead_order page_lists)"
proof -
  let ?add = "\<lambda>l (pos, page) order. if map_of order (ref_digest page) = None then order @ [(ref_digest page, (l, pos))] else order"
  have list: "order_ok page_lists (fold (?add l) (enumerate 0 pages) order)"
    if "order_ok page_lists order" "l < length page_lists" "page_lists ! l = pages" for order l pages
  proof (rule fold_invariant [where Q = "\<lambda>(pos, page). pos < length pages \<and> pages ! pos = page"])
    fix x order assume "case x of (pos, page) \<Rightarrow> pos < length pages \<and> pages ! pos = page" "order_ok page_lists order"
    then show "order_ok page_lists (?add l x order)"
      using that(2,3) by (simp add: order_ok_def split: prod.splits)
  qed (use that in \<open>auto simp: in_set_enumerate_eq\<close>)
  show ?thesis unfolding read_ahead_order_def
  proof (rule fold_invariant [where Q = "\<lambda>(l, pages). l < length page_lists \<and> page_lists ! l = pages"])
    fix x order assume "case x of (l, pages) \<Rightarrow> l < length page_lists \<and> page_lists ! l = pages" "order_ok page_lists order"
    then show "order_ok page_lists ((case x of (l, pages) \<Rightarrow> fold (?add l) (enumerate 0 pages)) order)"
      by (simp add: list split: prod.splits)
  qed (auto simp: in_set_enumerate_eq order_ok_def)
qed

context archive_laws begin

lemma read_ahead_get_held:
  assumes "ra_holds E ra (contents s) pages r bs"
  shows "outcome fails (\<lambda>b (pages', s'). b = bs \<and> contents s' = contents s \<and> ra_ok (stored E (contents s)) ra pages')
    (read_ahead_get E S ra r (pages, s))"
proof -
  let ?H = "stored E (contents s)"
  have held: "?H r bs" and ok: "ra_ok ?H ra pages" using assms by (simp_all add: ra_holds_def)
  show ?thesis
  proof (cases "map_of pages (ref_digest r)")
    case (Some b)
    with ok obtain r' where "ref_digest r' = ref_digest r" "?H r' b" unfolding ra_ok_def by blast
    then have "b = bs" using held stored_unique by blast
    with Some ok show ?thesis by (simp add: read_ahead_get_def ra_ok_delete)
  next
    case cold: None
    show ?thesis
    proof (cases "map_of (ra_order ra) (ref_digest r)")
      case None
      with cold ok fetch_stored [OF held] show ?thesis
        by (cases "fetch E S r s"; cases "fst (fetch E S r s)") (simp_all add: read_ahead_get_def)
    next
      case (Some at)
      obtain l pos where at: "at = (l, pos)" by (rule prod.exhaust)
      let ?batch = "take READ_AHEAD (drop pos (ra_lists ra ! l))"
      note batch = ra_batch [OF ok Some [unfolded at]]
      have step: "outcome fails (\<lambda>b t'. contents t' = contents s \<and> ?H (?batch ! i) b) (fetch E S (?batch ! i) t)"
        if i: "i < length ?batch" and t: "contents t = contents s" for i t
      proof -
        obtain b where b: "stored E (contents t) (?batch ! i) b" using batch(3) nth_mem [OF i] t by auto
        show ?thesis using b t by (auto intro: outcome_mono [OF fetch_stored [OF b]])
      qed
      have "outcome fails (\<lambda>bs' t'. contents t' = contents s \<and> length bs' = length ?batch \<and> (\<forall>i<length ?batch. ?H (?batch ! i) (bs' ! i)))
          (map_a (fetch E S) ?batch s)"
        by (rule outcome_map) (use step in auto)
      moreover have "hd bs' = bs \<and> ra_ok ?H ra (fold (\<lambda>(page, bytes) pages. AList.update (ref_digest page) bytes pages) (tl (zip ?batch bs')) pages)"
        if bs': "length bs' = length ?batch" "\<forall>i<length ?batch. ?H (?batch ! i) (bs' ! i)" for bs'
      proof
        have "?H (?batch ! 0) (bs' ! 0)" using bs'(2) batch(1) by blast
        moreover have "hd bs' = bs' ! 0" using bs'(1) batch(1) by (intro hd_conv_nth) (metis length_0_conv)
        ultimately show "hd bs' = bs" using held batch(2) stored_unique by metis
        show "ra_ok ?H ra (fold (\<lambda>(page, bytes) pages. AList.update (ref_digest page) bytes pages) (tl (zip ?batch bs')) pages)"
        proof (rule ra_ok_extend [OF ok], clarify)
          fix r' b assume "(r', b) \<in> set (tl (zip ?batch bs'))"
          then have "(r', b) \<in> set (zip ?batch bs')" by (metis list.sel(2) list.set_sel(2))
          then show "?H r' b" using bs'(2) by (auto simp: in_set_zip)
        qed
      qed
      moreover obtain res t where "map_a (fetch E S) ?batch s = (res, t)" by (rule prod.exhaust)
      ultimately show ?thesis
        using cold Some at by (cases res) (simp_all add: read_ahead_get_def Let_def)
    qed
  qed
qed

end

sublocale archive_laws \<subseteq> ahead: object_source "read_ahead_get E S ra" "\<lambda>(pages, s). ra_holds E ra (contents s) pages" fails
  for E :: "'x ext_scheme" and ra
proof
  fix s :: "ready_pages \<times> 's" and r bs
  obtain pages t where s: "s = (pages, t)" by (rule prod.exhaust)
  assume "(case s of (pages, s) \<Rightarrow> ra_holds E ra (contents s) pages) r bs"
  then have held: "ra_holds E ra (contents t) pages r bs" by (simp add: s)
  then have "ra_ok (stored E (contents t)) ra pages" by (simp add: ra_holds_def)
  then show "outcome fails (\<lambda>bs' s'. bs' = bs \<and> (case s' of (pages, s) \<Rightarrow> ra_holds E ra (contents s) pages) =
      (case s of (pages, s) \<Rightarrow> ra_holds E ra (contents s) pages)) (read_ahead_get E S ra r s)"
    unfolding s by (intro outcome_mono [OF read_ahead_get_held [OF held]]) (auto simp: ra_holds_def intro!: ext)
qed (rule fails_Ctx)

context archive_laws begin

lemma read_ahead_new_correct:
  assumes "list_all2 (reader_rep E (stored E (contents s))) readers inputs"
  shows "outcome fails (\<lambda>ra s'. stored E (contents s') = stored E (contents s) \<and> ra_ok (stored E (contents s)) ra [])
    (read_ahead_new E S readers s)"
proof -
  let ?H = "stored E (contents s)"
  let ?ok = "\<lambda>pages. \<forall>list\<in>set pages. \<forall>r\<in>set list. \<exists>b. ?H r b"
  have "outcome fails (\<lambda>pages s'. stored E (contents s') = ?H \<and> length pages = length readers \<and> (\<forall>i<length readers. ?ok (pages ! i)))
      (map_a (\<lambda>rr. data_pages E rr (fetch E S)) readers s)"
  proof (rule outcome_map)
    fix i t assume i: "i < length readers" and t: "stored E (contents t) = ?H"
    have "reader_rep E (stored E (contents t)) (readers ! i) (inputs ! i)" using assms i t by (simp add: list_all2_nthD)
    from source.walk_correct [OF this]
    show "outcome fails (\<lambda>pages s'. stored E (contents s') = ?H \<and> ?ok pages) (data_pages E (readers ! i) (fetch E S) t)"
      unfolding data_pages_def outcome_bind
      by (rule outcome_mono) (fastforce simp: t in_set_conv_nth page_refs_def list_all2_conv_all_nth)+
  qed simp
  then show ?thesis unfolding read_ahead_new_def outcome_bind
  proof (rule outcome_mono)
    fix pages s'
    assume *: "stored E (contents s') = ?H \<and> length pages = length readers \<and> (\<forall>i<length readers. ?ok (pages ! i))"
    then have "\<forall>x\<in>set pages. ?ok x" by (metis in_set_conv_nth)
    then have "?ok (concat pages)" by auto
    moreover have "l < length (concat pages) \<and> pos < length (concat pages ! l) \<and> ref_digest (concat pages ! l ! pos) = d"
      if "map_of (read_ahead_order (concat pages)) d = Some (l, pos)" for d l pos
      using read_ahead_order_ok [of "concat pages"] map_of_SomeD [OF that] by (auto simp: order_ok_def)
    ultimately show "outcome fails (\<lambda>ra s'. stored E (contents s') = ?H \<and> ra_ok ?H ra [])
        (ret \<lparr>ra_order = read_ahead_order (concat pages), ra_lists = concat pages\<rparr> s')"
      using * by (simp add: ra_ok_def)
  qed
qed

end

section \<open>Choosing the next record\<close>

definition candidates :: "(nat \<times> krecord option) list \<Rightarrow> (nat \<times> krecord) option \<Rightarrow> (nat \<times> krecord) list" where
  "candidates hs chosen = (case chosen of None \<Rightarrow> [] | Some x \<Rightarrow> [x]) @ [(i, r). (i, Some r) \<leftarrow> hs]"

lemma candidates_simps [simp]:
  "candidates [] None = []" "candidates [] (Some x) = [x]"
  "candidates ((i, None) # hs) c = candidates hs c"
  "candidates ((i, Some r) # hs) None = candidates hs (Some (i, r))"
  "candidates ((i, Some r) # hs) (Some x) = x # candidates hs (Some (i, r))"
  by (simp_all add: candidates_def split: option.split)

lemma candidates_Cons: "candidates hs (Some x) = x # candidates hs None"
  by (simp add: candidates_def)

definition least :: "nat \<times> krecord \<Rightarrow> (nat \<times> krecord) set \<Rightarrow> bool" where
  "least x ys \<longleftrightarrow> x \<in> ys \<and> (\<forall>y\<in>ys. y = x \<or> rec_vkey (snd x) < rec_vkey (snd y))"

lemma least_insert:
  assumes "least x ys" "y \<in> ys" "rec_vkey (snd y) < rec_vkey (snd c)"
  shows "least x (insert c ys)"
proof -
  have "y = x \<or> rec_vkey (snd x) < rec_vkey (snd y)" using assms(1,2) by (auto simp: least_def)
  with assms show ?thesis by (auto simp: least_def dest: less_trans)
qed

lemma choose_head_spec:
  "case choose_head hs chosen of
     Inl e \<Rightarrow> \<not> distinct (map (\<lambda>x. rec_vkey (snd x)) (candidates hs chosen))
   | Inr None \<Rightarrow> candidates hs chosen = []
   | Inr (Some x) \<Rightarrow> least x (set (candidates hs chosen))"
proof (induction hs chosen rule: choose_head.induct)
  case (4 i r rest best current)
  consider (same) "rec_vkey r = rec_vkey current" | (below) "rec_vkey r < rec_vkey current"
    | (above) "rec_vkey current < rec_vkey r" by (rule linorder_cases)
  then show ?case
  proof cases
    case same
    then show ?thesis by (simp add: bail_def candidates_Cons)
  next
    case below
    then have "least x (set (candidates rest (Some (i, r)))) \<Longrightarrow> least x (insert (best, current) (set (candidates rest (Some (i, r)))))" for x
      by (rule_tac y = "(i, r)" in least_insert) (simp_all add: candidates_Cons)
    moreover have "rec_vkey r \<noteq> rec_vkey current" using below by simp
    ultimately show ?thesis using below 4(1)
      by (cases "choose_head rest (Some (i, r))") (auto split: option.splits simp: candidates_Cons)
  next
    case above
    then have "least x (set (candidates rest (Some (best, current)))) \<Longrightarrow> least x (insert (i, r) (set (candidates rest (Some (best, current)))))" for x
      by (rule_tac y = "(best, current)" in least_insert) (simp_all add: candidates_Cons)
    moreover have "rec_vkey r \<noteq> rec_vkey current" "\<not> rec_vkey r < rec_vkey current" using above by auto
    ultimately show ?thesis using 4(2)
      by (cases "choose_head rest (Some (best, current))") (auto split: option.splits simp: candidates_Cons insert_commute)
  qed
qed (auto simp: least_def split: option.splits sum.splits)

section \<open>The merge loop\<close>

text \<open>What is left of each run: the head record and what its scanner still yields.\<close>

definition producer_rep :: "'x ext_scheme \<Rightarrow> holding \<Rightarrow> producer \<Rightarrow> krecord list list \<Rightarrow> bool" where
  "producer_rep E H p rests \<longleftrightarrow>
     pr_heads p = map first_opt rests \<and> list_all2 (scan_rep E H) (pr_scanners p) (map tl rests) \<and>
     (\<forall>rest\<in>set rests. ssorted (map rec_vkey rest))"

text \<open>The records sent are sorted, below all that are left, and with them all of the input.\<close>

definition merge_inv :: "'x ext_scheme \<Rightarrow> holding \<Rightarrow> summary_builder \<Rightarrow> krecord list list \<Rightarrow> producer \<Rightarrow> krecord list list \<Rightarrow> bool" where
  "merge_inv E H summary0 inputs p rests \<longleftrightarrow>
     producer_rep E H p rests \<and> ssorted (map rec_vkey (pr_sent p)) \<and>
     (\<forall>x\<in>set (pr_sent p). \<forall>y\<in>set (concat rests). rec_vkey x < rec_vkey y) \<and>
     mset (pr_sent p) + mset (concat rests) = mset (concat inputs) \<and>
     pr_last_key p = map_option rec_key (last_opt (pr_sent p)) \<and>
     (\<exists>ks. pr_summary p = summary_adds E ks summary0 \<and> set ks = rec_key ` set (pr_sent p))"

lemma mset_concat_update:
  "i < length xss \<Longrightarrow> xss ! i = x # xs \<Longrightarrow> mset (concat xss) = add_mset x (mset (concat (xss[i := xs])))"
proof (induction xss arbitrary: i)
  case (Cons ys xss)
  then show ?case by (cases i) auto
qed simp

lemma distinct_mset_subset:
  assumes "mset xs \<subseteq># mset ys" "distinct ys"
  shows "distinct xs"
  unfolding distinct_count_atmost_1
proof
  fix a
  have "count (mset xs) a \<le> count (mset ys) a" using assms(1) by (rule mset_subset_eq_count)
  moreover have "count (mset ys) a \<le> 1" using assms(2) by (simp add: distinct_count_atmost_1)
  moreover have "a \<in> set xs \<Longrightarrow> 1 \<le> count (mset xs) a" "a \<notin> set xs \<Longrightarrow> count (mset xs) a = 0"
    by (simp_all add: Suc_le_eq count_eq_zero_iff)
  ultimately show "count (mset xs) a = (if a \<in> set xs then 1 else 0)" by (cases "a \<in> set xs") (simp_all add: le_antisym)
qed

lemma candidates_heads: "map snd (candidates (enumerate n (map first_opt rests)) None) = map hd (filter (\<lambda>r. r \<noteq> []) rests)"
proof (induction rests arbitrary: n)
  case (Cons rest rests)
  then show ?case by (cases rest) (simp_all add: candidates_Cons)
qed simp

lemma distinct_heads: "distinct (map f (concat rests)) \<Longrightarrow> distinct (map f (map hd (filter (\<lambda>r. r \<noteq> []) rests)))"
proof (induction rests)
  case (Cons rest rests)
  have "f (hd x) \<in> f ` set (concat rests)" if "x \<in> set rests" "x \<noteq> []" for x
    using that by (auto intro!: image_eqI [of _ f "hd x"])
  with Cons show ?case by (cases rest) auto
qed simp

lemma candidate_mem:
  assumes "(i, r) \<in> set (candidates (enumerate 0 (map first_opt rests)) None)"
  shows "i < length rests \<and> (\<exists>t. rests ! i = r # t)"
proof -
  have "(i, Some r) \<in> set (enumerate 0 (map first_opt rests))" using assms by (auto simp: candidates_def split: option.splits)
  then show ?thesis by (cases "rests ! i") (auto simp: in_set_enumerate_eq)
qed

lemma candidate_of:
  assumes "j < length rests" "rests ! j = y # t"
  shows "(j, y) \<in> set (candidates (enumerate 0 (map first_opt rests)) None)"
proof -
  have "(j, Some y) \<in> set (enumerate 0 (map first_opt rests))" using assms by (simp add: in_set_enumerate_eq)
  then show ?thesis by (force simp: candidates_def)
qed

text \<open>The chosen head is below everything else that is left.\<close>

lemma least_head:
  assumes "least (i, r) (set (candidates (enumerate 0 (map first_opt rests)) None))" "\<forall>rest\<in>set rests. ssorted (map rec_vkey rest)"
  obtains t where "i < length rests" "rests ! i = r # t" "\<forall>y\<in>set (concat (rests[i := t])). rec_vkey r < rec_vkey y"
proof -
  obtain t where i: "i < length rests" "rests ! i = r # t"
    using assms(1) candidate_mem [of i r rests] by (auto simp: least_def)
  have "rec_vkey r < rec_vkey y" if "y \<in> set (concat (rests[i := t]))" for y
  proof -
    from that obtain xs where "xs \<in> set (rests[i := t])" "y \<in> set xs" by auto
    then obtain j where j: "j < length rests" "y \<in> set (rests[i := t] ! j)" by (metis in_set_conv_nth length_list_update)
    show ?thesis
    proof (cases "j = i")
      case True
      then have "y \<in> set t" "ssorted (map rec_vkey (r # t))" using j i assms(2) nth_mem [OF i(1)] by auto
      then show ?thesis by simp
    next
      case False
      then have y: "y \<in> set (rests ! j)" using j(2) by simp
      then obtain h u where h: "rests ! j = h # u" by (cases "rests ! j") auto
      have "rec_vkey r < rec_vkey h"
        using assms(1) candidate_of [OF j(1) h] False by (auto simp: least_def)
      also have "rec_vkey h \<le> rec_vkey y"
        using y h assms(2) nth_mem [OF j(1)] by (auto simp: less_imp_le)
      finally show ?thesis .
    qed
  qed
  with i that show thesis by blast
qed

context object_source begin

lemma advance_correct:
  assumes "i < length (pr_scanners p)" "scan_rep E (holds s) (pr_scanners p ! i) rest"
  shows "case advance E fetch i p s of
      (Inl e, p', s') \<Rightarrow> fails e \<and> pr_sent p' = pr_sent p
    | (Inr v, p', s') \<Rightarrow> v = first_opt rest \<and> holds s' = holds s \<and>
        (\<exists>sc. scan_rep E (holds s) sc (tl rest) \<and> p' = p\<lparr>pr_scanners := (pr_scanners p)[i := sc]\<rparr>)"
  using scan_next_correct [OF assms(2)]
  by (cases "scan_next E fetch (pr_scanners p ! i, s)"; cases "fst (scan_next E fetch (pr_scanners p ! i, s))")
    (auto simp: advance_def split: prod.splits)

lemma fill_heads_correct:
  assumes "pr_heads p = map first_opt done'" "list_all2 (scan_rep E (holds s)) (pr_scanners p) (map tl done' @ todo)"
    and "\<forall>rest\<in>set (done' @ todo). ssorted (map rec_vkey rest)"
  shows "case fill_heads E fetch [length done'..<length (done' @ todo)] p s of
      (Inl e, p', s') \<Rightarrow> fails e \<and> pr_sent p' = pr_sent p
    | (Inr _, p', s') \<Rightarrow> holds s' = holds s \<and> producer_rep E (holds s) p' (done' @ todo) \<and> pr_sent p' = pr_sent p \<and>
        pr_summary p' = pr_summary p \<and> pr_last_key p' = pr_last_key p"
  using assms
proof (induction todo arbitrary: done' p s)
  case Nil
  then show ?case by (simp add: producer_rep_def)
next
  case (Cons rest todo)
  let ?i = "length done'"
  have len: "?i < length (pr_scanners p)" using Cons.prems(2) by (simp add: list_all2_lengthD)
  have rep: "scan_rep E (holds s) (pr_scanners p ! ?i) rest"
    using list_all2_nthD [OF Cons.prems(2) len] by (simp add: nth_append)
  obtain r p1 s1 where adv: "advance E fetch ?i p s = (r, p1, s1)" by (rule prod_cases3)
  have upt: "[?i..<length (done' @ rest # todo)] = ?i # [Suc ?i..<length (done' @ rest # todo)]" by (rule upt_conv_Cons) simp
  show ?case
  proof (cases r)
    case (Inl e)
    with advance_correct [OF len rep] adv show ?thesis unfolding upt by simp
  next
    case (Inr v)
    with advance_correct [OF len rep] adv obtain sc where v: "v = first_opt rest" and s1: "holds s1 = holds s"
      and sc: "scan_rep E (holds s) sc (tl rest)" and p1: "p1 = p\<lparr>pr_scanners := (pr_scanners p)[?i := sc]\<rparr>" by auto
    let ?p = "p1\<lparr>pr_heads := pr_heads p1 @ [v]\<rparr>"
    have scs: "list_all2 (scan_rep E (holds s1)) (pr_scanners ?p) (map tl (done' @ [rest]) @ todo)"
      using list_all2_update_cong [OF Cons.prems(2) sc, of ?i] by (simp add: p1 s1 list_update_append)
    have "pr_heads ?p = map first_opt (done' @ [rest])" using Cons.prems(1) by (simp add: p1 v)
    note IH = Cons.IH [OF this scs]
    define rest_is where "rest_is = [length (done' @ [rest])..<length ((done' @ [rest]) @ todo)]"
    then have "[Suc ?i..<length (done' @ rest # todo)] = rest_is" by simp
    with IH [folded rest_is_def] Cons.prems(3) show ?thesis
      using Inr adv unfolding upt by (simp add: s1 p1 split: prod.splits sum.splits)
  qed
qed

lemma producer_rep_advance:
  assumes "producer_rep E H p rests" "i < length rests" "scan_rep E H sc (tl (tl (rests ! i)))"
  shows "producer_rep E H (p\<lparr>pr_scanners := (pr_scanners p)[i := sc], pr_heads := (pr_heads p)[i := first_opt (tl (rests ! i))]\<rparr>)
    (rests[i := tl (rests ! i)])"
proof -
  have "ssorted (map rec_vkey (tl (rests ! i)))"
    using assms(1) nth_mem [OF assms(2)] by (cases "rests ! i") (auto simp: producer_rep_def)
  then show ?thesis
    using assms set_update_subset_insert [of rests i "tl (rests ! i)"]
    by (auto simp: producer_rep_def map_update intro: list_all2_update_cong)
qed

lemma summary_adds_snoc: "summary_add E (summary_adds E ks b) k = summary_adds E (ks @ [k]) b"
  by (simp add: summary_adds_def)

lemma merge_inv_send:
  assumes inv: "merge_inv E H summary0 inputs p rests"
    and i: "i < length rests" "rests ! i = r # t" "\<forall>y\<in>set (concat (rests[i := t])). rec_vkey r < rec_vkey y"
    and sc: "scan_rep E H sc (tl t)"
  shows "merge_inv E H summary0 inputs
    (send E r (p\<lparr>pr_scanners := (pr_scanners p)[i := sc], pr_heads := (pr_heads p)[i := first_opt t]\<rparr>)) (rests[i := t])"
    (is "merge_inv _ _ _ _ (send E r ?p) _")
proof -
  have rep: "producer_rep E H ?p (rests[i := t])"
    using producer_rep_advance [of E H p rests i sc] inv i(1,2) sc by (simp add: merge_inv_def)
  have rest: "mset (concat rests) = add_mset r (mset (concat (rests[i := t])))" using i(1,2) by (rule mset_concat_update)
  then have subset: "set (concat (rests[i := t])) \<subseteq> set (concat rests)" "r \<in> set (concat rests)"
    by (metis insert_iff set_mset_add_mset_insert set_mset_mset subsetI)+
  obtain ks where ks: "pr_summary p = summary_adds E ks summary0" "set ks = rec_key ` set (pr_sent p)"
    using inv by (auto simp: merge_inv_def)
  have old: "ssorted (map rec_vkey (pr_sent p))" "\<forall>x\<in>set (pr_sent p). \<forall>y\<in>set (concat rests). rec_vkey x < rec_vkey y"
    "mset (pr_sent p) + mset (concat rests) = mset (concat inputs)" "pr_last_key p = map_option rec_key (last_opt (pr_sent p))"
    using inv by (auto simp: merge_inv_def)
  have "\<exists>ks. pr_summary (send E r ?p) = summary_adds E ks summary0 \<and> set ks = rec_key ` set (pr_sent p @ [r])"
  proof (cases "pr_last_key p = Some (rec_key r)")
    case True
    then have "pr_sent p \<noteq> []" "rec_key (last (pr_sent p)) = rec_key r" using old(4) by (auto simp: last_opt_def split: if_splits)
    then have "rec_key r \<in> rec_key ` set (pr_sent p)" by (metis imageI last_in_set)
    with True ks show ?thesis by (intro exI [of _ ks]) (auto simp: send_def)
  next
    case False
    with ks show ?thesis by (intro exI [of _ "ks @ [rec_key r]"]) (auto simp: send_def summary_adds_snoc)
  qed
  moreover have "producer_rep E H (send E r ?p) (rests[i := t])" using rep by (simp add: send_def producer_rep_def Let_def)
  moreover have "ssorted (map rec_vkey (pr_sent p @ [r]))" using old(1,2) subset(2) by (auto simp: ssorted_append)
  moreover have "\<forall>x\<in>set (pr_sent p @ [r]). \<forall>y\<in>set (concat (rests[i := t])). rec_vkey x < rec_vkey y"
    using old(2) subset(1) i(3) by auto
  moreover have "mset (pr_sent p @ [r]) + mset (concat (rests[i := t])) = mset (concat inputs)"
    using old(3) unfolding rest by simp
  moreover have "pr_sent (send E r ?p) = pr_sent p @ [r]" "pr_last_key (send E r ?p) = Some (rec_key r)"
    by (simp_all add: send_def Let_def)
  ultimately show ?thesis by (simp add: merge_inv_def del: set_concat)
qed

text \<open>One iteration sends the least record that is left, or ends, or fails.\<close>

lemma merge_step_correct:
  assumes inv: "merge_inv E (holds s) summary0 inputs p rests"
  shows "case merge_step E fetch p s of
      (Inl e, p', s') \<Rightarrow> (fails e \<or> \<not> distinct (map rec_vkey (concat inputs))) \<and> pr_sent p' = pr_sent p
    | (Inr False, p', s') \<Rightarrow> p' = p \<and> s' = s \<and> concat rests = []
    | (Inr True, p', s') \<Rightarrow> holds s' = holds s \<and>
        (\<exists>rests'. merge_inv E (holds s) summary0 inputs p' rests' \<and> length (concat rests') < length (concat rests))"
proof -
  let ?cs = "candidates (enumerate 0 (pr_heads p)) None"
  have rep: "producer_rep E (holds s) p rests" and heads: "pr_heads p = map first_opt rests"
    and sorted: "\<forall>rest\<in>set rests. ssorted (map rec_vkey rest)"
    using inv by (simp_all add: merge_inv_def producer_rep_def)
  note spec = choose_head_spec [of "enumerate 0 (pr_heads p)" None]
  show ?thesis
  proof (cases "choose_head (enumerate 0 (pr_heads p)) None")
    case (Inl e)
    with spec have dup: "\<not> distinct (map rec_vkey (map snd ?cs))" by (simp add: comp_def)
    have "\<not> distinct (map rec_vkey (concat inputs))"
    proof
      assume "distinct (map rec_vkey (concat inputs))"
      moreover have "mset (concat rests) \<subseteq># mset (concat inputs)" using inv by (metis merge_inv_def mset_subset_eq_add_right)
      then have "mset (map rec_vkey (concat rests)) \<subseteq># mset (map rec_vkey (concat inputs))"
        unfolding mset_map by (rule image_mset_subseteq_mono)
      ultimately have "distinct (map rec_vkey (concat rests))" by (blast intro: distinct_mset_subset)
      then show False using dup distinct_heads [of rec_vkey rests] unfolding heads candidates_heads by blast
    qed
    with Inl show ?thesis by (simp add: merge_step_def)
  next
    case (Inr c)
    show ?thesis
    proof (cases c)
      case None
      with Inr spec have "map snd ?cs = []" by simp
      then have "concat rests = []" unfolding heads candidates_heads by (auto simp: filter_empty_conv)
      with None Inr show ?thesis by (simp add: merge_step_def)
    next
      case (Some x)
      obtain i r where x: "x = (i, r)" by (rule prod.exhaust)
      with Some Inr spec have "least (i, r) (set ?cs)" by simp
      then obtain t where i: "i < length rests" "rests ! i = r # t" "\<forall>y\<in>set (concat (rests[i := t])). rec_vkey r < rec_vkey y"
        unfolding heads using sorted by (rule least_head)
      have scans: "list_all2 (scan_rep E (holds s)) (pr_scanners p) (map tl rests)" using rep by (simp add: producer_rep_def)
      have scanner: "i < length (pr_scanners p)" "scan_rep E (holds s) (pr_scanners p ! i) t"
        using list_all2_lengthD [OF scans] list_all2_nthD2 [OF scans, of i] i(1,2) by simp_all
      obtain v p1 s1 where adv: "advance E fetch i p s = (v, p1, s1)" by (rule prod_cases3)
      show ?thesis
      proof (cases v)
        case (Inl e)
        with advance_correct [OF scanner] adv Some Inr x show ?thesis by (simp add: merge_step_def)
      next
        case v: (Inr head)
        with advance_correct [OF scanner] adv obtain sc where head: "head = first_opt t" and s1: "holds s1 = holds s"
          and sc: "scan_rep E (holds s) sc (tl t)" and p1: "p1 = p\<lparr>pr_scanners := (pr_scanners p)[i := sc]\<rparr>" by auto
        have "length (concat (rests[i := t])) < length (concat rests)"
          using mset_concat_update [OF i(1,2)] by (metis lessI size_add_mset size_mset)
        moreover have "merge_inv E (holds s) summary0 inputs (send E r (p1\<lparr>pr_heads := (pr_heads p1)[i := head]\<rparr>)) (rests[i := t])"
          using merge_inv_send [OF inv i, of sc] sc by (simp add: p1 head)
        ultimately show ?thesis
          using adv v Some Inr x s1 by (auto simp: merge_step_def Let_def send_def)
      qed
    qed
  qed
qed

lemma merge_inv_end:
  assumes "merge_inv E H summary0 inputs p rests" "concat rests = []"
  shows "ssorted (map rec_vkey (pr_sent p)) \<and> mset (pr_sent p) = mset (concat inputs) \<and>
    (\<exists>ks. pr_summary p = summary_adds E ks summary0 \<and> set ks = rec_key ` set (pr_sent p))"
  using assms by (simp add: merge_inv_def del: concat_eq_Nil_conv)

text \<open>The loop returns; without an error it has sent all records of the runs, in order.\<close>

lemma merge_loop_correct:
  assumes "merge_inv E (holds s) summary0 inputs p rests"
  shows "\<exists>r p' s'. merge_loop E fetch p s = Some (r, p', s') \<and>
    (case r of
       Inl e \<Rightarrow> fails e \<or> \<not> distinct (map rec_vkey (concat inputs))
     | Inr _ \<Rightarrow> holds s' = holds s \<and> (\<exists>rests'. merge_inv E (holds s) summary0 inputs p' rests' \<and> concat rests' = []))"
  using assms
proof (induction "length (concat rests)" arbitrary: p s rests rule: less_induct)
  case less
  obtain r p1 s1 where step: "merge_step E fetch p s = (r, p1, s1)" by (rule prod_cases3)
  note correct = merge_step_correct [OF less.prems]
  show ?case
  proof (cases r)
    case (Inl e)
    with step correct show ?thesis by (subst merge_loop.simps) auto
  next
    case again: (Inr again)
    show ?thesis
    proof (cases again)
      case True
      with step correct again obtain rests' where s1: "holds s1 = holds s"
        and inv: "merge_inv E (holds s) summary0 inputs p1 rests'" and shorter: "length (concat rests') < length (concat rests)"
        by (auto split: bool.splits)
      from inv s1 have "merge_inv E (holds s1) summary0 inputs p1 rests'" by simp
      from less.hyps [OF shorter this, unfolded s1] show ?thesis using step again True by (subst merge_loop.simps) simp
    next
      case False
      with step correct again less.prems show ?thesis by (subst merge_loop.simps) auto
    qed
  qed
qed

lemma produce_correct:
  assumes readers: "list_all2 (reader_rep E (holds s)) readers inputs"
  shows "\<exists>r p s'. produce E fetch (map scanner readers) summary0 s = Some (r, p, s') \<and>
    (case r of
       Inl e \<Rightarrow> fails e \<or> \<not> distinct (map rec_vkey (concat inputs))
     | Inr _ \<Rightarrow> holds s' = holds s \<and> ssorted (map rec_vkey (pr_sent p)) \<and> mset (pr_sent p) = mset (concat inputs) \<and>
         (\<exists>ks. pr_summary p = summary_adds E ks summary0 \<and> set ks = rec_key ` set (pr_sent p)))"
proof -
  let ?p = "\<lparr>pr_scanners = map scanner readers, pr_heads = [], pr_summary = summary0, pr_last_key = None, pr_sent = []\<rparr>"
  have scans: "list_all2 (scan_rep E (holds s)) (map scanner readers) inputs"
    using readers by (auto simp: list.rel_map elim!: list_all2_mono intro: scanner_rep)
  have sorted: "\<forall>rest\<in>set inputs. ssorted (map rec_vkey rest)"
    using readers by (auto simp: list_all2_conv_all_nth in_set_conv_nth reader_rep_def)
  have fill: "case fill_heads E fetch [0..<length (map scanner readers)] ?p s of
      (Inl e, p', s') \<Rightarrow> fails e \<and> pr_sent p' = []
    | (Inr _, p', s') \<Rightarrow> holds s' = holds s \<and> producer_rep E (holds s) p' inputs \<and> pr_sent p' = [] \<and>
        pr_summary p' = summary0 \<and> pr_last_key p' = None"
    using fill_heads_correct [of ?p "[]" E s inputs] scans sorted list_all2_lengthD [OF readers]
    by (simp split: prod.splits sum.splits)
  obtain r p1 s1 where r: "fill_heads E fetch [0..<length (map scanner readers)] ?p s = (r, p1, s1)" by (rule prod_cases3)
  show ?thesis
  proof (cases r)
    case (Inl e)
    with r fill show ?thesis by (simp add: produce_def Let_def)
  next
    case (Inr u)
    with r fill have s1: "holds s1 = holds s" and p1: "producer_rep E (holds s) p1 inputs" "pr_sent p1 = []" "pr_summary p1 = summary0" "pr_last_key p1 = None"
      by simp_all
    then have "merge_inv E (holds s1) summary0 inputs p1 inputs"
      by (auto simp: merge_inv_def s1 summary_adds_def intro!: exI [of _ "[]"])
    from merge_loop_correct [OF this] obtain v p s' where loop: "merge_loop E fetch p1 s1 = Some (v, p, s')"
      and v: "case v of
          Inl e \<Rightarrow> fails e \<or> \<not> distinct (map rec_vkey (concat inputs))
        | Inr _ \<Rightarrow> holds s' = holds s1 \<and> (\<exists>rests'. merge_inv E (holds s1) summary0 inputs p rests' \<and> concat rests' = [])"
      by blast
    then have "case v of
        Inl e \<Rightarrow> fails e \<or> \<not> distinct (map rec_vkey (concat inputs))
      | Inr _ \<Rightarrow> holds s' = holds s \<and> ssorted (map rec_vkey (pr_sent p)) \<and> mset (pr_sent p) = mset (concat inputs) \<and>
         (\<exists>ks. pr_summary p = summary_adds E ks summary0 \<and> set ks = rec_key ` set (pr_sent p))"
      using merge_inv_end [of E "holds s1" summary0 inputs p] s1 by (cases v) auto
    moreover have "produce E fetch (map scanner readers) summary0 s = Some (v, p, s')"
      using r Inr loop by (simp add: produce_def Let_def)
    ultimately show ?thesis by blast
  qed
qed

end

section \<open>What merging keeps\<close>

lemma advance_keeps:
  assumes "\<And>r. keeps (grows f) (get r)" "advance E get i p s = (x, p', s')"
  shows "f s \<le> f s'"
proof -
  obtain r sc t where n: "scan_next E get (pr_scanners p ! i, s) = (r, (sc, t))" by (metis prod.collapse)
  from keepsD [OF scan_next_keeps [OF assms(1)] this] have "f s \<le> f t" by simp
  with n assms(2) show ?thesis by (simp add: advance_def)
qed

lemma fill_heads_keeps:
  assumes "\<And>r. keeps (grows f) (get r)" "fill_heads E get is p s = (x, p', s')"
  shows "f s \<le> f s'"
  using assms(2)
proof (induction "is" arbitrary: p s)
  case (Cons i "is")
  obtain r p1 s1 where adv: "advance E get i p s = (r, p1, s1)" by (rule prod_cases3)
  have "f s \<le> f s1" using advance_keeps [OF assms(1) adv] .
  with Cons adv show ?case by (cases r) (auto intro: order_trans)
qed simp

lemma merge_step_keeps:
  assumes "\<And>r. keeps (grows f) (get r)" "merge_step E get p s = (x, p', s')"
  shows "f s \<le> f s'"
proof (cases "choose_head (enumerate 0 (pr_heads p)) None")
  case (Inr c)
  show ?thesis
  proof (cases c)
    case (Some ir)
    obtain r p1 s1 where adv: "advance E get (fst ir) p s = (r, p1, s1)" by (rule prod_cases3)
    have "f s \<le> f s1" using advance_keeps [OF assms(1) adv] .
    with adv Some Inr assms(2) show ?thesis by (cases r; cases ir) (simp_all add: merge_step_def)
  qed (use assms(2) Inr in \<open>simp add: merge_step_def\<close>)
qed (use assms(2) in \<open>simp add: merge_step_def\<close>)

lemma merge_loop_keeps:
  assumes "merge_loop E get p s = Some x" "\<forall>r. keeps (grows f) (get r)"
  shows "f s \<le> f (snd (snd x))"
proof -
  have "(\<forall>r. keeps (grows f) (get r)) \<longrightarrow> f s \<le> f (snd (snd x))"
  proof (rule merge_loop.raw_induct [OF _ assms(1)], rule impI)
    fix loop E get p s x
    assume IH: "\<And>E get p s y. loop E get p s = Some y \<Longrightarrow> (\<forall>r. keeps (grows f) (get r)) \<longrightarrow> f s \<le> f (snd (snd y))"
      and body: "(case merge_step E get p s of (Inl e, p, s) \<Rightarrow> Some (Inl e, p, s)
        | (Inr again, p, s) \<Rightarrow> if again then loop E get p s else Some (Inr (), p, s)) = Some x"
      and get: "\<forall>r. keeps (grows f) (get r)"
    obtain r p1 s1 where step: "merge_step E get p s = (r, p1, s1)" by (rule prod_cases3)
    have "f s \<le> f s1" using merge_step_keeps [OF _ step] get by blast
    with IH [of E get p1 s1 x] body get step show "f s \<le> f (snd (snd x))"
      by (cases r) (auto split: if_splits intro: order_trans)
  qed
  with assms(2) show ?thesis by blast
qed

lemma produce_keeps:
  assumes "produce E get scanners summary s = Some (x, p, s')" "\<And>r. keeps (grows f) (get r)"
  shows "f s \<le> f s'"
proof -
  let ?p = "\<lparr>pr_scanners = scanners, pr_heads = [], pr_summary = summary, pr_last_key = None, pr_sent = []\<rparr>"
  obtain r p1 s1 where fill: "fill_heads E get [0..<length scanners] ?p s = (r, p1, s1)" by (rule prod_cases3)
  have "f s \<le> f s1" using fill_heads_keeps [OF assms(2) fill] .
  with fill assms(1) merge_loop_keeps [of E get p1 s1 "(x, p, s')" f] assms(2) show ?thesis
    by (cases r) (auto simp: produce_def Let_def intro: order_trans)
qed

lemma read_ahead_get_keep:
  assumes "store_keeps S f"
  shows "keeps (grows (\<lambda>(pages, s). f s)) (read_ahead_get E S ra r)"
proof (rule keepsI)
  fix st x st' assume get: "read_ahead_get E S ra r st = (x, st')"
  obtain pages s where st: "st = (pages, s)" by (rule prod.exhaust)
  have "keeps (grows f) (map_a (fetch E S) batch)" for batch
    by (intro keeps_rules fetch_keep assms)
  note batch = keepsD [OF this] and one = keepsD [OF fetch_keep [OF assms]]
  show "(case st of (pages, s) \<Rightarrow> f s) \<le> (case st' of (pages, s) \<Rightarrow> f s)"
    using get unfolding st read_ahead_get_def Let_def
    by (auto split: option.splits prod.splits sum.splits dest: batch one)
qed

lemma read_ahead_new_keep: "store_keeps S f \<Longrightarrow> keeps (grows f) (read_ahead_new E S readers)"
  unfolding read_ahead_new_def by (intro keeps_rules data_pages_keeps fetch_keep)

lemma emit_object_keep: "store_keeps S f \<Longrightarrow> keeps (grows (\<lambda>(small, s). f s)) (emit_object E S ob)"
  by (rule keepsI) (auto simp: emit_object_def split: prod.splits dest!: keepsD [OF put_object_keep])

lemma merge_join_keep:
  assumes "store_keeps S f"
  shows "keeps (grows f) (merge_join E S produced sent)"
proof (rule keepsI)
  fix s x s' assume join: "merge_join E S produced sent s = (x, s')"
  obtain built small t where build: "build E (emit_object E S) sent ([], s) = (built, (small, t))" by (metis prod.collapse)
  have "f s \<le> f t"
    using keepsD [OF build_keep(7) [OF emit_object_keep [OF assms]] build] by simp
  also have "keeps (grows f) (bind_a (lift_r produced) (\<lambda>summary.
      bind_a (lift_r built) (\<lambda>root.
      bind_a (put_all S (summary_finish E summary (ref_digest root))) (\<lambda>_.
        ret \<lparr>br_root = root, br_root_bytes = small, br_keys = sb_keys summary, br_shards = sb_shards summary\<rparr>))))"
    by (intro keeps_rules put_all_keep [OF assms summary_finish_keys])
  then have "f t \<le> f s'"
    by (rule keepsD) (use join build in \<open>simp add: merge_join_def\<close>)
  finally show "f s \<le> f s'" .
qed

lemma merge_runs_keep:
  assumes "store_keeps S f" "merge_runs E S runs n s = Some (res, s')"
  shows "f s \<le> f s'"
proof (cases "map_r (\<lambda>(r, bytes). decode_root E r bytes) runs")
  case readers: (Inr readers)
  obtain v t where new: "read_ahead_new E S readers s = (v, t)" by (rule prod.exhaust)
  have le: "f s \<le> f t" using keepsD [OF read_ahead_new_keep [OF assms(1)] new] .
  show ?thesis
  proof (cases v)
    case ra: (Inr ra)
    then have merge: "merge_readers E S readers ra n t = Some (res, s')"
      using assms(2) readers new by (simp add: merge_runs_def)
    have "f t \<le> f s'"
    proof (cases "summary_new n")
      case (Inl e)
      with merge show ?thesis using keepsD [OF merge_join_keep [OF assms(1)]] by (simp add: merge_readers_def)
    next
      case (Inr summary)
      with merge obtain produced p pages u
        where produce: "produce E (read_ahead_get E S ra) (map scanner readers) summary ([], t) = Some (produced, p, (pages, u))"
          and join: "merge_join E S (map_sum id (\<lambda>_. pr_summary p) produced) (pr_sent p) u = (res, s')"
        by (auto simp: merge_readers_def split: option.splits)
      have "f t \<le> f u" using produce_keeps [OF produce read_ahead_get_keep [OF assms(1)]] by simp
      also have "f u \<le> f s'" using keepsD [OF merge_join_keep [OF assms(1)] join] .
      finally show ?thesis .
    qed
    with le show ?thesis by (rule order_trans)
  qed (use assms(2) readers new le in \<open>simp add: merge_runs_def\<close>)
qed (use assms(2) in \<open>simp add: merge_runs_def\<close>)

sublocale archive_laws \<subseteq> emitted: object_sink "emit_object E S" "\<lambda>(small, s). store_holds E (contents s)" for E :: "'x ext_scheme"
proof
  fix ob :: encoded_object and st st' :: "bytes \<times> 's" and u :: unit and res :: "unit result"
  obtain b s b' s' where st: "st = (b, s)" "st' = (b', s')" by (metis prod.exhaust)
  show "emit_object E S ob st = (Inr u, st') \<Longrightarrow> (case st' of (small, s) \<Rightarrow> store_holds E (contents s)) (obj_reference ob) (obj_bytes ob)"
    using sink.emit_held [of E ob s u s'] by (auto simp: st emit_object_def split: prod.splits)
  show "emit_object E S ob st = (res, st') \<Longrightarrow>
      (case st of (small, s) \<Rightarrow> store_holds E (contents s)) \<le> (case st' of (small, s) \<Rightarrow> store_holds E (contents s))"
    using sink.emit_mono [of E ob s res s'] by (auto simp: st emit_object_def split: prod.splits)
qed

section \<open>Merged runs\<close>

lemma decode_roots:
  assumes "list_all2 (\<lambda>(r, bytes) recs. \<exists>rr. decode_root E r bytes = Inr rr \<and> reader_rep E H rr recs) runs inputs"
  obtains readers where "map_r (\<lambda>(r, bytes). decode_root E r bytes) runs = Inr readers" "list_all2 (reader_rep E H) readers inputs"
proof -
  have "list_all2 ((\<lambda>x rr. (case x of (r, bytes) \<Rightarrow> decode_root E r bytes) = Inr rr) OO reader_rep E H) runs inputs"
    using assms by (rule list_all2_mono) auto
  then show thesis unfolding list.rel_compp using that by (auto simp: map_r_Inr)
qed

text \<open>The merge of represented runs returns, and what it returns holds exactly their records, sorted.\<close>

definition merged :: "'x ext_scheme \<Rightarrow> krecord list list \<Rightarrow> (string \<Rightarrow> bytes option) \<Rightarrow> built_run \<Rightarrow> bool" where
  "merged E inputs c b \<longleftrightarrow> (zstd_roundtrip E \<longrightarrow> nonzero (store_holds E c) \<longrightarrow>
     (\<exists>recs. ssorted (map rec_vkey recs) \<and> mset recs = mset (concat inputs) \<and> built_rep E c b recs))"

context archive_laws begin

text \<open>The bytes the builder task keeps are those of the root.\<close>

lemma emitted_root:
  assumes build: "build E (emit_object E S) recs st = (Inr root, (small, s'))"
    and rep: "run_rep E (store_holds E (contents s')) root recs"
  shows "store_holds E (contents s') root small"
proof -
  from build obtain ob st1 where ob: "emit_object E S ob st1 = (Inr (), (small, s'))" "root = obj_reference ob"
    by (auto simp: build_def)
  then have held: "store_holds E (contents s') root (obj_bytes ob)" using emitted.emit_held [OF ob(1)] by simp
  moreover obtain bs where "store_holds E (contents s') root bs" "length bs = 581"
    using rep by (auto simp: run_rep_def decode_root_def ROOT_BYTES_def PARTITIONS_def REF_BYTES_def split: if_splits)
  ultimately have "length (obj_bytes ob) = 581" by (simp add: store_holds_def)
  then have "small = obj_bytes ob" using ob(1) by (auto simp: emit_object_def split: prod.splits)
  with held show ?thesis by simp
qed

lemma merge_built:
  assumes build: "build E (emit_object E S) recs st = (Inr root, (small, s1))"
    and shards: "put_all S (summary_finish E summary (ref_digest root)) s1 = (Inr u, s')"
    and summary: "summary_new n = Inr summary0" "summary = summary_adds E ks summary0" "set ks = rec_key ` set recs"
    and hyps: "zstd_roundtrip E" "nonzero (store_holds E (contents s'))"
  shows "built_rep E (contents s') \<lparr>br_root = root, br_root_bytes = small, br_keys = k, br_shards = sb_shards summary\<rparr> recs"
proof -
  have mono: "contents s1 \<subseteq>\<^sub>m contents s'" using shards by (rule put_all_mono)
  note le = store_holds_mono [OF mono, of E]
  have rep: "run_rep E (store_holds E (contents s1)) root recs"
    using emitted.build_rep [OF build hyps(1)] nonzero_mono [OF hyps(2) le] by simp
  have "answers E (contents s') (ref_digest root) (sb_shards summary) (rec_key r)" if "r \<in> set recs" for r
    using summary_put_answers [OF shards summary(1,2), of "rec_key r"] summary(3) that by simp
  then show ?thesis
    using run_rep_mono [OF rep le] emitted_root [OF build rep] le summary_put_shards [OF shards summary(1,2)]
    by (auto simp: built_rep_def)
qed

lemma merge_join_correct:
  assumes join: "merge_join E S (Inr (summary_adds E ks summary0)) recs s = (Inr b, s')"
    and summary: "summary_new n = Inr summary0" "set ks = rec_key ` set recs"
    and hyps: "zstd_roundtrip E" "nonzero (store_holds E (contents s'))"
  shows "built_rep E (contents s') b recs"
proof -
  from join obtain root small s1 where build: "build E (emit_object E S) recs ([], s) = (Inr root, (small, s1))"
    and shards: "put_all S (summary_finish E (summary_adds E ks summary0) (ref_digest root)) s1 = (Inr (), s')"
    and b: "b = \<lparr>br_root = root, br_root_bytes = small, br_keys = sb_keys (summary_adds E ks summary0),
      br_shards = sb_shards (summary_adds E ks summary0)\<rparr>"
    by (cases "build E (emit_object E S) recs ([], s)"; cases "fst (build E (emit_object E S) recs ([], s))") (auto simp: merge_join_def)
  show ?thesis unfolding b by (rule merge_built [OF build shards summary(1) refl summary(2) hyps])
qed

lemma merge_readers_correct:
  assumes readers: "list_all2 (reader_rep E (stored E (contents s))) readers inputs" and ok: "ra_ok (stored E (contents s)) ra []"
  shows "\<exists>res s'. merge_readers E S readers ra n s = Some (res, s') \<and> contents s \<subseteq>\<^sub>m contents s' \<and>
    (\<forall>b. res = Inr b \<longrightarrow> merged E inputs (contents s') b)"
proof (cases "summary_new n")
  case (Inl e)
  obtain res s' where join: "merge_join E S (Inl e) [] s = (res, s')" by (rule prod.exhaust)
  moreover have "res \<noteq> Inr b" for b using join by (auto simp: merge_join_def split: prod.splits)
  ultimately show ?thesis using keepsD [OF merge_join_keep [OF keeps_contents] join] Inl by (simp add: merge_readers_def has_le_iff)
next
  case summary: (Inr summary0)
  have "ra_holds E ra (contents s) [] = stored E (contents s)" using ok by (auto simp: ra_holds_def intro!: ext)
  then have "list_all2 (reader_rep E (case ([], s) of (pages, s) \<Rightarrow> ra_holds E ra (contents s) pages)) readers inputs"
    using readers by simp
  from ahead.produce_correct [OF this, of summary0]
  obtain v p st where produce: "produce E (read_ahead_get E S ra) (map scanner readers) summary0 ([], s) = Some (v, p, st)"
    and v: "case v of Inl e \<Rightarrow> fails e \<or> \<not> distinct (map rec_vkey (concat inputs))
     | Inr _ \<Rightarrow> (case st of (pages, s) \<Rightarrow> ra_holds E ra (contents s) pages) = (case ([], s) of (pages, s) \<Rightarrow> ra_holds E ra (contents s) pages) \<and>
         ssorted (map rec_vkey (pr_sent p)) \<and> mset (pr_sent p) = mset (concat inputs) \<and>
         (\<exists>ks. pr_summary p = summary_adds E ks summary0 \<and> set ks = rec_key ` set (pr_sent p))" by blast
  obtain pages t where st: "st = (pages, t)" by (rule prod.exhaust)
  have le: "contents s \<subseteq>\<^sub>m contents t"
    using produce_keeps [OF produce read_ahead_get_keep [OF keeps_contents]] by (simp add: st has_le_iff)
  obtain res s' where join: "merge_join E S (map_sum id (\<lambda>_. pr_summary p) v) (pr_sent p) t = (res, s')" by (rule prod.exhaust)
  have "merged E inputs (contents s') b" if "res = Inr b" for b
  proof (cases v)
    case (Inl e)
    with join that show ?thesis by (auto simp: merge_join_def split: prod.splits)
  next
    case (Inr u)
    with v obtain ks where sent: "ssorted (map rec_vkey (pr_sent p))" "mset (pr_sent p) = mset (concat inputs)"
      and ks: "pr_summary p = summary_adds E ks summary0" "set ks = rec_key ` set (pr_sent p)" by auto
    from merge_join_correct [of E ks summary0 "pr_sent p" t b s' n] join summary ks(2) Inr that
    show ?thesis unfolding merged_def ks(1) using sent by auto
  qed
  moreover have "contents s \<subseteq>\<^sub>m contents s'"
    using le keepsD [OF merge_join_keep [OF keeps_contents] join] by (auto simp: has_le_iff intro: map_le_trans)
  ultimately show ?thesis using produce join summary by (simp add: merge_readers_def st)
qed

theorem merge_runs_correct:
  assumes runs: "list_all2 (\<lambda>(r, bytes) recs. \<exists>rr. decode_root E r bytes = Inr rr \<and> reader_rep E (stored E (contents s)) rr recs) runs inputs"
  shows "\<exists>res s'. merge_runs E S runs n s = Some (res, s') \<and> contents s \<subseteq>\<^sub>m contents s' \<and>
    (\<forall>b. res = Inr b \<longrightarrow> merged E inputs (contents s') b)"
proof -
  obtain readers where readers: "map_r (\<lambda>(r, bytes). decode_root E r bytes) runs = Inr readers"
    "list_all2 (reader_rep E (stored E (contents s))) readers inputs" using decode_roots [OF runs] .
  obtain v t where new: "read_ahead_new E S readers s = (v, t)" by (rule prod.exhaust)
  have le: "contents s \<subseteq>\<^sub>m contents t" using keepsD [OF read_ahead_new_keep [OF keeps_contents] new] by (simp add: has_le_iff)
  show ?thesis
  proof (cases v)
    case (Inl e)
    with new readers(1) le show ?thesis by (simp add: merge_runs_def)
  next
    case (Inr ra)
    with read_ahead_new_correct [OF readers(2)] new
    have "list_all2 (reader_rep E (stored E (contents t))) readers inputs" "ra_ok (stored E (contents t)) ra []"
      using readers(2) by simp_all
    from merge_readers_correct [OF this, of n] le Inr new readers(1) show ?thesis
      by (auto simp: merge_runs_def intro: map_le_trans)
  qed
qed

end

end
