(* ===== verification/Tiered.thy ===== *)
theory Tiered
  imports Format Merge
begin

text \<open>
  \<^verbatim>\<open>src/tiered.rs\<close>, the writers: staging and swapping the head, package checks, \<^verbatim>\<open>publish\<close> and
  \<^verbatim>\<open>compact_once\<close>. A loop over \<^verbatim>\<open>CAS_ATTEMPTS\<close> is a recursion on the number of attempts left; its body
  is cut at the points where another writer may act between two requests, so that the
  same functions are the steps of theory \<open>Writers\<close>. The time a merge took is an argument of
  \<open>compact_once\<close>.
\<close>

section \<open>Heads in the store\<close>

datatype publication_gate =
    Finalized u64 hash32
  | FixedOffset u64 hash32 u64

definition MAX_STAGED :: nat where "MAX_STAGED = 256 * 1024 * 1024"
definition MAX_CODE :: nat where "MAX_CODE = 1024 * 1024"
definition CAS_ATTEMPTS :: nat where "CAS_ATTEMPTS = 32"
definition MERGE_DEADLINE :: nat where "MERGE_DEADLINE = 2 * 3600"

definition stage :: "'x ext_scheme \<Rightarrow> 's archive_store \<Rightarrow> bytes \<Rightarrow> ('s, obj_ref) act" where
  "stage E S bytes =
     bind_a (lift_r (u32_try_from ''out of range integral type conversion attempted'' (length bytes))) (\<lambda>len.
     bind_a (st_put_immutable S (object_key E (sha256 E bytes)) bytes) (\<lambda>_.
       ret \<lparr>ref_digest = sha256 E bytes, ref_length = len\<rparr>))"

definition read_head :: "'x ext_head_scheme \<Rightarrow> 's archive_store \<Rightarrow> u64 \<Rightarrow> ('s, (versioned_bytes \<times> head) option) act" where
  "read_head E S chain_id =
     bind_a (st_read_mutable_bounded S (head_key chain_id) MAX_HEAD) (\<lambda>r.
       case r of
         None \<Rightarrow> ret None
       | Some bytes \<Rightarrow>
           bind_a (lift_r (head_decode E (v_bytes bytes))) (\<lambda>head.
             if hd_chain_id head \<noteq> chain_id then bail_a ''tiered head chain mismatch'' else ret (Some (bytes, head))))"

definition swap :: "'x ext_head_scheme \<Rightarrow> 's archive_store \<Rightarrow> versioned_bytes option \<Rightarrow> head \<Rightarrow> ('s, unit) act" where
  "swap E S previous next =
     bind_a (case previous of
               Some previous \<Rightarrow> bind_a (stage E S (v_bytes previous)) (\<lambda>r. ret (Some r))
             | None \<Rightarrow> ret None) (\<lambda>parent.
     bind_a (lift_r (head_to_json E (next\<lparr>hd_parent := parent\<rparr>))) (\<lambda>bytes.
       if length bytes > MAX_HEAD then bail_a ''tiered head exceeds its size bound''
       else st_compare_and_swap S (head_key (hd_chain_id next)) previous bytes))"

section \<open>Packages\<close>

definition account_value :: "account_event \<Rightarrow> bytes" where
  "account_value event =
     account_encode \<lparr>as_exists = ae_exists event, as_incarnation = ae_incarnation event, as_nonce = ae_nonce event,
       as_balance = ae_balance event, as_code_hash = ae_code_hash event\<rparr>"

definition new_run :: "'x ext_scheme \<Rightarrow> u64 \<Rightarrow> u64 \<Rightarrow> u64 \<Rightarrow> built_run \<Rightarrow> head_run" where
  "new_run E start end' weight built =
     \<lparr>hr_start = start, hr_end = end', hr_weight = weight, hr_keys = br_keys built, hr_shards = br_shards built,
      hr_root = br_root built, hr_root_bytes = hex_encode E (br_root_bytes built)\<rparr>"

text \<open>The closure \<^verbatim>\<open>add\<close>: the records so far and their staged size.\<close>

definition add_record ::
  "u64 \<Rightarrow> u64 \<Rightarrow> krecord list \<times> nat \<Rightarrow> bytes \<Rightarrow> u64 \<Rightarrow> bytes \<Rightarrow> (krecord list \<times> nat) result" where
  "add_record first final = (\<lambda>(records, input_bytes) key block value.
     if \<not> (first \<le> block \<and> block \<le> final) then bail ''event outside package interval''
     else
       let input_bytes = input_bytes + (length key + length value + 32)
       in if input_bytes > MAX_STAGED then bail ''tiered in-memory input exceeds 256 MiB''
          else Inr (records @ [\<lparr>rec_key = key, rec_block = block, rec_value = value\<rparr>], input_bytes))"

definition package_records :: "'x ext_scheme \<Rightarrow> package \<Rightarrow> krecord list result" where
  "package_records E package =
     (let segment = pk_segment package
      in bind_r (ok_or ''empty package'' (first_opt (sg_blocks segment))) (\<lambda>first.
         let final = last (sg_blocks segment);
             add = add_record (bm_number first) (bm_number final)
         in bind_r (fold_r (\<lambda>st event. add st (account_key (ae_address event)) (ae_block event) (account_value event))
                      ([], 0) (sg_accounts segment)) (\<lambda>st.
            bind_r (fold_r (\<lambda>st event. add st (storage_key (se_address event) (se_incarnation event) (se_slot event))
                      (se_block event) (h32_be (se_value event))) st (sg_storage segment)) (\<lambda>st.
            bind_r (fold_r (\<lambda>st blob.
                      if length (cb_bytes blob) > MAX_CODE \<or> keccak256 E (cb_bytes blob) \<noteq> cb_code_hash blob
                      then bail ''invalid or oversized code blob''
                      else add st (code_key (cb_code_hash blob)) (cb_first_seen_block blob) (cb_bytes blob))
                    st (sg_code segment)) (\<lambda>(records, _).
              Inr (sort_key rec_vkey records))))))"

text \<open>The account record of an address that a storage record at \<open>block\<close> falls under.\<close>

definition account_before :: "account_event list \<Rightarrow> address \<Rightarrow> u64 \<Rightarrow> account_event option" where
  "account_before accounts address block =
     find (\<lambda>account. ae_block account \<le> block) (rev (sort_key ae_block (filter (\<lambda>event. ae_address event = address) accounts)))"

definition storage_matches :: "bool \<Rightarrow> account_event list \<Rightarrow> storage_event \<Rightarrow> bool" where
  "storage_matches anchor accounts event =
     (case account_before accounts (se_address event) (se_block event) of
        Some account \<Rightarrow>
          ae_exists account \<and> ae_incarnation account = se_incarnation event \<or> \<not> ae_exists account \<and> se_value event = 0
      | None \<Rightarrow> \<not> anchor)"

definition validate_lifecycle :: "'x ext_scheme \<Rightarrow> package \<Rightarrow> unit result" where
  "validate_lifecycle E package =
     (let segment = pk_segment package; anchor = (pk_mode package = Anchor)
      in if \<not> list_all (storage_matches anchor (sg_accounts segment)) (sg_storage segment)
         then bail ''storage record does not match its account incarnation''
         else if anchor \<and> list_ex (\<lambda>account. ae_exists account \<and> ae_code_hash account \<noteq> keccak256 E [] \<and>
                   ae_code_hash account \<notin> cb_code_hash ` set (sg_code segment)) (sg_accounts segment)
         then bail ''anchor account references code absent from the package''
         else Inr ())"

definition is_published :: "head \<Rightarrow> package \<Rightarrow> bool" where
  "is_published head package =
     (let segment = pk_segment package
      in case last_opt (sg_blocks segment) of
           None \<Rightarrow> False
         | Some final \<Rightarrow> hd_chain_id head = sg_chain_id segment \<and> hd_genesis head = sg_genesis_hash segment \<and>
             hd_number head = bm_number final \<and> hd_hash head = bm_hash final \<and> hd_input_sha256 head = pk_input_sha256 package)"

section \<open>Publication\<close>

text \<open>\<^verbatim>\<open>u64::checked_add(1)\<close>.\<close>

definition checked_succ :: "u64 \<Rightarrow> u64 option" where
  "checked_succ n = (if n = -1 then None else Some (n + 1))"

fun linked :: "block_meta list \<Rightarrow> bool" where
  "linked (a # b # bs) \<longleftrightarrow> checked_succ (bm_number a) = Some (bm_number b) \<and> bm_hash a = bm_parent_hash b \<and> linked (b # bs)"
| "linked _ \<longleftrightarrow> True"

definition interval_ok :: "segment \<Rightarrow> block_meta \<Rightarrow> block_meta \<Rightarrow> bool" where
  "interval_ok segment first final \<longleftrightarrow>
     \<not> (sg_start_block segment \<noteq> bm_number first \<or> sg_end_block segment \<noteq> bm_number final
        \<or> length (sg_blocks segment) > 1000 \<or> \<not> linked (sg_blocks segment))"

fun gate_ok :: "publication_gate \<Rightarrow> block_meta \<Rightarrow> bool" where
  "gate_ok (Finalized number hash) final \<longleftrightarrow> number = bm_number final \<and> hash = bm_hash final"
| "gate_ok (FixedOffset observed_number observed_hash offset) final \<longleftrightarrow>
     offset = 0 \<and> observed_number = bm_number final \<and> observed_hash = bm_hash final"

definition transition_ok :: "package \<Rightarrow> block_meta \<Rightarrow> head option \<Rightarrow> bool" where
  "transition_ok package first previous =
     (let segment = pk_segment package
      in case (pk_mode package, previous) of
           (Anchor, None) \<Rightarrow> bm_number first = 0 \<and> bm_hash first = sg_genesis_hash segment \<and> bm_parent_hash first = 0
         | (Delta, Some head) \<Rightarrow> hd_genesis head = sg_genesis_hash segment \<and> checked_succ (hd_number head) = Some (bm_number first) \<and>
             pk_preceding_number package = Some (hd_number head) \<and> pk_preceding_hash package = Some (hd_hash head) \<and>
             bm_parent_hash first = hd_hash head
         | _ \<Rightarrow> False)"

text \<open>Everything before the first CAS: \<open>None\<close> when the package is already published.\<close>

definition publish_start ::
  "'x ext_head_scheme \<Rightarrow> 's archive_store \<Rightarrow> package \<Rightarrow> publication_gate \<Rightarrow> ('s, (head_run \<times> (versioned_bytes \<times> head) option) option) act" where
  "publish_start E S package gate =
     (let segment = pk_segment package
      in bind_a (lift_r (ok_or ''empty package'' (first_opt (sg_blocks segment)))) (\<lambda>first.
         let final = last (sg_blocks segment)
         in if \<not> interval_ok segment first final then bail_a ''invalid package block interval''
            else if \<not> gate_ok gate final then bail_a ''tiered publication gate is not canonical at the package end''
            else
              bind_a (read_head E S (sg_chain_id segment)) (\<lambda>previous.
                if (case previous of Some (_, head) \<Rightarrow> is_published head package | None \<Rightarrow> False) then ret None
                else if \<not> transition_ok package first (map_option snd previous)
                then bail_a ''tiered chain/genesis/parent transition invalid''
                else if (case previous of Some (_, head) \<Rightarrow> length (hd_l0 head) \<ge> MAX_L0_BACKLOG | None \<Rightarrow> False)
                then bail_a ''tiered L0 compaction backlog is full''
                else
                  bind_a (lift_r (validate_lifecycle E package)) (\<lambda>_.
                  bind_a (lift_r (package_records E package)) (\<lambda>records.
                  bind_a (write_sorted E S records) (\<lambda>built.
                    ret (Some (new_run E (bm_number first) (bm_number final) 1 built, previous))))))))"

definition publish_next :: "package \<Rightarrow> head_run \<Rightarrow> head option \<Rightarrow> head" where
  "publish_next package run previous =
     (let segment = pk_segment package; first = hd (sg_blocks segment); final = last (sg_blocks segment);
          next = (case previous of
                    Some head \<Rightarrow> head\<lparr>hd_l0 := hd_l0 head @ [run]\<rparr>
                  | None \<Rightarrow> \<lparr>hd_magic = ''FTVH1'', hd_chain_id = sg_chain_id segment, hd_genesis = sg_genesis_hash segment,
                      hd_number = 0, hd_hash = bm_hash first, hd_state_root = bm_state_root first,
                      hd_input_sha256 = pk_input_sha256 package, hd_parent = None, hd_l0 = [run], hd_levels = []\<rparr>)
      in next\<lparr>hd_number := bm_number final, hd_hash := bm_hash final, hd_state_root := bm_state_root final,
              hd_input_sha256 := pk_input_sha256 package\<rparr>)"

definition publish_swap ::
  "'x ext_head_scheme \<Rightarrow> 's archive_store \<Rightarrow> package \<Rightarrow> head_run \<Rightarrow> (versioned_bytes \<times> head) option \<Rightarrow> ('s, unit) act" where
  "publish_swap E S package run previous =
     swap E S (map_option fst previous) (publish_next package run (map_option snd previous))"

text \<open>
  After a failed swap: \<open>Inr None\<close> when the package turns out to be published, the head to rebase onto
  when only a compactor replaced runs, and the error of the swap otherwise.
\<close>

definition publish_retry ::
  "'x ext_head_scheme \<Rightarrow> 's archive_store \<Rightarrow> package \<Rightarrow> (versioned_bytes \<times> head) option \<Rightarrow> error \<Rightarrow>
     ('s, (versioned_bytes \<times> head) option) act" where
  "publish_retry E S package previous e =
     bind_a (read_head E S (sg_chain_id (pk_segment package))) (\<lambda>current.
       case (current, previous) of
         (Some (bytes, now), _) \<Rightarrow>
           if is_published now package then ret None
           else (case previous of
                   Some (_, before) \<Rightarrow>
                     if hd_number now = hd_number before \<and> hd_hash now = hd_hash before then ret current else lift_r (Inl e)
                 | None \<Rightarrow> lift_r (Inl e))
       | _ \<Rightarrow> lift_r (Inl e))"

fun publish_loop ::
  "'x ext_head_scheme \<Rightarrow> 's archive_store \<Rightarrow> package \<Rightarrow> head_run \<Rightarrow> nat \<Rightarrow> (versioned_bytes \<times> head) option \<Rightarrow> ('s, unit) act" where
  "publish_loop E S package run 0 previous = bail_a ''tiered publication lost too many CAS races''"
| "publish_loop E S package run (Suc n) previous = (\<lambda>s.
     case publish_swap E S package run previous s of
       (Inr _, s) \<Rightarrow> (Inr (), s)
     | (Inl e, s) \<Rightarrow>
         bind_a (publish_retry E S package previous e) (\<lambda>current.
           case current of None \<Rightarrow> ret () | Some _ \<Rightarrow> publish_loop E S package run n current) s)"

definition publish :: "'x ext_head_scheme \<Rightarrow> 's archive_store \<Rightarrow> package \<Rightarrow> publication_gate \<Rightarrow> ('s, unit) act" where
  "publish E S package gate =
     bind_a (publish_start E S package gate) (\<lambda>job.
       case job of
         None \<Rightarrow> ret ()
       | Some (run, previous) \<Rightarrow> publish_loop E S package run CAS_ATTEMPTS previous)"

section \<open>Compaction\<close>

text \<open>
  The cascade through full levels: the levels with the folded runs taken out, the weight and the
  runs taken (lowest level first), and the target level.
\<close>

function cascade ::
  "head_run option list \<Rightarrow> u64 \<Rightarrow> head_run list \<Rightarrow> nat \<Rightarrow> (head_run option list \<times> u64 \<times> head_run list \<times> nat) result" where
  "cascade levels weight deeper target =
     (if target \<ge> MAX_LEVELS then bail ''tiered history exceeds the bounded level count''
      else
        let levels = (if length levels = target then levels @ [None] else levels);
            taken = (case levels ! target of
                       Some run \<Rightarrow> (levels[target := None], weight + hr_weight run, deeper @ [run])
                     | None \<Rightarrow> (levels, weight, deeper))
        in case taken of
             (levels, weight, deeper) \<Rightarrow>
               if weight < level_unit target * FANOUT then Inr (levels, weight, deeper, target)
               else if weight \<noteq> level_unit target * FANOUT then bail ''tiered level capacity exceeded''
               else cascade levels weight deeper (target + 1))"
  by pat_completeness auto
termination by (relation "measure (\<lambda>(_, _, _, target). MAX_LEVELS - target)") (auto split: option.splits)

declare cascade.simps [simp del]

fun adjacent :: "head_run list \<Rightarrow> bool" where
  "adjacent (a # b # rs) \<longleftrightarrow> checked_succ (hr_end a) = Some (hr_start b) \<and> adjacent (b # rs)"
| "adjacent _ \<longleftrightarrow> True"

text \<open>What is to be merged, from the head that was read: levels, weight, input runs and target level.\<close>

definition compact_plan :: "head \<Rightarrow> (head_run option list \<times> u64 \<times> head_run list \<times> nat) result" where
  "compact_plan planned =
     bind_r (cascade (hd_levels planned) (word_of_nat L0_TRIGGER) [] 0) (\<lambda>(levels, weight, deeper, target).
       let inputs = rev deeper @ take L0_TRIGGER (hd_l0 planned)
       in if \<not> adjacent inputs then bail ''noncontiguous tiered compaction inputs''
          else Inr (levels, weight, inputs, target))"

text \<open>The new levels, without empty ones at the end.\<close>

definition compact_levels ::
  "'x ext_scheme \<Rightarrow> head_run option list \<Rightarrow> u64 \<Rightarrow> head_run list \<Rightarrow> nat \<Rightarrow> built_run \<Rightarrow> head_run option list" where
  "compact_levels E levels weight inputs target built =
     rev (dropWhile (\<lambda>l. l = None)
       (rev (levels[target := Some (new_run E (hr_start (hd inputs)) (hr_end (last inputs)) weight built)])))"

text \<open>Reading the head to commit to.\<close>

definition compact_read :: "'x ext_head_scheme \<Rightarrow> 's archive_store \<Rightarrow> u64 \<Rightarrow> head \<Rightarrow> ('s, versioned_bytes \<times> head) act" where
  "compact_read E S chain_id planned =
     bind_a (read_head E S chain_id) (\<lambda>r.
     bind_a (lift_r (ok_or ''tiered head vanished'' r)) (\<lambda>(bytes, current).
       if hd_levels current \<noteq> hd_levels planned \<or> \<not> prefix (take L0_TRIGGER (hd_l0 planned)) (hd_l0 current)
       then bail_a ''tiered head changed incompatibly during compaction''
       else ret (bytes, current)))"

definition compact_next :: "head_run option list \<Rightarrow> head \<Rightarrow> head" where
  "compact_next levels current = current\<lparr>hd_l0 := drop L0_TRIGGER (hd_l0 current), hd_levels := levels\<rparr>"

fun compact_loop ::
  "'x ext_head_scheme \<Rightarrow> 's archive_store \<Rightarrow> u64 \<Rightarrow> head \<Rightarrow> head_run option list \<Rightarrow> nat \<Rightarrow> ('s, bool) act" where
  "compact_loop E S chain_id planned levels 0 = bail_a ''tiered compaction lost too many CAS races''"
| "compact_loop E S chain_id planned levels (Suc n) =
     bind_a (compact_read E S chain_id planned) (\<lambda>(bytes, current) s.
       case swap E S (Some bytes) (compact_next levels current) s of
         (Inr _, s) \<Rightarrow> (Inr True, s)
       | (Inl _, s) \<Rightarrow> compact_loop E S chain_id planned levels n s)"

text \<open>
  Everything before the first CAS: \<open>Inr None\<close> when there is nothing to fold, otherwise the head
  that was read and the new levels. \<open>elapsed\<close> is what the merge took, in seconds. \<open>None\<close> when the merge
  does not return.
\<close>

definition compact_start ::
  "'x ext_head_scheme \<Rightarrow> 's archive_store \<Rightarrow> u64 \<Rightarrow> nat \<Rightarrow> 's \<Rightarrow> ((head \<times> head_run option list) option result \<times> 's) option" where
  "compact_start E S chain_id elapsed s =
     (case read_head E S chain_id s of
        (Inl e, s) \<Rightarrow> Some (Inl e, s)
      | (Inr None, s) \<Rightarrow> Some (Inr None, s)
      | (Inr (Some (_, planned)), s) \<Rightarrow>
          if length (hd_l0 planned) < L0_TRIGGER then Some (Inr None, s)
          else
            case bind_r (compact_plan planned) (\<lambda>(levels, weight, inputs, target).
                   bind_r (map_r (run_input E) inputs) (\<lambda>refs. Inr (levels, weight, inputs, target, refs))) of
              Inl e \<Rightarrow> Some (Inl e, s)
            | Inr (levels, weight, inputs, target, refs) \<Rightarrow>
                (case merge_runs E S refs (sum_list (map hr_keys inputs)) s of
                   None \<Rightarrow> None
                 | Some (Inl e, s) \<Rightarrow> Some (Inl e, s)
                 | Some (Inr built, s) \<Rightarrow>
                     if elapsed > MERGE_DEADLINE
                     then Some (bail ''compaction exceeded its deadline; its output is left for garbage collection'', s)
                     else Some (Inr (Some (planned, compact_levels E levels weight inputs target built)), s)))"

definition compact_once ::
  "'x ext_head_scheme \<Rightarrow> 's archive_store \<Rightarrow> u64 \<Rightarrow> nat \<Rightarrow> 's \<Rightarrow> (bool result \<times> 's) option" where
  "compact_once E S chain_id elapsed s =
     (case compact_start E S chain_id elapsed s of
        None \<Rightarrow> None
      | Some (Inl e, s) \<Rightarrow> Some (Inl e, s)
      | Some (Inr None, s) \<Rightarrow> Some (Inr False, s)
      | Some (Inr (Some (planned, levels)), s) \<Rightarrow> Some (compact_loop E S chain_id planned levels CAS_ATTEMPTS s))"

end
