(* ===== verification/Publication.thy ===== *)
theory Publication
  imports History
begin

text \<open>
  Publishing a package appends its records to the histories. The records of a package are
  those of its events, each within the interval of the package; the head that is
  swapped in is well formed, represents the old histories followed by the new records, and
  is the one every later read finds.
\<close>

section \<open>The records of a package\<close>

definition account_record :: "account_event \<Rightarrow> krecord" where
  "account_record e = \<lparr>rec_key = account_key (ae_address e), rec_block = ae_block e, rec_value = account_value e\<rparr>"

definition storage_record :: "storage_event \<Rightarrow> krecord" where
  "storage_record e = \<lparr>rec_key = storage_key (se_address e) (se_incarnation e) (se_slot e), rec_block = se_block e,
     rec_value = h32_be (se_value e)\<rparr>"

definition code_record :: "code_blob \<Rightarrow> krecord" where
  "code_record b = \<lparr>rec_key = code_key (cb_code_hash b), rec_block = cb_first_seen_block b, rec_value = cb_bytes b\<rparr>"

definition package_log :: "package \<Rightarrow> krecord list" where
  "package_log p = (let segment = pk_segment p
     in map account_record (sg_accounts segment) @ map storage_record (sg_storage segment) @ map code_record (sg_code segment))"

text \<open>The blocks of a package, first to last.\<close>

definition first_block :: "package \<Rightarrow> u64" where
  "first_block p = bm_number (hd (sg_blocks (pk_segment p)))"

definition last_block :: "package \<Rightarrow> u64" where
  "last_block p = bm_number (last (sg_blocks (pk_segment p)))"

lemma add_records:
  assumes "fold_r (\<lambda>st x. add_record first final st (k x) (b x) (v x)) (rs, n) xs = Inr (rs', n')"
  shows "rs' = rs @ map (\<lambda>x. \<lparr>rec_key = k x, rec_block = b x, rec_value = v x\<rparr>) xs \<and> (\<forall>x\<in>set xs. first \<le> b x \<and> b x \<le> final)"
  using assms
proof (induction xs arbitrary: rs n)
  case (Cons x xs)
  from Cons.prems obtain m where "first \<le> b x" "b x \<le> final"
    and rest: "fold_r (\<lambda>st x. add_record first final st (k x) (b x) (v x)) (rs @ [\<lparr>rec_key = k x, rec_block = b x, rec_value = v x\<rparr>], m) xs = Inr (rs', n')"
    by (auto simp: add_record_def Let_def split: if_splits)
  with Cons.IH [OF rest] show ?case by simp
qed simp

text \<open>The code loop also checks each blob.\<close>

lemma fold_r_guard: "fold_r (\<lambda>st x. if P x then bail msg else f st x) b xs = Inr y \<Longrightarrow> fold_r f b xs = Inr y \<and> (\<forall>x\<in>set xs. \<not> P x)"
  by (induction xs arbitrary: b) (auto split: if_splits)

lemma package_records_eq:
  assumes "package_records E p = Inr recs"
  shows "recs = sort_key rec_vkey (package_log p)" "sg_blocks (pk_segment p) \<noteq> []"
    "\<forall>r\<in>set recs. first_block p \<le> rec_block r \<and> rec_block r \<le> last_block p"
    "\<forall>blob\<in>set (sg_code (pk_segment p)). length (cb_bytes blob) \<le> MAX_CODE \<and> keccak256 E (cb_bytes blob) = cb_code_hash blob"
proof -
  from assms obtain first where first: "first_opt (sg_blocks (pk_segment p)) = Some first"
    by (auto simp: package_records_def Let_def)
  then have f: "bm_number first = first_block p" "sg_blocks (pk_segment p) \<noteq> []" by (auto simp: first_block_def)
  let ?add = "add_record (first_block p) (last_block p)"
  from assms first obtain r1 n1 r2 n2 r3 n3
    where a: "fold_r (\<lambda>st event. ?add st (account_key (ae_address event)) (ae_block event) (account_value event)) ([], 0) (sg_accounts (pk_segment p)) = Inr (r1, n1)"
      and s: "fold_r (\<lambda>st event. ?add st (storage_key (se_address event) (se_incarnation event) (se_slot event)) (se_block event) (h32_be (se_value event)))
        (r1, n1) (sg_storage (pk_segment p)) = Inr (r2, n2)"
      and c: "fold_r (\<lambda>st blob. if length (cb_bytes blob) > MAX_CODE \<or> keccak256 E (cb_bytes blob) \<noteq> cb_code_hash blob
          then bail ''invalid or oversized code blob'' else ?add st (code_key (cb_code_hash blob)) (cb_first_seen_block blob) (cb_bytes blob))
        (r2, n2) (sg_code (pk_segment p)) = Inr (r3, n3)"
      and recs: "recs = sort_key rec_vkey r3"
    unfolding package_records_def Let_def first ok_or_simps bind_r_simps f(1) last_block_def [symmetric]
    by (auto simp del: if_bail_Inr)
  note a' = add_records [OF a] and s' = add_records [OF s] and c' = fold_r_guard [OF c, THEN conjunct1, THEN add_records]
  have r3: "r3 = package_log p"
    using a' s' c' by (simp add: package_log_def Let_def account_record_def [abs_def] storage_record_def [abs_def] code_record_def [abs_def])
  then show "recs = sort_key rec_vkey (package_log p)" by (simp add: recs)
  show "sg_blocks (pk_segment p) \<noteq> []" by (rule f(2))
  show "\<forall>r\<in>set recs. first_block p \<le> rec_block r \<and> rec_block r \<le> last_block p"
    using a' s' c' by (auto simp: recs r3 package_log_def Let_def account_record_def storage_record_def code_record_def)
  show "\<forall>blob\<in>set (sg_code (pk_segment p)). length (cb_bytes blob) \<le> MAX_CODE \<and> keccak256 E (cb_bytes blob) = cb_code_hash blob"
    using fold_r_guard [OF c] by (auto simp: not_less)
qed

section \<open>The next head\<close>

lemma linked_le: "linked bs \<Longrightarrow> bs \<noteq> [] \<Longrightarrow> bm_number (hd bs) \<le> bm_number (last bs)"
proof (induction bs rule: linked.induct)
  case (1 a b bs)
  then have "bm_number a < bm_number b" "bm_number b \<le> bm_number (last (b # bs))"
    using plus_one_le(1) [of "bm_number a" "bm_number b"] by (auto simp: checked_succ_def split: if_splits)
  then show ?case by auto
qed auto

lemma contiguous_snoc:
  assumes "contiguous a rs b" "hr_start r = b" "b \<le> hr_end r"
  shows "contiguous a (rs @ [r]) (hr_end r + 1)"
  using assms by (auto simp: contiguous_append)

lemma head_rep_append:
  assumes rep: "head_rep E c h hist" and run: "hrun_rep E c r recs" "run_ok E r" "hr_weight r = 1"
    and "hr_start r = hd_number h + 1" "hr_start r \<le> hr_end r" "hr_end r \<noteq> -1" "length (hd_l0 h) < MAX_L0_BACKLOG"
    and nxt: "hd_magic h' = hd_magic h" "hd_l0 h' = hd_l0 h @ [r]" "hd_levels h' = hd_levels h" "hd_number h' = hr_end r"
  shows "head_rep E c h' (\<lambda>k. hist k @ versions recs k)"
proof -
  from rep obtain parts where parts: "list_all2 (hrun_rep E c) (head_runs h) parts" "hist = versions (concat parts)"
    by (auto simp: head_rep_def)
  have runs: "head_runs h' = head_runs h @ [r]" by (simp add: head_runs_def nxt)
  have "list_all2 (hrun_rep E c) (head_runs h') (parts @ [recs])" using parts(1) run(1) by (simp add: runs list_all2_appendI)
  moreover have "(\<lambda>k. hist k @ versions recs k) = versions (concat (parts @ [recs]))" by (simp add: parts(2) fun_eq_iff)
  moreover have "head_wf E h'"
    using rep run assms(5,6,8) contiguous_snoc [of 0 "head_runs h" "hd_number h + 1" r]
    by (auto simp: head_rep_def head_wf_def runs nxt)
  moreover have "bounded_runs (head_runs h')" using rep assms(7) by (simp add: head_rep_def runs)
  ultimately show ?thesis unfolding head_rep_def by blast
qed

lemma head_rep_first:
  assumes run: "hrun_rep E c r recs" "run_ok E r" "hr_weight r = 1" "hr_start r = 0" "hr_end r \<noteq> -1"
    and nxt: "hd_magic h = ''FTVH1''" "hd_l0 h = [r]" "hd_levels h = []" "hd_number h = hr_end r"
  shows "head_rep E c h (versions recs)"
proof -
  have runs: "head_runs h = [r]" by (simp add: head_runs_def nxt)
  have "list_all2 (hrun_rep E c) (head_runs h) [recs]" using run(1) by (simp add: runs)
  moreover have "head_wf E h" using run by (simp add: head_wf_def runs nxt levels_ok_def MAX_L0_BACKLOG_def)
  ultimately show ?thesis using run(5) unfolding head_rep_def by (auto simp: runs intro!: exI [of _ "[recs]"])
qed

text \<open>The archive after publication of a package, from the archive before.\<close>

definition published_history :: "(head \<times> (bytes \<Rightarrow> krecord list)) option \<Rightarrow> krecord list \<Rightarrow> bytes \<Rightarrow> krecord list" where
  "published_history st recs = (case st of None \<Rightarrow> versions recs | Some (h, hist) \<Rightarrow> (\<lambda>k. hist k @ versions recs k))"

lemma publish_next_rep:
  assumes "case st of None \<Rightarrow> True | Some (h, hist) \<Rightarrow> head_rep E c h hist \<and> length (hd_l0 h) < MAX_L0_BACKLOG"
    and transition: "transition_ok p (hd (sg_blocks (pk_segment p))) (map_option fst st)" "linked (sg_blocks (pk_segment p))"
      "sg_blocks (pk_segment p) \<noteq> []"
    and run: "hrun_rep E c r recs" "run_ok E r" "hr_weight r = 1" "hr_start r = first_block p" "hr_end r = last_block p" "last_block p \<noteq> -1"
  shows "head_rep E c (publish_next p r (map_option fst st)) (published_history st recs)"
    and "hd_number (publish_next p r (map_option fst st)) = last_block p"
proof -
  have le: "first_block p \<le> last_block p" using linked_le [OF transition(2,3)] by (simp add: first_block_def last_block_def)
  show "hd_number (publish_next p r (map_option fst st)) = last_block p" by (simp add: publish_next_def Let_def last_block_def)
  show "head_rep E c (publish_next p r (map_option fst st)) (published_history st recs)"
  proof (cases st)
    case None
    then have "first_block p = 0" using transition(1) by (auto simp: transition_ok_def Let_def first_block_def split: mode.splits)
    with None run show ?thesis
      unfolding published_history_def
      by (auto intro!: head_rep_first [of E c r] simp: publish_next_def Let_def last_block_def)
  next
    case (Some hh)
    obtain h hist where hh: "hh = (h, hist)" by (rule prod.exhaust)
    with Some transition(1) have "first_block p = hd_number h + 1"
      by (auto simp: transition_ok_def Let_def first_block_def checked_succ_def split: mode.splits if_splits)
    with Some hh assms(1) run le show ?thesis
      unfolding published_history_def
      by (auto intro!: head_rep_append [of E c h hist r] simp: publish_next_def Let_def last_block_def)
  qed
qed

section \<open>Publishing\<close>

text \<open>What reading the head returned, and that a store with this head represents it.\<close>

definition head_read :: "'x ext_head_scheme \<Rightarrow> (string \<Rightarrow> bytes option) \<Rightarrow> u64 \<Rightarrow> (versioned_bytes \<times> head) option \<Rightarrow> bool" where
  "head_read E c chain_id previous =
     (case previous of
        None \<Rightarrow> c (head_key chain_id) = None
      | Some (v, h) \<Rightarrow> c (head_key chain_id) = Some (v_bytes v) \<and> head_from_json E (v_bytes v) = Inr h \<and> head_wf E h \<and> hd_chain_id h = chain_id)"

lemma archive_read:
  "archive_rep E c chain_id st \<Longrightarrow> head_read E c chain_id previous \<Longrightarrow> map_option snd previous = map_option fst st"
  by (auto simp: archive_rep_def head_read_def split: option.splits)

lemma archive_rep_same:
  assumes "archive_rep E c chain_id st" "objects_le c c'" "c' (head_key chain_id) = c (head_key chain_id)"
  shows "archive_rep E c' chain_id st"
proof (cases st)
  case (Some hh)
  with assms show ?thesis by (cases hh) (auto simp: archive_rep_def intro: head_rep_objects)
qed (use assms in \<open>simp add: archive_rep_def\<close>)

text \<open>The facts about a package under publication: its run is stored, and it extends the archive.\<close>

definition publishable ::
  "'x ext_scheme \<Rightarrow> (string \<Rightarrow> bytes option) \<Rightarrow> package \<Rightarrow> head_run \<Rightarrow> krecord list \<Rightarrow> bool" where
  "publishable E c p run recs \<longleftrightarrow> package_records E p = Inr recs \<and> linked (sg_blocks (pk_segment p)) \<and> sg_blocks (pk_segment p) \<noteq> [] \<and>
     hrun_rep E c run recs \<and> hr_weight run = 1 \<and> hr_start run = first_block p \<and> hr_end run = last_block p"

definition extends :: "package \<Rightarrow> head option \<Rightarrow> bool" where
  "extends p previous \<longleftrightarrow> transition_ok p (hd (sg_blocks (pk_segment p))) previous \<and>
     (case previous of None \<Rightarrow> True
      | Some h \<Rightarrow> \<not> is_published h p \<and> length (hd_l0 h) < MAX_L0_BACKLOG \<and> hd_chain_id h = sg_chain_id (pk_segment p))"

lemma publishable_objects: "publishable E c p run recs \<Longrightarrow> objects_le c c' \<Longrightarrow> publishable E c' p run recs"
  by (auto simp: publishable_def intro: hrun_rep_objects)

lemma is_published_next:
  assumes "extends p previous" "sg_blocks (pk_segment p) \<noteq> []"
  shows "is_published (publish_next p run previous) p" "hd_chain_id (publish_next p run previous) = sg_chain_id (pk_segment p)"
  using assms by (auto simp: is_published_def publish_next_def Let_def extends_def transition_ok_def split: option.splits mode.splits)

lemma is_published_parent [simp]: "is_published (h\<lparr>hd_parent := x\<rparr>) p \<longleftrightarrow> is_published h p"
  by (simp add: is_published_def Let_def split: option.splits)

context archive_laws begin

lemma outside_head: "outside s' = outside s \<Longrightarrow> contents s' (head_key n) = contents s (head_key n) \<and> version s' (head_key n) = version s (head_key n)"
  unfolding outside_def by (simp add: fun_eq_iff restrict_map_def) (metis head_key_mutable)

lemma read_head_keep: "keeps (grows (\<lambda>s k b. contents s k = Some b)) (read_head E S n)" "keeps (grows (\<lambda>s x. x = outside s)) (read_head E S n)"
  by (auto intro!: keepsI dest!: read_head_sound simp: outside_def)

lemma publish_start_keep:
  assumes "publish_start E S p gate s = (res, s')"
  shows "contents s \<subseteq>\<^sub>m contents s'" "outside s' = outside s"
proof -
  have "keeps (grows f) (publish_start E S p gate)" if "keeps (grows f) (read_head E S (sg_chain_id (pk_segment p)))" "store_keeps S f" for f :: "'s \<Rightarrow> 'q::preorder"
    unfolding publish_start_def Let_def by (auto intro!: keeps_rules that write_sorted_keep)
  from keepsD [OF this [OF read_head_keep(1) keeps_contents] assms] keepsD [OF this [OF read_head_keep(2) keeps_outside] assms]
  show "contents s \<subseteq>\<^sub>m contents s'" "outside s' = outside s" by (simp_all add: has_le_iff le_fun_def)
qed

lemma publish_start_done:
  assumes "publish_start E S p gate s = (Inr None, s')"
  shows "\<exists>v h. head_read E (contents s) (sg_chain_id (pk_segment p)) (Some (v, h)) \<and> is_published h p \<and> contents s' = contents s"
proof -
  from assms obtain previous where "read_head E S (sg_chain_id (pk_segment p)) s = (Inr previous, s')"
    "case previous of Some (_, h) \<Rightarrow> is_published h p | None \<Rightarrow> False"
    by (auto simp: publish_start_def Let_def split: if_splits)
  then show ?thesis using read_head_sound by (fastforce simp: head_read_def split: option.splits prod.splits)
qed

lemma publish_start_job:
  assumes "publish_start E S p gate s = (Inr (Some (run, previous)), s')"
    and hyps: "zstd_roundtrip E" "hex_roundtrip E" "nonzero (store_holds E (contents s'))"
  shows "head_read E (contents s) (sg_chain_id (pk_segment p)) previous" "extends p (map_option snd previous)"
    "\<exists>recs. publishable E (contents s') p run recs"
    "\<forall>v h. previous = Some (v, h) \<longrightarrow> version s (head_key (sg_chain_id (pk_segment p))) = Some (v_version v)"
proof -
  from assms(1) obtain first recs built t
    where first: "first_opt (sg_blocks (pk_segment p)) = Some first"
      and interval: "interval_ok (pk_segment p) first (last (sg_blocks (pk_segment p)))"
      and read: "read_head E S (sg_chain_id (pk_segment p)) s = (Inr previous, t)"
      and new: "\<not> (case previous of Some (_, h) \<Rightarrow> is_published h p | None \<Rightarrow> False)"
      and tr: "transition_ok p first (map_option snd previous)"
      and l0: "\<not> (case previous of Some (_, h) \<Rightarrow> length (hd_l0 h) \<ge> MAX_L0_BACKLOG | None \<Rightarrow> False)"
      and recs: "package_records E p = Inr recs"
      and built: "write_sorted E S recs t = (Inr built, s')"
      and run: "run = new_run E (bm_number first) (bm_number (last (sg_blocks (pk_segment p)))) 1 built"
    unfolding publish_start_def Let_def
    by (simp del: first_opt_eq split: if_splits) blast
  have hd: "hd (sg_blocks (pk_segment p)) = first" "sg_blocks (pk_segment p) \<noteq> []" using first by auto
  show "head_read E (contents s) (sg_chain_id (pk_segment p)) previous" "\<forall>v h. previous = Some (v, h) \<longrightarrow> version s (head_key (sg_chain_id (pk_segment p))) = Some (v_version v)"
    using read_head_sound [OF read] by (auto simp: head_read_def split: option.splits)
  then show "extends p (map_option snd previous)"
    using tr new l0 by (auto simp: extends_def hd head_read_def split: option.splits)
  have "built_rep E (contents s') built recs" by (rule write_sorted_correct [OF built hyps(1,3)])
  then have "hrun_rep E (contents s') run recs"
    using package_records_eq(3) [OF recs] hyps(2)
    unfolding hrun_rep_def by (auto simp: run new_run_def hex_roundtripD(1) first_block_def last_block_def hd)
  then show "\<exists>recs. publishable E (contents s') p run recs"
    using interval recs hd by (auto simp: publishable_def interval_ok_def run new_run_def first_block_def last_block_def)
qed

text \<open>A successful swap commits the extended archive.\<close>

lemma publish_swap_rep:
  assumes swap: "publish_swap E S p run previous s = (Inr u, s')"
    and rep: "archive_rep E (contents s) (sg_chain_id (pk_segment p)) st" "map_option snd previous = map_option fst st"
    and ext: "extends p (map_option fst st)" "publishable E (contents s) p run recs" "last_block p \<noteq> -1"
    and hyps: "json_roundtrip E" "nonzero (store_holds E (contents s'))"
  shows "\<exists>parent. archive_rep E (contents s') (sg_chain_id (pk_segment p))
    (Some ((publish_next p run (map_option fst st))\<lparr>hd_parent := parent\<rparr>, published_history st recs))"
proof -
  let ?next = "publish_next p run (map_option fst st)"
  note sound = swap_sound [OF swap [unfolded publish_swap_def rep(2)]]
  have chain: "hd_chain_id ?next = sg_chain_id (pk_segment p)" using is_published_next(2) [OF ext(1)] ext(2) by (simp add: publishable_def)
  with sound obtain parent bs where bs: "head_to_json E (?next\<lparr>hd_parent := parent\<rparr>) = Inr bs" "length bs \<le> MAX_HEAD"
    "contents s' (head_key (sg_chain_id (pk_segment p))) = Some bs" and le: "objects_le (contents s) (contents s')" by auto
  have nz: "nonzero (store_holds E (contents s))" using hyps(2) le by (rule nonzero_objects)
  have "head_rep E (contents s) ?next (published_history st recs)"
  proof (rule publish_next_rep(1))
    show "case st of None \<Rightarrow> True | Some (h, hist) \<Rightarrow> head_rep E (contents s) h hist \<and> length (hd_l0 h) < MAX_L0_BACKLOG"
      using rep(1) ext(1) by (auto simp: archive_rep_def extends_def split: option.splits)
  qed (use ext head_rep_run_ok [OF _ nz] in \<open>auto simp: publishable_def extends_def\<close>)
  then have "head_rep E (contents s') (?next\<lparr>hd_parent := parent\<rparr>) (published_history st recs)"
    using le by (simp add: head_rep_objects)
  then show ?thesis using bs chain hyps(1) by (auto simp: archive_rep_def json_roundtrip_def)
qed

lemma swap_objects: "keeps (grows (\<lambda>s. objects (contents s))) (swap E S previous next)"
proof (rule keepsI)
  fix s x s' assume "swap E S previous next s = (x, s')"
  then have "objects_le (contents s) (contents s')" using swap_sound by blast
  then show "objects (contents s) \<le> objects (contents s')" by (simp add: objects_mono)
qed

lemma publish_loop_objects: "keeps (grows (\<lambda>s. objects (contents s))) (publish_loop E S p run n previous)"
proof (induction n arbitrary: previous)
  case 0
  show ?case by (simp add: keeps_rules)
next
  case (Suc n)
  have read: "keeps (grows (\<lambda>s. objects (contents s))) (read_head E S m)" for m
    by (rule keepsI) (auto dest!: read_head_sound)
  have retry: "keeps (grows (\<lambda>s. objects (contents s)))
      (bind_a (publish_retry E S p previous e) (\<lambda>current. case current of None \<Rightarrow> ret () | Some _ \<Rightarrow> publish_loop E S p run n current))" for e
    unfolding publish_retry_def by (auto intro!: keeps_rules read Suc split: option.splits)
  show ?case
  proof (rule keepsI)
    fix s x s' assume loop: "publish_loop E S p run (Suc n) previous s = (x, s')"
    obtain r t where swap: "publish_swap E S p run previous s = (r, t)" by (rule prod.exhaust)
    have "objects (contents s) \<le> objects (contents t)" using keepsD [OF swap_objects swap [unfolded publish_swap_def]] .
    also have "objects (contents t) \<le> objects (contents s')"
      using loop swap keepsD [OF retry] by (cases r) auto
    finally show "objects (contents s) \<le> objects (contents s')" .
  qed
qed

lemma publish_objects: "publish E S p gate s = (res, s') \<Longrightarrow> objects_le (contents s) (contents s')"
proof -
  have start: "keeps (grows (\<lambda>s. objects (contents s))) (publish_start E S p gate)"
    by (rule keepsI) (auto simp: objects_mono dest: publish_start_keep(1) intro: objects_le_map_le)
  have "keeps (grows (\<lambda>s. objects (contents s))) (publish E S p gate)"
    unfolding publish_def by (auto intro!: keeps_rules start publish_loop_objects split: option.splits)
  then show "publish E S p gate s = (res, s') \<Longrightarrow> ?thesis" by (auto dest: keepsD simp flip: objects_mono)
qed

text \<open>After a failed swap without other writers, the loop goes on with the same head.\<close>

lemma publish_retry_rep:
  assumes "publish_retry E S p previous e s = (res, s')"
    and rep: "archive_rep E (contents s) (sg_chain_id (pk_segment p)) st" "map_option snd previous = map_option fst st"
      "extends p (map_option fst st)"
  shows "contents s' = contents s \<and>
    (\<forall>current. res = Inr current \<longrightarrow> current \<noteq> None \<and> map_option snd current = map_option fst st)"
proof -
  obtain r t where read: "read_head E S (sg_chain_id (pk_segment p)) s = (r, t)" by (rule prod.exhaust)
  note sound = read_head_sound [OF read]
  show ?thesis
  proof (cases r)
    case (Inl e')
    with assms(1) read sound show ?thesis by (auto simp: publish_retry_def bind_a_def)
  next
    case (Inr current)
    then have "head_read E (contents s) (sg_chain_id (pk_segment p)) current"
      using sound by (auto simp: head_read_def split: option.splits)
    from archive_read [OF rep(1) this] have current: "map_option snd current = map_option fst st" .
    have s': "s' = t" using assms(1) read Inr
      by (auto simp: publish_retry_def bind_a_def split: option.splits prod.splits if_splits)
    show ?thesis
    proof (cases st)
      case None
      with assms(1) read Inr current sound s' show ?thesis by (auto simp: publish_retry_def bind_a_def)
    next
      case (Some hh)
      then obtain v v' where "current = Some (v, fst hh)" "previous = Some (v', fst hh)" using current rep(2) by auto
      with assms(1) read Inr sound s' rep(3) Some show ?thesis
        by (auto simp: publish_retry_def bind_a_def extends_def)
    qed
  qed
qed

lemma publish_loop_rep:
  assumes "publish_loop E S p run n previous s = (res, s')"
    and rep: "archive_rep E (contents s) (sg_chain_id (pk_segment p)) st" "map_option snd previous = map_option fst st"
    and ext: "extends p (map_option fst st)" "publishable E (contents s) p run recs" "last_block p \<noteq> -1"
    and hyps: "json_roundtrip E" "nonzero (store_holds E (contents s'))"
  shows "case res of
      Inl e \<Rightarrow> archive_rep E (contents s') (sg_chain_id (pk_segment p)) st
    | Inr _ \<Rightarrow> \<exists>parent. archive_rep E (contents s') (sg_chain_id (pk_segment p))
        (Some ((publish_next p run (map_option fst st))\<lparr>hd_parent := parent\<rparr>, published_history st recs))"
  using assms(1-5)
proof (induction n arbitrary: previous s)
  case 0
  then show ?case by (auto simp: publish_loop.simps)
next
  case (Suc n)
  obtain r t where swap: "publish_swap E S p run previous s = (r, t)" by (rule prod.exhaust)
  show ?case
  proof (cases r)
    case (Inr u)
    with swap Suc.prems(1) have "s' = t" "res = Inr ()" by auto
    with publish_swap_rep [OF swap [unfolded Inr] Suc.prems(2,3,4,5) ext(3) hyps(1)] hyps(2) show ?thesis by simp
  next
    case (Inl e)
    note sound = swap_sound [OF swap [unfolded publish_swap_def Inl], of "sg_chain_id (pk_segment p)"]
    then have le: "objects_le (contents s) (contents t)" by simp
    have t: "archive_rep E (contents t) (sg_chain_id (pk_segment p)) st" "publishable E (contents t) p run recs"
      using Suc.prems(2,5) sound by (auto intro: archive_rep_same publishable_objects)
    obtain r' t' where retry: "publish_retry E S p previous e t = (r', t')" by (rule prod.exhaust)
    note r' = publish_retry_rep [OF retry t(1) Suc.prems(3,4)]
    have t': "archive_rep E (contents t') (sg_chain_id (pk_segment p)) st" "publishable E (contents t') p run recs" using t r' by simp_all
    show ?thesis
    proof (cases r')
      case (Inl e')
      with Suc.prems(1) swap \<open>r = Inl e\<close> retry t'(1) show ?thesis by (auto simp: bind_a_def)
    next
      case (Inr current)
      then obtain now where now: "current = Some now" "map_option snd current = map_option fst st" using r' by auto
      with Suc.prems(1) swap \<open>r = Inl e\<close> retry Inr have "publish_loop E S p run n current t' = (res, s')" by (auto simp: bind_a_def)
      from Suc.IH [OF this t'(1) now(2) Suc.prems(4) t'(2)] show ?thesis .
    qed
  qed
qed

theorem publish_correct:
  assumes publish: "publish E S p gate s = (res, s')" and rep: "archive_rep E (contents s) (sg_chain_id (pk_segment p)) st"
    and hyps: "zstd_roundtrip E" "hex_roundtrip E" "json_roundtrip E" "nonzero (store_holds E (contents s'))" "last_block p \<noteq> -1"
  shows "case res of
      Inl e \<Rightarrow> archive_rep E (contents s') (sg_chain_id (pk_segment p)) st
    | Inr _ \<Rightarrow>
        (\<exists>h hist. st = Some (h, hist) \<and> is_published h p \<and> contents s' = contents s) \<or>
        (\<exists>h recs. package_records E p = Inr recs \<and> is_published h p \<and>
           archive_rep E (contents s') (sg_chain_id (pk_segment p)) (Some (h, published_history st recs)))"
proof -
  obtain r t where start: "publish_start E S p gate s = (r, t)" by (rule prod.exhaust)
  have out: "contents t (head_key n) = contents s (head_key n)" for n using outside_head [OF publish_start_keep(2) [OF start]] by simp
  have le: "objects_le (contents s) (contents t)" using publish_start_keep(1) [OF start] by (rule objects_le_map_le)
  have rep': "archive_rep E (contents t) (sg_chain_id (pk_segment p)) st" using rep le out by (rule archive_rep_same)
  show ?thesis
  proof (cases r)
    case (Inl e)
    with publish start rep' show ?thesis by (auto simp: publish_def bind_a_def)
  next
    case (Inr job)
    show ?thesis
    proof (cases job)
      case None
      from publish_start_done [OF start [unfolded Inr None]] obtain v h
        where "head_read E (contents s) (sg_chain_id (pk_segment p)) (Some (v, h))" "is_published h p" "contents t = contents s" by auto
      moreover from archive_read [OF rep this(1)] obtain hist where "st = Some (h, hist)" by (cases st) auto
      ultimately show ?thesis using publish start Inr None by (auto simp: publish_def bind_a_def)
    next
      case (Some rp)
      obtain run previous where rp: "rp = (run, previous)" by (rule prod.exhaust)
      then have loop: "publish_loop E S p run CAS_ATTEMPTS previous t = (res, s')"
        using publish start Inr Some by (simp add: publish_def bind_a_def)
      have "keeps (grows (\<lambda>s. objects (contents s))) (publish_loop E S p run n previous)" for n previous
        by (rule publish_loop_objects)
      from keepsD [OF this loop] have nz: "nonzero (store_holds E (contents t))"
        using hyps(4) by (auto simp: objects_mono intro: nonzero_objects)
      note job = publish_start_job [OF start [unfolded Inr Some rp] hyps(1,2) nz]
      have st: "map_option snd previous = map_option fst st" using archive_read [OF rep job(1)] .
      from job(3) obtain recs where recs: "publishable E (contents t) p run recs" by blast
      have ext: "extends p (map_option fst st)" using job(2) st by simp
      from publish_loop_rep [OF loop rep' st ext recs hyps(5,3,4)] recs is_published_next(1) [OF ext]
      show ?thesis by (cases res) (auto simp: publishable_def)
    qed
  qed
qed

end

end
