(* ===== verification/Compaction.thy ===== *)
theory Compaction
  imports Publication
begin

text \<open>
  Compaction changes no history. The cascade takes the runs of full levels out oldest last and
  finds a level with room; it never finds a level over its capacity when the head decodes.
  The merged run replaces its inputs: the same versions of every key, the same blocks covered.
  The result holds for whatever head the publisher has advanced to meanwhile.
\<close>

section \<open>Levels\<close>

definition level_runs :: "head_run option list \<Rightarrow> head_run list" where
  "level_runs levels = concat (map (\<lambda>l. case l of None \<Rightarrow> [] | Some r \<Rightarrow> [r]) (rev levels))"

lemma head_runs_levels: "head_runs h = level_runs (hd_levels h) @ hd_l0 h"
  by (simp add: head_runs_def level_runs_def)

lemma level_runs_simps [simp]:
  "level_runs [] = []" "level_runs (l # ls) = level_runs ls @ (case l of None \<Rightarrow> [] | Some r \<Rightarrow> [r])"
  "level_runs (xs @ ys) = level_runs ys @ level_runs xs"
  by (simp_all add: level_runs_def)

lemma level_runs_None: "\<forall>l\<in>set ls. l = None \<Longrightarrow> level_runs ls = []"
  by (induction ls) auto

lemma level_runs_trim: "level_runs (rev (dropWhile (\<lambda>l. l = None) (rev ls))) = level_runs ls"
  by (induction ls rule: rev_induct) auto

text \<open>The lowest occupied level holds the newest of the levels' runs.\<close>

lemma level_runs_update:
  assumes "i < length ls" "\<forall>j<i. ls ! j = None"
  shows "level_runs ls = level_runs (ls[i := None]) @ (case ls ! i of None \<Rightarrow> [] | Some r \<Rightarrow> [r])"
    and "level_runs (ls[i := Some r]) = level_runs (ls[i := None]) @ [r]"
proof -
  have low: "level_runs (take i ls) = []" by (rule level_runs_None) (use assms in \<open>auto simp: in_set_conv_nth\<close>)
  have "ls = take i ls @ ls ! i # drop (Suc i) ls" using assms(1) by (rule id_take_nth_drop)
  then have "level_runs ls = level_runs (drop (Suc i) ls) @ (case ls ! i of None \<Rightarrow> [] | Some r \<Rightarrow> [r])"
    using low by (metis append_Nil2 append_assoc level_runs_simps(2,3))
  moreover have "level_runs (ls[i := x]) = level_runs (drop (Suc i) ls) @ (case x of None \<Rightarrow> [] | Some r \<Rightarrow> [r])" for x
    using assms(1) low by (simp add: upd_conv_take_nth_drop)
  ultimately show "level_runs ls = level_runs (ls[i := None]) @ (case ls ! i of None \<Rightarrow> [] | Some r \<Rightarrow> [r])"
    "level_runs (ls[i := Some r]) = level_runs (ls[i := None]) @ [r]" by simp_all
qed

lemma unat_unit: "i \<le> MAX_LEVELS \<Longrightarrow> unat (level_unit i) = 4 * 8 ^ i"
proof -
  assume "i \<le> MAX_LEVELS"
  then have "(8::nat) ^ i \<le> 8 ^ 8" by (intro power_increasing) (simp_all add: MAX_LEVELS_def)
  then have "4 * 8 ^ i < (2::nat) ^ 64" by simp
  then have "unat (word_of_nat (4 * 8 ^ i) :: u64) = 4 * 8 ^ i" by (simp only: unat_of_nat len_of_numeral_defs mod_less) simp
  moreover have "level_unit i = word_of_nat (4 * 8 ^ i)" by (simp add: level_unit_def L0_TRIGGER_def FANOUT_def)
  ultimately show ?thesis by (simp only:)
qed

lemma unit_Suc: "level_unit i * FANOUT = level_unit (Suc i)"
  by (simp add: level_unit_def)

lemma level_ok_nat:
  assumes "i < MAX_LEVELS"
  shows "level_ok i w \<longleftrightarrow> (\<exists>k. 0 < k \<and> k < 8 \<and> unat w = k * (4 * 8 ^ i))"
proof -
  have u: "unat (level_unit i) = 4 * 8 ^ i" "unat (level_unit (Suc i)) = 8 * (4 * 8 ^ i)"
    using assms by (simp_all add: unat_unit)
  have "w mod level_unit i = 0 \<longleftrightarrow> unat w mod (4 * 8 ^ i) = 0" by (metis u(1) unat_eq_zero unat_mod)
  then have "level_ok i w \<longleftrightarrow> unat w \<noteq> 0 \<and> unat w mod (4 * 8 ^ i) = 0 \<and> unat w < 8 * (4 * 8 ^ i)"
    by (simp add: level_ok_def unit_Suc word_less_nat_alt u unat_eq_zero)
  then show ?thesis by (auto simp: dvd_def mod_eq_0_iff_dvd mult.commute)
qed

section \<open>The cascade\<close>

lemma cascade_spec:
  assumes "levels_ok levels" "target \<le> length levels" "\<forall>j<target. levels ! j = None" "weight = level_unit target"
  shows "case cascade levels weight deeper target of
      Inl e \<Rightarrow> e = Bail ''tiered history exceeds the bounded level count''
    | Inr (levels', weight', deeper', t) \<Rightarrow>
        t < length levels' \<and> levels_ok levels' \<and> level_ok t weight' \<and> (\<forall>j\<le>t. levels' ! j = None) \<and>
        (\<exists>new. deeper' = deeper @ new \<and> level_runs levels = level_runs levels' @ rev new)"
  using assms
proof (induction levels weight deeper target rule: cascade.induct)
  case (1 levels weight deeper target)
  show ?case
  proof (cases "target \<ge> MAX_LEVELS")
    case True
    then show ?thesis by (subst cascade.simps) (simp add: bail_def)
  next
    case False
    define padded where "padded = (if length levels = target then levels @ [None] else levels)"
    have padded: "target < length padded" "levels_ok padded" "level_runs padded = level_runs levels" "\<forall>j<target. padded ! j = None"
      using 1(2-4) False by (auto simp: padded_def levels_ok_def nth_append)
    define rest where "rest = padded[target := None]"
    have rest: "target < length rest" "levels_ok rest" "\<forall>j\<le>target. rest ! j = None"
      using padded by (auto simp: rest_def levels_ok_def nth_list_update le_less)
    have units: "unat (level_unit target) = 4 * 8 ^ target" "unat (level_unit (Suc target)) = 8 * (4 * 8 ^ target)" "target < MAX_LEVELS"
      using False by (simp_all add: unat_unit)
    show ?thesis
    proof (cases "padded ! target")
      case None
      then have "rest = padded" by (simp add: rest_def list_update_same_conv [THEN iffD2] padded(1))
      moreover have "weight < level_unit target * FANOUT" "level_ok target weight"
        using 1(5) units level_ok_nat [OF units(3), of weight] by (auto simp: unit_Suc word_less_nat_alt)
      ultimately show ?thesis
        using False None rest padded(3) by (subst cascade.simps) (simp add: Let_def padded_def [symmetric])
    next
      case (Some run)
      have "level_ok target (hr_weight run)" using padded(1,2) Some by (auto simp: levels_ok_def)
      then obtain k where k: "0 < k" "k < 8" "unat (hr_weight run) = k * (4 * 8 ^ target)" using level_ok_nat [OF units(3)] by blast
      have "(8::nat) ^ target \<le> 8 ^ 8" using units(3) by (intro power_increasing) (simp_all add: MAX_LEVELS_def)
      then have "8 * (4 * 8 ^ target) < (2::nat) ^ 64" by simp
      moreover have "Suc k * (4 * 8 ^ target) \<le> 8 * (4 * 8 ^ target)" using k(2) by (intro mult_le_mono1) simp
      ultimately have lt: "Suc k * (4 * 8 ^ target) < 2 ^ 64" by (rule le_less_trans [rotated])
      have total: "unat (weight + hr_weight run) = Suc k * (4 * 8 ^ target)"
        using lt k(3) units(1) 1(5) by (subst unat_plus_if') simp
      have runs: "level_runs levels = level_runs rest @ [run]"
        using level_runs_update(1) [OF padded(1,4)] Some padded(3) by (simp add: rest_def)
      show ?thesis
      proof (cases "Suc k = 8")
        case True
        then have "weight + hr_weight run = level_unit target * FANOUT"
          using total units(2) by (simp add: unit_Suc word_unat_eq_iff)
        moreover from this have "cascade levels weight deeper target = cascade rest (weight + hr_weight run) (deeper @ [run]) (target + 1)"
          using False Some by (subst cascade.simps) (simp add: Let_def padded_def [symmetric] rest_def)
        moreover have "case cascade rest (weight + hr_weight run) (deeper @ [run]) (target + 1) of
            Inl e \<Rightarrow> e = Bail ''tiered history exceeds the bounded level count''
          | Inr (levels', weight', deeper', t) \<Rightarrow>
              t < length levels' \<and> levels_ok levels' \<and> level_ok t weight' \<and> (\<forall>j\<le>t. levels' ! j = None) \<and>
              (\<exists>new. deeper' = (deeper @ [run]) @ new \<and> level_runs rest = level_runs levels' @ rev new)"
          using 1(1) [OF False padded_def refl] Some rest calculation(1) 
          by (simp add: Let_def padded_def [symmetric] rest_def unit_Suc less_Suc_eq_le Suc_le_eq)
        ultimately show ?thesis
          using runs by (auto split: sum.splits prod.splits)
      next
        case False
        then have "weight + hr_weight run < level_unit target * FANOUT" "level_ok target (weight + hr_weight run)"
          using total units(2) k(2) by (auto simp: unit_Suc word_less_nat_alt level_ok_nat [OF units(3)] intro!: exI [of _ "Suc k"])
        then show ?thesis
          using \<open>\<not> target \<ge> MAX_LEVELS\<close> Some rest runs
          by (subst cascade.simps) (simp add: Let_def padded_def [symmetric] rest_def)
      qed
    qed
  qed
qed

section \<open>Folding runs\<close>

lemma hrun_rep_sorted: "hrun_rep E c r recs \<Longrightarrow> ssorted (map rec_vkey recs)"
  by (auto simp: hrun_rep_def built_rep_def run_rep_def reader_rep_def)

lemma hrun_rep_unique: "hrun_rep E c r recs \<Longrightarrow> hrun_rep E c r recs' \<Longrightarrow> recs = recs'"
  using run_rep_unique [of "store_holds E c" E "hr_root r"]
  by (auto simp: hrun_rep_def built_rep_def functional_def store_holds_def)

lemma parts_run:
  assumes "list_all2 (hrun_rep E c) rs parts" "x \<in> set (concat parts)"
  obtains r recs where "r \<in> set rs" "hrun_rep E c r recs" "x \<in> set recs"
  using assms by (induction arbitrary: thesis rule: list_all2_induct) auto

text \<open>The versions of a key, across runs that follow one another, are in block order.\<close>

lemma ssorted_versions: "ssorted (map rec_vkey recs) \<Longrightarrow> ssorted (map rec_block (versions recs k))"
  by (induction recs) (auto simp: versions_def rec_vkey_def less_prod_def)

lemma versions_sorted:
  assumes "contiguous a rs b" "bounded_runs rs" "list_all2 (hrun_rep E c) rs parts"
  shows "ssorted (map rec_block (versions (concat parts) k))"
  using assms(3,1,2)
proof (induction arbitrary: a rule: list_all2_induct)
  case (Cons r rs recs parts)
  have later: "hr_end r < rec_block x" if "x \<in> set (versions (concat parts) k)" for x
  proof -
    have "x \<in> set (concat parts)" using that by (simp add: versions_def)
    with Cons.hyps(2) obtain r' recs' where r': "r' \<in> set rs" "hrun_rep E c r' recs'" "x \<in> set recs'" by (rule parts_run)
    then have "hr_end r < hr_start r'" using contiguous_disjoint(1) [of a "[]" r rs b] Cons.prems by auto
    with r' show ?thesis by (auto simp: hrun_rep_def)
  qed
  have "rec_block x \<le> hr_end r" if "x \<in> set (versions recs k)" for x
    using that Cons.hyps(1) by (auto simp: hrun_rep_def versions_def)
  moreover have "ssorted (map rec_block (versions recs k))" using Cons.hyps(1) by (intro ssorted_versions hrun_rep_sorted)
  ultimately show ?case using Cons.IH [of "hr_end r + 1"] Cons.prems later by (fastforce simp: ssorted_append)
qed (simp add: versions_def)

text \<open>A run with the records of adjacent runs can take their place.\<close>

lemma folded_run:
  fixes w :: u64
  assumes inputs: "contiguous a inputs b" "bounded_runs inputs" "inputs \<noteq> []" "list_all2 (hrun_rep E c) inputs parts"
    and built: "built_rep E c built recs" "mset recs = mset (concat parts)" "hex_roundtrip E"
  defines "r \<equiv> new_run E (hr_start (hd inputs)) (hr_end (last inputs)) w built"
  shows "hrun_rep E c r recs" "versions recs = versions (concat parts)" "contiguous a [r] b" "hr_end r \<noteq> -1"
proof -
  have last: "hr_end (last inputs) \<noteq> -1" "hr_end (last inputs) + 1 = b" "hr_start (hd inputs) = a"
    using inputs(1-3) by (induction inputs arbitrary: a) (auto split: if_splits)
  have cover: "a \<le> x \<and> x \<le> hr_end (last inputs)" if "r \<in> set inputs" "hr_start r \<le> x" "x \<le> hr_end r" for r x
    using contiguous_cover [OF inputs(1,2), of x] that last by (auto simp: plus_one_le)
  have blocks: "a \<le> rec_block x \<and> rec_block x \<le> hr_end (last inputs)" if "x \<in> set recs" for x
  proof -
    have "x \<in> set (concat parts)" using that built(2) by (metis mset_eq_setD)
    with inputs(4) obtain r' recs' where "r' \<in> set inputs" "hrun_rep E c r' recs'" "x \<in> set recs'" by (rule parts_run)
    then show ?thesis using cover by (auto simp: hrun_rep_def)
  qed
  then show "hrun_rep E c r recs"
    using built(1,3) last(3) by (auto simp: hrun_rep_def r_def new_run_def hex_roundtripD(1) intro!: exI [of _ built])
  show "versions recs = versions (concat parts)"
  proof
    fix k
    have "ssorted (map rec_vkey recs)" using built(1) by (auto simp: built_rep_def run_rep_def reader_rep_def)
    moreover have "set (versions recs k) = set (versions (concat parts) k)"
      using mset_eq_setD [OF built(2)] by (auto simp: versions_def)
    ultimately show "versions recs k = versions (concat parts) k"
      using ssorted_unique [OF ssorted_versions versions_sorted [OF inputs(1,2,4)]] by blast
  qed
  have "a \<le> hr_end (last inputs)"
    using cover [of "last inputs" "hr_end (last inputs)"] inputs(1,3) contiguous_append [of a "butlast inputs" "[last inputs]" b] by auto
  then show "contiguous a [r] b" "hr_end r \<noteq> -1" using last by (simp_all add: r_def new_run_def)
qed

section \<open>Committing\<close>

text \<open>The runs a plan folds, and the levels after it.\<close>

lemma compact_plan_spec:
  assumes "compact_plan planned = Inr (levels, weight, inputs, target)" "levels_ok (hd_levels planned)" "L0_TRIGGER \<le> length (hd_l0 planned)"
  shows "level_runs (hd_levels planned) @ take L0_TRIGGER (hd_l0 planned) = level_runs levels @ inputs" "inputs \<noteq> []"
    "levels_ok (compact_levels E levels weight inputs target built)"
    "level_runs (compact_levels E levels weight inputs target built) =
       level_runs levels @ [new_run E (hr_start (hd inputs)) (hr_end (last inputs)) weight built]"
proof -
  from assms(1) obtain deeper where cas: "cascade (hd_levels planned) (word_of_nat L0_TRIGGER) [] 0 = Inr (levels, weight, deeper, target)"
    and inputs: "inputs = rev deeper @ take L0_TRIGGER (hd_l0 planned)"
    by (auto simp: compact_plan_def Let_def split: prod.splits if_splits)
  from cascade_spec [OF assms(2), of 0 "word_of_nat L0_TRIGGER" "[]"] cas
  have *: "target < length levels" "levels_ok levels" "level_ok target weight" "\<forall>j\<le>target. levels ! j = None"
    "level_runs (hd_levels planned) = level_runs levels @ rev deeper" by (auto simp: level_unit_def)
  show "level_runs (hd_levels planned) @ take L0_TRIGGER (hd_l0 planned) = level_runs levels @ inputs" by (simp add: *(5) inputs)
  show "inputs \<noteq> []" using assms(3) by (auto simp: inputs L0_TRIGGER_def)
  define full where "full = levels[target := Some (new_run E (hr_start (hd inputs)) (hr_end (last inputs)) weight built)]"
  have "levels_ok full" using * by (auto simp: full_def levels_ok_def nth_list_update new_run_def)
  moreover obtain tail where "full = rev (dropWhile (\<lambda>l. l = None) (rev full)) @ tail"
    by (metis rev_append rev_rev_ident takeWhile_dropWhile_id)
  ultimately show "levels_ok (compact_levels E levels weight inputs target built)"
    unfolding compact_levels_def full_def [symmetric] levels_ok_def
    by (metis (no_types, lifting) le_add1 le_trans length_append less_le_trans nth_append)
  have "levels[target := None] = levels" using * by (metis le_refl list_update_id)
  then show "level_runs (compact_levels E levels weight inputs target built) =
      level_runs levels @ [new_run E (hr_start (hd inputs)) (hr_end (last inputs)) weight built]"
    using level_runs_update(2) [of target levels] * unfolding compact_levels_def level_runs_trim by simp
qed

text \<open>A well-formed head can be planned, unless the levels are exhausted.\<close>

lemma contiguous_adjacent: "contiguous a rs b \<Longrightarrow> bounded_runs rs \<Longrightarrow> adjacent rs"
  by (induction rs arbitrary: a rule: adjacent.induct) (auto simp: checked_succ_def)

lemma planned_total:
  assumes wf: "head_wf E h" and trigger: "L0_TRIGGER \<le> length (hd_l0 h)" and bounded: "bounded_runs (head_runs h)"
  shows "compact_plan h = bail ''tiered history exceeds the bounded level count'' \<or>
    (\<exists>levels weight inputs target. compact_plan h = Inr (levels, weight, inputs, target) \<and> target < MAX_LEVELS \<and>
       level_ok target weight \<and> level_runs levels @ inputs @ drop L0_TRIGGER (hd_l0 h) = head_runs h)"
proof -
  have ok: "levels_ok (hd_levels h)" using wf by (simp add: head_wf_def)
  note spec = cascade_spec [OF ok, of 0 "word_of_nat L0_TRIGGER" "[]"]
  show ?thesis
  proof (cases "cascade (hd_levels h) (word_of_nat L0_TRIGGER) [] 0")
    case (Inl e)
    with spec show ?thesis by (simp add: compact_plan_def bail_def level_unit_def)
  next
    case (Inr r)
    obtain levels weight deeper target where r: "r = (levels, weight, deeper, target)" by (metis prod_cases4)
    with spec Inr have cas: "target < length levels" "levels_ok levels" "level_ok target weight" "level_runs (hd_levels h) = level_runs levels @ rev deeper"
      by (simp_all add: level_unit_def)
    let ?inputs = "rev deeper @ take L0_TRIGGER (hd_l0 h)"
    have runs: "level_runs levels @ ?inputs @ drop L0_TRIGGER (hd_l0 h) = head_runs h" by (simp add: head_runs_levels cas(4))
    then obtain a b where "contiguous a ?inputs b"
      using wf unfolding head_wf_def by (metis contiguous_append)
    moreover have "bounded_runs ?inputs" using bounded unfolding runs [symmetric] bounded_runs_simps by blast
    ultimately have "adjacent ?inputs" by (rule contiguous_adjacent)
    moreover have "target < MAX_LEVELS" using cas(1,2) by (simp add: levels_ok_def)
    ultimately show ?thesis using Inr r cas(3) runs by (auto simp: compact_plan_def Let_def)
  qed
qed

text \<open>What a compactor holds between the merge and the swap.\<close>

definition compactable :: "'x ext_scheme \<Rightarrow> (string \<Rightarrow> bytes option) \<Rightarrow> head \<Rightarrow> head_run option list \<Rightarrow> bool" where
  "compactable E c planned levels' \<longleftrightarrow> L0_TRIGGER \<le> length (hd_l0 planned) \<and> levels_ok (hd_levels planned) \<and>
     (\<exists>levels weight inputs target built parts recs. compact_plan planned = Inr (levels, weight, inputs, target) \<and>
        levels' = compact_levels E levels weight inputs target built \<and> list_all2 (hrun_rep E c) inputs parts \<and>
        built_rep E c built recs \<and> mset recs = mset (concat parts))"

lemma compactable_objects: "compactable E c planned levels \<Longrightarrow> objects_le c c' \<Longrightarrow> compactable E c' planned levels"
  unfolding compactable_def by (blast intro: built_rep_objects list_all2_mono hrun_rep_objects)

lemma compact_next_rep:
  assumes rep: "head_rep E c current hist" and cp: "compactable E c planned levels"
    and same: "hd_levels current = hd_levels planned" "prefix (take L0_TRIGGER (hd_l0 planned)) (hd_l0 current)"
    and hyps: "hex_roundtrip E" "nonzero (store_holds E c)"
  shows "head_rep E c (compact_next levels current) hist"
proof -
  from cp obtain ls weight inputs target built parts recs where plan: "compact_plan planned = Inr (ls, weight, inputs, target)"
    and levels: "levels = compact_levels E ls weight inputs target built" and parts: "list_all2 (hrun_rep E c) inputs parts"
    and built: "built_rep E c built recs" "mset recs = mset (concat parts)"
    and trigger: "L0_TRIGGER \<le> length (hd_l0 planned)" "levels_ok (hd_levels planned)" by (auto simp: compactable_def)
  note spec = compact_plan_spec [OF plan trigger(2,1)]
  let ?r = "new_run E (hr_start (hd inputs)) (hr_end (last inputs)) weight built"
  let ?rest = "drop L0_TRIGGER (hd_l0 current)"
  have l0: "hd_l0 current = take L0_TRIGGER (hd_l0 planned) @ ?rest"
    using same(2) trigger(1) by (auto simp: prefix_def min_def)
  have runs: "head_runs current = level_runs ls @ inputs @ ?rest"
    using spec(1) by (subst head_runs_levels, subst l0) (simp add: same(1))
  have runs': "head_runs (compact_next levels current) = level_runs ls @ [?r] @ ?rest"
    by (simp add: head_runs_levels compact_next_def levels spec(4))
  from rep obtain all where all: "list_all2 (hrun_rep E c) (head_runs current) all" "hist = versions (concat all)"
    and wf: "head_wf E current" "bounded_runs (head_runs current)" by (auto simp: head_rep_def)
  obtain old mid new where mid: "all = old @ mid @ new" "list_all2 (hrun_rep E c) (level_runs ls) old"
    "list_all2 (hrun_rep E c) inputs mid" "list_all2 (hrun_rep E c) ?rest new"
    using all(1) unfolding runs by (auto simp: list_all2_append1)
  have "mid = parts" by (rule list_all2_unique [OF mid(3) parts]) (rule hrun_rep_unique)
  note split = mid(1,2,4) [unfolded this]
  from wf(1) obtain a b where cont: "contiguous 0 (level_runs ls) a" "contiguous a inputs b" "contiguous b ?rest (hd_number current + 1)"
    by (auto simp: head_wf_def runs contiguous_append)
  have bounded: "bounded_runs (level_runs ls)" "bounded_runs inputs" "bounded_runs ?rest" using wf(2) by (simp_all add: runs)
  note folded = folded_run(1,3,4) [OF cont(2) bounded(2) spec(2) parts built hyps(1), where w = weight]
  have "list_all2 (hrun_rep E c) (head_runs (compact_next levels current)) (old @ [recs] @ new)"
    unfolding runs' using split folded(1) by (intro list_all2_appendI) simp_all
  moreover have "hist = versions (concat (old @ [recs] @ new))"
    using folded_run(2) [OF cont(2) bounded(2) spec(2) parts built hyps(1)] by (simp add: all(2) split(1) fun_eq_iff)
  moreover have "bounded_runs (head_runs (compact_next levels current))" using bounded folded(3) by (simp add: runs')
  moreover have "head_wf E (compact_next levels current)"
  proof -
    have "contiguous 0 (head_runs (compact_next levels current)) (hd_number current + 1)"
      unfolding runs' contiguous_append using cont folded(2) by blast
    moreover have "\<forall>r\<in>set (head_runs (compact_next levels current)). run_ok E r"
      using wf(1) head_rep_run_ok [OF folded(1) hyps(2)] by (auto simp: head_wf_def runs runs')
    moreover have "head_runs (compact_next levels current) \<noteq> []" by (simp add: runs')
    ultimately show ?thesis
      using wf(1) spec(3) by (auto simp: head_wf_def compact_next_def levels dest: in_set_dropD)
  qed
  ultimately show ?thesis unfolding head_rep_def by blast
qed

section \<open>Compacting\<close>

lemma compact_levels_next: "hd_chain_id (compact_next levels h) = hd_chain_id h" "hd_number (compact_next levels h) = hd_number h"
  by (simp_all add: compact_next_def)

text \<open>The inputs of a plan are represented when the head is.\<close>

lemma plan_inputs:
  assumes "head_rep E c h hist" "compact_plan h = Inr (levels, weight, inputs, target)" "L0_TRIGGER \<le> length (hd_l0 h)"
  obtains parts where "list_all2 (hrun_rep E c) inputs parts"
proof -
  have "levels_ok (hd_levels h)" using assms(1) by (simp add: head_rep_def head_wf_def)
  from compact_plan_spec(1) [OF assms(2) this assms(3)]
  have "head_runs h = level_runs levels @ inputs @ drop L0_TRIGGER (hd_l0 h)"
    by (simp add: head_runs_levels) (metis append_assoc append_take_drop_id)
  with assms(1) obtain parts where "list_all2 (hrun_rep E c) (level_runs levels @ inputs @ drop L0_TRIGGER (hd_l0 h)) parts"
    by (auto simp: head_rep_def)
  then show thesis using that by (auto simp: list_all2_append1)
qed

lemma merge_inputs:
  assumes "list_all2 (hrun_rep E c) inputs parts" "map_r (run_input E) inputs = Inr refs" "nonzero (store_holds E c)"
  shows "list_all2 (\<lambda>(r, bytes) recs. \<exists>rr. decode_root E r bytes = Inr rr \<and> reader_rep E (stored E c) rr recs) refs parts"
proof -
  have "\<exists>rr. decode_root E (fst x) (snd x) = Inr rr \<and> reader_rep E (stored E c) rr recs"
    if rep: "hrun_rep E c r recs" and x: "run_input E r = Inr x" for r recs x
  proof -
    from rep obtain b where b: "built_rep E c b recs" "br_root b = hr_root r" "hex_decode E (hr_root_bytes r) = Inr (br_root_bytes b)"
      by (auto simp: hrun_rep_def)
    moreover obtain rr where "decode_root E (br_root b) (br_root_bytes b) = Inr rr" "reader_rep E (stored E c) rr recs"
      using built_reader [OF b(1) assms(3)] .
    ultimately show ?thesis using x by (auto simp: run_input_def)
  qed
  with assms(1,2) show ?thesis by (fastforce simp: map_r_Inr list_all2_conv_all_nth case_prod_beta)
qed

context archive_laws begin

lemma compact_read_sound:
  assumes "compact_read E S chain_id planned s = (res, s')"
  shows "contents s' = contents s \<and> version s' = version s \<and>
    (\<forall>v h. res = Inr (v, h) \<longrightarrow> head_read E (contents s) chain_id (Some (v, h)) \<and> version s (head_key chain_id) = Some (v_version v) \<and>
       hd_levels h = hd_levels planned \<and> prefix (take L0_TRIGGER (hd_l0 planned)) (hd_l0 h))"
proof -
  obtain r t where read: "read_head E S chain_id s = (r, t)" by (rule prod.exhaust)
  show ?thesis
    using read_head_sound [OF read] assms read
    by (cases r) (auto simp: compact_read_def bind_a_def head_read_def ok_or_def bail_def split: option.splits prod.splits if_splits)
qed

text \<open>Planning and merging returns, keeps every object and the head, and leaves a run to commit.\<close>

lemma compact_start_sound:
  assumes rep: "archive_rep E (contents s) chain_id st" and nz: "nonzero (store_holds E (contents s))"
  shows "\<exists>res s'. compact_start E S chain_id elapsed s = Some (res, s') \<and> contents s \<subseteq>\<^sub>m contents s' \<and> outside s' = outside s \<and>
    (\<forall>planned levels. res = Inr (Some (planned, levels)) \<longrightarrow> map_option fst st = Some planned \<and>
      (zstd_roundtrip E \<longrightarrow> nonzero (store_holds E (contents s')) \<longrightarrow> compactable E (contents s') planned levels))"
proof -
  obtain r t where read: "read_head E S chain_id s = (r, t)" by (rule prod.exhaust)
  note sound = read_head_sound [OF read]
  then have t: "contents t = contents s" "outside t = outside s" by (auto simp: outside_def)
  show ?thesis
  proof (cases "\<exists>v planned. r = Inr (Some (v, planned)) \<and> L0_TRIGGER \<le> length (hd_l0 planned)")
    case False
    then show ?thesis using read t by (auto simp: compact_start_def split: sum.splits option.splits)
  next
    case True
    then obtain v planned where r: "r = Inr (Some (v, planned))" and trigger: "L0_TRIGGER \<le> length (hd_l0 planned)" by blast
    then have "head_read E (contents s) chain_id (Some (v, planned))" using sound by (simp add: head_read_def)
    from archive_read [OF rep this] obtain hist where st: "st = Some (planned, hist)" by (cases st) auto
    then have hrep: "head_rep E (contents t) planned hist" and ok: "levels_ok (hd_levels planned)"
      using rep t by (auto simp: archive_rep_def head_rep_def head_wf_def)
    show ?thesis
    proof (cases "bind_r (compact_plan planned) (\<lambda>(levels, weight, inputs, target).
        bind_r (map_r (run_input E) inputs) (\<lambda>refs. Inr (levels, weight, inputs, target, refs)))")
      case (Inl e)
      then show ?thesis using read r trigger t by (auto simp: compact_start_def)
    next
      case (Inr plan)
      then obtain levels weight inputs target refs
        where plan: "compact_plan planned = Inr (levels, weight, inputs, target)" "map_r (run_input E) inputs = Inr refs"
          and eq: "plan = (levels, weight, inputs, target, refs)" by (auto split: prod.splits)
      obtain parts where parts: "list_all2 (hrun_rep E (contents t)) inputs parts" using plan_inputs [OF hrep plan(1) trigger] .
      from merge_runs_correct [OF merge_inputs [OF parts plan(2)], of "sum_list (map hr_keys inputs)"] nz
      obtain res s' where merge: "merge_runs E S refs (sum_list (map hr_keys inputs)) t = Some (res, s')"
        "contents t \<subseteq>\<^sub>m contents s'" "\<forall>b. res = Inr b \<longrightarrow> merged E parts (contents s') b" by (auto simp: t)
      have out: "outside s' = outside t" using merge_runs_keep [OF keeps_outside merge(1)] by (simp add: le_fun_def)
      have "compactable E (contents s') planned (compact_levels E levels weight inputs target built)"
        if "res = Inr built" "zstd_roundtrip E" "nonzero (store_holds E (contents s'))" for built
      proof -
        from merge(3) that obtain recs where "mset recs = mset (concat parts)" "built_rep E (contents s') built recs"
          by (auto simp: merged_def)
        moreover have "list_all2 (hrun_rep E (contents s')) inputs parts"
          using parts by (rule list_all2_mono) (rule hrun_rep_objects [OF _ objects_le_map_le [OF merge(2)]])
        ultimately show ?thesis unfolding compactable_def using plan(1) trigger ok by blast
      qed
      then show ?thesis
        using read r trigger Inr eq merge t out st
        by (cases res) (auto simp: compact_start_def)
    qed
  qed
qed

text \<open>A successful swap commits the same histories.\<close>

lemma compact_swap_rep:
  assumes swap: "swap E S (Some v) (compact_next levels current) s = (Inr u, s')"
    and rep: "archive_rep E (contents s) chain_id (Some (current, hist))" "compactable E (contents s) planned levels"
      "hd_levels current = hd_levels planned" "prefix (take L0_TRIGGER (hd_l0 planned)) (hd_l0 current)"
    and hyps: "hex_roundtrip E" "json_roundtrip E" "nonzero (store_holds E (contents s'))"
  shows "\<exists>parent. archive_rep E (contents s') chain_id (Some ((compact_next levels current)\<lparr>hd_parent := parent\<rparr>, hist))"
proof -
  note sound = swap_sound [OF swap]
  have chain: "hd_chain_id (compact_next levels current) = chain_id" using rep(1) by (auto simp: archive_rep_def compact_levels_next)
  with sound obtain parent bs where bs: "head_to_json E ((compact_next levels current)\<lparr>hd_parent := parent\<rparr>) = Inr bs" "length bs \<le> MAX_HEAD"
    "contents s' (head_key chain_id) = Some bs" and le: "objects_le (contents s) (contents s')" by auto
  have nz: "nonzero (store_holds E (contents s))" using hyps(3) le by (rule nonzero_objects)
  have "head_rep E (contents s) current hist" using rep(1) by (auto simp: archive_rep_def)
  from compact_next_rep [OF this rep(2,3,4) hyps(1) nz]
  have "head_rep E (contents s') ((compact_next levels current)\<lparr>hd_parent := parent\<rparr>) hist" using le by (simp add: head_rep_objects)
  then show ?thesis using bs chain hyps(2) by (auto simp: archive_rep_def json_roundtrip_def)
qed

lemma compact_loop_objects: "keeps (grows (\<lambda>s. objects (contents s))) (compact_loop E S chain_id planned levels n)"
proof (induction n)
  case (Suc n)
  have read: "keeps (grows (\<lambda>s. objects (contents s))) (compact_read E S chain_id planned)"
    by (rule keepsI) (auto dest!: compact_read_sound)
  have "keeps (grows (\<lambda>s. objects (contents s))) (\<lambda>s. case swap E S (Some v) (compact_next levels h) s of
      (Inr _, s) \<Rightarrow> (Inr True, s) | (Inl _, s) \<Rightarrow> compact_loop E S chain_id planned levels n s)" for v h
  proof (rule keepsI)
    fix s x s' assume loop: "(case swap E S (Some v) (compact_next levels h) s of
      (Inr _, s) \<Rightarrow> (Inr True, s) | (Inl _, s) \<Rightarrow> compact_loop E S chain_id planned levels n s) = (x, s')"
    obtain r t where swap: "swap E S (Some v) (compact_next levels h) s = (r, t)" by (rule prod.exhaust)
    have "objects (contents s) \<le> objects (contents t)" using keepsD [OF swap_objects swap] .
    also have "objects (contents t) \<le> objects (contents s')"
      using loop swap keepsD [OF Suc] by (cases r) auto
    finally show "objects (contents s) \<le> objects (contents s')" .
  qed
  then show ?case using read by (auto intro!: keeps_rules split: prod.split)
qed (simp add: keeps_rules)

lemma compact_loop_rep:
  assumes "compact_loop E S chain_id planned levels n s = (res, s')"
    and rep: "archive_rep E (contents s) chain_id (Some (h, hist))" "compactable E (contents s) planned levels"
    and hyps: "hex_roundtrip E" "json_roundtrip E" "nonzero (store_holds E (contents s'))"
  shows "case res of
      Inl e \<Rightarrow> archive_rep E (contents s') chain_id (Some (h, hist))
    | Inr b \<Rightarrow> b \<and> (\<exists>parent. archive_rep E (contents s') chain_id (Some ((compact_next levels h)\<lparr>hd_parent := parent\<rparr>, hist)))"
  using assms(1-3)
proof (induction n arbitrary: s)
  case 0
  then show ?case by auto
next
  case (Suc n)
  obtain r t where read: "compact_read E S chain_id planned s = (r, t)" by (rule prod.exhaust)
  note sound = compact_read_sound [OF read]
  have t: "archive_rep E (contents t) chain_id (Some (h, hist))" "compactable E (contents t) planned levels" using sound Suc.prems by simp_all
  show ?case
  proof (cases r)
    case (Inl e)
    with Suc.prems(1) read t(1) show ?thesis by (auto simp: bind_a_def)
  next
    case (Inr vh)
    obtain v h' where vh: "vh = (v, h')" by (rule prod.exhaust)
    then have "head_read E (contents s) chain_id (Some (v, h'))" and same: "hd_levels h' = hd_levels planned" "prefix (take L0_TRIGGER (hd_l0 planned)) (hd_l0 h')"
      using sound Inr by auto
    from archive_read [OF Suc.prems(2) this(1)] have h': "h' = h" by simp
    obtain r' u where swap: "swap E S (Some v) (compact_next levels h) t = (r', u)" by (rule prod.exhaust)
    show ?thesis
    proof (cases r')
      case (Inr x)
      with Suc.prems(1) read \<open>r = Inr vh\<close> vh h' swap have "s' = u" "res = Inr True" by (auto simp: bind_a_def)
      with compact_swap_rep [OF swap [unfolded Inr] t same [unfolded h'] hyps(1,2)] hyps(3) show ?thesis by simp
    next
      case (Inl e)
      note swapped = swap_sound [OF swap [unfolded Inl], of chain_id]
      with t have "archive_rep E (contents u) chain_id (Some (h, hist))" "compactable E (contents u) planned levels"
        by (auto intro: archive_rep_same compactable_objects)
      moreover have "compact_loop E S chain_id planned levels n u = (res, s')"
        using Suc.prems(1) read \<open>r = Inr vh\<close> vh h' swap Inl by (simp add: bind_a_def)
      ultimately show ?thesis using Suc.IH by blast
    qed
  qed
qed

theorem compact_once_correct:
  assumes rep: "archive_rep E (contents s) chain_id st"
    and hyps: "zstd_roundtrip E" "hex_roundtrip E" "json_roundtrip E" "nonzero (store_holds E (contents s))"
  shows "\<exists>res s'. compact_once E S chain_id elapsed s = Some (res, s') \<and>
    (nonzero (store_holds E (contents s')) \<longrightarrow>
      (\<exists>st'. archive_rep E (contents s') chain_id st' \<and> map_option snd st' = map_option snd st \<and>
         map_option (hd_number \<circ> fst) st' = map_option (hd_number \<circ> fst) st \<and> (res \<noteq> Inr True \<longrightarrow> st' = st)))"
proof -
  from compact_start_sound [OF rep hyps(4), of elapsed]
  obtain r t where start: "compact_start E S chain_id elapsed s = Some (r, t)" and le: "contents s \<subseteq>\<^sub>m contents t" and out: "outside t = outside s"
    and job: "\<forall>planned levels. r = Inr (Some (planned, levels)) \<longrightarrow> map_option fst st = Some planned \<and>
      (zstd_roundtrip E \<longrightarrow> nonzero (store_holds E (contents t)) \<longrightarrow> compactable E (contents t) planned levels)" by blast
  have rep': "archive_rep E (contents t) chain_id st"
    using rep objects_le_map_le [OF le] outside_head [OF out] by (auto intro: archive_rep_same)
  show ?thesis
  proof (cases "\<exists>planned levels. r = Inr (Some (planned, levels))")
    case False
    then show ?thesis using start rep' by (cases r) (auto simp: compact_once_def split: option.splits)
  next
    case True
    then obtain planned levels where r: "r = Inr (Some (planned, levels))" by blast
    then obtain hist where st: "st = Some (planned, hist)" using job by (cases st) auto
    obtain res s' where loop: "compact_loop E S chain_id planned levels CAS_ATTEMPTS t = (res, s')" by (rule prod.exhaust)
    have once: "compact_once E S chain_id elapsed s = Some (res, s')" using start r loop by (simp add: compact_once_def)
    moreover have "\<exists>st'. archive_rep E (contents s') chain_id st' \<and> map_option snd st' = map_option snd st \<and>
        map_option (hd_number \<circ> fst) st' = map_option (hd_number \<circ> fst) st \<and> (res \<noteq> Inr True \<longrightarrow> st' = st)"
      if nz: "nonzero (store_holds E (contents s'))"
    proof -
      have "nonzero (store_holds E (contents t))" using keepsD [OF compact_loop_objects loop] nz by (auto simp: objects_mono intro: nonzero_objects)
      then have "compactable E (contents t) planned levels" using job r hyps(1) by blast
      from compact_loop_rep [OF loop rep' [unfolded st] this hyps(2,3) nz] show ?thesis
        by (cases res) (auto simp: st compact_levels_next)
    qed
    ultimately show ?thesis by blast
  qed
qed

end

end
