(* ===== verification/Metering.thy ===== *)
theory Metering
  imports Compaction
begin

text \<open>
  Reads under a limit. The native reader and the Worker both charge every request of a read to
  counters of requests and of bytes, and refuse the request that goes over a limit. This theory
  holds what the two share: the quantities a meter measures and how they add up over a sequence
  of actions, lookups in one run when its fetches are charged, and the search through the runs of
  a head, newest first.
\<close>

section \<open>Meters\<close>

text \<open>Where a state counts requests and bytes, and the limits.\<close>

record 'st meter =
  mt_gets :: "'st \<Rightarrow> nat"
  mt_bytes :: "'st \<Rightarrow> nat"
  mt_max_gets :: nat
  mt_max_bytes :: nat

text \<open>
  How much of the budget is left, and how much was spent. An error is in \<open>errs\<close> when it is an
  error of \<open>F\<close>, unless the budget was too small.
\<close>

definition room :: "'st meter \<Rightarrow> 'st \<Rightarrow> nat \<Rightarrow> nat \<Rightarrow> bool" where
  "room M st g b \<longleftrightarrow> mt_gets M st + g \<le> mt_max_gets M \<and> mt_bytes M st + b \<le> mt_max_bytes M"

definition spent :: "'st meter \<Rightarrow> 'st \<Rightarrow> nat \<Rightarrow> nat \<Rightarrow> 'st \<Rightarrow> bool" where
  "spent M st g b st' \<longleftrightarrow> mt_gets M st' \<le> mt_gets M st + g \<and> mt_bytes M st' \<le> mt_bytes M st + b"

definition exhausted :: "'st meter \<Rightarrow> 'st \<Rightarrow> bool" where
  "exhausted M st \<longleftrightarrow> mt_gets M st > mt_max_gets M \<or> mt_bytes M st > mt_max_bytes M"

definition errs :: "'st meter \<Rightarrow> (error \<Rightarrow> bool) \<Rightarrow> 'st \<Rightarrow> nat \<Rightarrow> nat \<Rightarrow> error \<Rightarrow> bool" where
  "errs M F st g b e \<longleftrightarrow> (room M st g b \<longrightarrow> F e)"

lemma spent_trans: "spent M st g b st' \<Longrightarrow> spent M st' g' b' st'' \<Longrightarrow> spent M st (g + g') (b + b') st''"
  by (simp add: spent_def)

lemma spent_mono: "spent M st g b st' \<Longrightarrow> g \<le> g' \<Longrightarrow> b \<le> b' \<Longrightarrow> spent M st g' b' st'"
  by (auto simp: spent_def)

lemma spent_refl [simp]: "spent M st g b st"
  by (simp add: spent_def)

lemma room_spent: "room M st (g + g') (b + b') \<Longrightarrow> spent M st g b st' \<Longrightarrow> room M st' g' b'"
  by (auto simp: room_def spent_def)

lemma room_mono: "room M st g b \<Longrightarrow> g' \<le> g \<Longrightarrow> b' \<le> b \<Longrightarrow> room M st g' b'"
  by (auto simp: room_def)

lemma room_exhausted: "room M st g b \<Longrightarrow> spent M st g b st' \<Longrightarrow> \<not> exhausted M st'"
  by (auto simp: room_def spent_def exhausted_def)

lemma errs_spent: "errs M F st' g' b' e \<Longrightarrow> spent M st g b st' \<Longrightarrow> errs M F st (g + g') (b + b') e"
  by (auto simp: errs_def dest: room_spent)

lemma errs_mono: "errs M F st g b e \<Longrightarrow> g \<le> g' \<Longrightarrow> b \<le> b' \<Longrightarrow> errs M F st g' b' e"
  by (auto simp: errs_def dest: room_mono)

lemma errs_weaken: "errs M F st g b e \<Longrightarrow> (\<And>e. F e \<Longrightarrow> F' e) \<Longrightarrow> errs M F' st g b e"
  by (auto simp: errs_def)

text \<open>A request of \<open>g\<close> reads and \<open>b\<close> bytes followed by one of \<open>g'\<close> and \<open>b'\<close>.\<close>

lemma spending_bind:
  assumes m: "outcome (errs M F st g b) (\<lambda>x st'. P x st' \<and> spent M st g b st') (m st)"
    and f: "\<And>x st'. P x st' \<Longrightarrow> outcome (errs M F st' g' b') (\<lambda>y st''. Q y st'' \<and> spent M st' g' b' st'') (f x st')"
  shows "outcome (errs M F st (g + g') (b + b')) (\<lambda>y st''. Q y st'' \<and> spent M st (g + g') (b + b') st'') (bind_a m f st)"
  unfolding outcome_bind
  by (rule outcome_mono [OF m], rule errs_mono, assumption, simp, simp, rule outcome_mono [OF f])
    (auto intro: errs_spent spent_trans)

text \<open>Steps that read nothing.\<close>

lemma spending_free:
  assumes m: "outcome F' (\<lambda>x st'. P x st' \<and> mt_gets M st' = mt_gets M st \<and> mt_bytes M st' = mt_bytes M st) (m st)"
      "\<And>e. F' e \<Longrightarrow> errs M F st g b e"
    and f: "\<And>x st'. P x st' \<Longrightarrow> outcome (errs M F st' g b) (\<lambda>y st''. Q y st'' \<and> spent M st' g b st'') (f x st')"
  shows "outcome (errs M F st g b) (\<lambda>y st''. Q y st'' \<and> spent M st g b st'') (bind_a m f st)"
  unfolding outcome_bind
  by (rule outcome_mono [OF m(1)], erule m(2), rule outcome_mono [OF f])
    (auto simp: errs_def room_def spent_def)

lemma spending_mono:
  assumes "outcome (errs M F st g b) (\<lambda>x st'. Q x st' \<and> spent M st g b st') r" "g \<le> g'" "b \<le> b'"
  shows "outcome (errs M F st g' b') (\<lambda>x st'. Q x st' \<and> spent M st g' b' st') r"
  by (rule outcome_mono [OF assms(1)]) (auto intro: errs_mono spent_mono assms(2,3))

section \<open>The same reads without a limit\<close>

text \<open>An action agrees with another one on the runs of the latter that stay within the budget.\<close>

definition agree :: "('s \<Rightarrow> bool) \<Rightarrow> ('s, 'a) act \<Rightarrow> ('s, 'a) act \<Rightarrow> bool" where
  "agree over m n \<longleftrightarrow> (\<forall>s. \<not> over (snd (n s)) \<longrightarrow> m s = n s)"

named_theorems agree_rules \<open>compositional rules for agree\<close>

lemma agree_refl [agree_rules]: "agree over m m"
  by (simp add: agree_def)

lemma agree_ctx [agree_rules]: "agree over m n \<Longrightarrow> agree over (ctx_a msg m) (ctx_a msg n)"
  unfolding agree_def ctx_a_def by (metis (no_types, lifting) prod.collapse snd_conv split_conv sum.case_eq_if)

lemma agree_bind [agree_rules]:
  assumes "agree over m n" "\<And>x. agree over (f x) (g x)" "\<And>x. keeps (grows over) (g x)"
  shows "agree over (bind_a m f) (bind_a n g)"
  unfolding agree_def
proof (intro allI impI)
  fix s assume ok: "\<not> over (snd (bind_a n g s))"
  obtain r t where n: "n s = (r, t)" by (rule prod.exhaust)
  show "bind_a m f s = bind_a n g s"
  proof (cases r)
    case (Inl e)
    with ok n assms(1) show ?thesis by (simp add: agree_def bind_a_def)
  next
    case (Inr x)
    then have "\<not> over (snd (g x t))" using ok n by (simp add: bind_a_def)
    moreover from this assms(3) have "\<not> over t" by (auto simp: keeps_def)
    ultimately show ?thesis using assms(1,2) n Inr by (simp add: agree_def bind_a_def)
  qed
qed

lemma lookup_agree:
  fixes fetch fetch' :: "obj_ref \<Rightarrow> ('s, bytes) act"
  assumes "\<And>r. agree over (fetch r) (fetch' r)" "\<And>r. keeps (grows over) (fetch' r)"
  shows "agree over (lookup E rr key block fetch) (lookup E rr key block fetch')"
  unfolding lookup_def lookup_leaf_def lookup_page_def Let_def
  by (auto intro!: agree_rules keeps_rules assms simp del: le_bool_def split: option.splits prod.splits)

section \<open>Lookups in one run\<close>

definition RUN_BYTES :: nat where
  "RUN_BYTES = 2 * MAX_INDEX_BYTES + MAX_PAGE_BYTES"

text \<open>A fetch charges one request of the length of the object.\<close>

definition metered :: "'st meter \<Rightarrow> (obj_ref \<Rightarrow> ('st, bytes) act) \<Rightarrow> bool" where
  "metered M get \<longleftrightarrow> (\<forall>r. spends (mt_gets M) 1 (get r) \<and> spends (mt_bytes M) (unat (ref_length r)) (get r))"

lemma metered_lookup:
  assumes "metered M get" "lookup E rr key block get st = (v, st')"
  shows "spent M st 3 RUN_BYTES st'"
proof -
  have "spends (mt_gets M) (2 * 1 + 1) (lookup E rr key block get)"
    using assms(1) by (intro lookup_spends) (simp_all add: metered_def)
  moreover have "spends (mt_bytes M) (2 * MAX_INDEX_BYTES + MAX_PAGE_BYTES) (lookup E rr key block get)"
  proof (rule lookup_spends)
    fix r
    have "spends (mt_bytes M) (unat (ref_length r)) (get r)" using assms(1) by (simp add: metered_def)
    then show "validate_index_ref r = Inr () \<Longrightarrow> spends (mt_bytes M) MAX_INDEX_BYTES (get r)"
      "validate_data_ref r = Inr () \<Longrightarrow> spends (mt_bytes M) MAX_PAGE_BYTES (get r)"
      by (auto simp: validate_ref_iff intro: spends_mono)
  qed
  ultimately show ?thesis using assms(2) by (auto simp: spent_def RUN_BYTES_def dest!: spendsD)
qed

text \<open>
  A source of objects that refuses a request over the limit: \<open>free\<close> is the same source with no
  limit, and the two agree while the budget lasts.
\<close>

locale metered_source =
  limited: object_source charged holds "\<lambda>_. True" + unlimited: object_source free holds fails
  for charged free :: "obj_ref \<Rightarrow> ('st, bytes) act" and holds :: "'st \<Rightarrow> obj_ref \<Rightarrow> bytes \<Rightarrow> bool" and fails :: "error \<Rightarrow> bool" +
  fixes M :: "'st meter"
  assumes agrees: "agree (exhausted M) (charged r) (free r)"
    and free_over: "keeps (grows (exhausted M)) (free r)"
    and metered_charged: "metered M charged"
    and metered_free: "metered M free"
begin

lemma charged_lookup:
  assumes rep: "reader_rep E (holds st) rr recs" and key: "key \<noteq> []"
  shows "outcome (errs M fails st 3 RUN_BYTES)
    (\<lambda>v st'. v = version_at recs key block \<and> spent M st 3 RUN_BYTES st') (lookup E rr key block charged st)"
proof -
  obtain v st' where run: "lookup E rr key block charged st = (v, st')" by (rule prod.exhaust)
  have "spent M st 3 RUN_BYTES st'" using metered_charged run by (rule metered_lookup)
  moreover have "outcome (errs M fails st 3 RUN_BYTES) (\<lambda>v _. v = version_at recs key block) (lookup E rr key block charged st)"
  proof (cases "room M st 3 RUN_BYTES")
    case False
    then have "errs M fails st 3 RUN_BYTES = (\<lambda>_. True)" by (auto simp: errs_def)
    with limited.lookup_correct [OF rep, of key block] key show ?thesis by (auto elim!: outcome_mono)
  next
    case True
    obtain w u where free: "lookup E rr key block free st = (w, u)" by (rule prod.exhaust)
    have "spent M st 3 RUN_BYTES u" using metered_free free by (rule metered_lookup)
    moreover have "agree (exhausted M) (lookup E rr key block charged) (lookup E rr key block free)"
      by (rule lookup_agree) (rule agrees free_over)+
    ultimately have "lookup E rr key block charged st = lookup E rr key block free st"
      using free room_exhausted [OF True] by (simp add: agree_def)
    with unlimited.lookup_correct [OF rep, of key block] key True show ?thesis by (auto simp: errs_def elim!: outcome_mono)
  qed
  ultimately show ?thesis unfolding run by (cases v) simp_all
qed

end

section \<open>The runs of a head\<close>

text \<open>A probe of the summary of a run, given how its shards are read.\<close>

definition probe_shards ::
  "'x ext_scheme \<Rightarrow> (shard_kind \<Rightarrow> u32 \<Rightarrow> ('st, shard) act) \<Rightarrow> head_run \<Rightarrow> bytes \<Rightarrow> ('st, bool) act" where
  "probe_shards E shard run key =
     (let probe = probe_new E key (hr_shards run)
      in bind_a (shard Address (probe_address_index probe)) (\<lambda>address.
           if shard_contains E address key then ret True
           else if \<not> shard_contains E address (probe_marker probe) then ret False
           else bind_a (shard Spill (probe_spill_index probe)) (\<lambda>spill. ret (shard_contains E spill key))))"

lemma probe_shards_correct:
  fixes ok :: "'st \<Rightarrow> bool"
  assumes shard: "\<And>kind i st bs sh. ok st \<Longrightarrow> c (shard_path E (ref_digest (hr_root run)) (hr_shards run) kind i) = Some bs \<Longrightarrow>
      shard_decode E (ref_digest (hr_root run)) kind i (hr_shards run) bs = Inr sh \<Longrightarrow>
      outcome (errs M fails st 1 MAX_SHARD_BYTES) (\<lambda>sh' st'. (sh' = sh \<and> ok st') \<and> spent M st 1 MAX_SHARD_BYTES st') (shard kind i st)"
    and st: "ok st" and stored: "shards_stored E c (ref_digest (hr_root run)) (hr_shards run)"
  shows "outcome (errs M fails st 2 (2 * MAX_SHARD_BYTES))
    (\<lambda>maybe st'. ((answers E c (ref_digest (hr_root run)) (hr_shards run) key \<longrightarrow> maybe) \<and> ok st') \<and> spent M st 2 (2 * MAX_SHARD_BYTES) st')
    (probe_shards E shard run key st)"
proof -
  let ?p = "probe_new E key (hr_shards run)" and ?run = "ref_digest (hr_root run)" and ?n = "hr_shards run"
  let ?g = "\<lambda>st. errs M fails st 1 MAX_SHARD_BYTES"
  have pos: "?n \<noteq> 0" using stored by (auto simp: shards_stored_def is_power_of_two_def)
  have "probe_address_index ?p < ?n" "probe_spill_index ?p < ?n"
    using index_less [OF pos] by (simp_all add: probe_new_def shard_index_def spill_index_def word_less_nat_alt)
  then obtain bs sh bs' sh' where a: "c (shard_path E ?run ?n Address (probe_address_index ?p)) = Some bs"
      "shard_decode E ?run Address (probe_address_index ?p) ?n bs = Inr sh"
    and b: "c (shard_path E ?run ?n Spill (probe_spill_index ?p)) = Some bs'" "shard_decode E ?run Spill (probe_spill_index ?p) ?n bs' = Inr sh'"
    using stored unfolding shards_stored_def by meson
  have answers: "answers E c ?run ?n key \<longleftrightarrow> shard_contains E sh key \<or> shard_contains E sh (probe_marker ?p) \<and> shard_contains E sh' key"
    using a b by (auto simp: answers_def Let_def)
  have rest: "outcome (?g t) (\<lambda>maybe u. ((answers E c ?run ?n key \<longrightarrow> maybe) \<and> ok u) \<and> spent M t 1 MAX_SHARD_BYTES u)
      ((if shard_contains E sh1 key then ret True else if \<not> shard_contains E sh1 (probe_marker ?p) then ret False
        else bind_a (shard Spill (probe_spill_index ?p)) (\<lambda>spill. ret (shard_contains E spill key))) t)"
    if "sh1 = sh \<and> ok t" for sh1 t
  proof -
    have "outcome (?g t) (\<lambda>sh2 u. (sh2 = sh' \<and> ok u) \<and> spent M t 1 MAX_SHARD_BYTES u) (shard Spill (probe_spill_index ?p) t)"
      using that b by (intro shard) simp_all
    then show ?thesis using that by (auto simp: answers elim!: outcome_mono)
  qed
  have "outcome (?g st) (\<lambda>sh1 t. (sh1 = sh \<and> ok t) \<and> spent M st 1 MAX_SHARD_BYTES t) (shard Address (probe_address_index ?p) st)"
    using st a by (rule shard)
  then have "outcome (errs M fails st (1 + 1) (MAX_SHARD_BYTES + MAX_SHARD_BYTES))
      (\<lambda>maybe u. ((answers E c ?run ?n key \<longrightarrow> maybe) \<and> ok u) \<and> spent M st (1 + 1) (MAX_SHARD_BYTES + MAX_SHARD_BYTES) u) (probe_shards E shard run key st)"
    unfolding probe_shards_def Let_def by (rule spending_bind) (rule rest)
  then show ?thesis by (simp only: mult_2 one_add_one)
qed

text \<open>
  The search both readers make, given as an argument how a run is probed and how it is read: the
  first version found, newest run first.
\<close>

fun search_runs ::
  "(head_run \<Rightarrow> ('st, bool) act) \<Rightarrow> (head_run \<Rightarrow> run_reader \<Rightarrow> ('st, bytes option) act) \<Rightarrow> u64 \<Rightarrow>
   (head_run \<times> run_reader) list \<Rightarrow> ('st, bytes option) act" where
  "search_runs may look block [] = ret None"
| "search_runs may look block ((run, rr) # runs) =
     (if hr_start run > block then search_runs may look block runs
      else bind_a (may run) (\<lambda>maybe.
        if \<not> maybe then search_runs may look block runs
        else bind_a (look run rr) (\<lambda>found.
          case found of None \<Rightarrow> search_runs may look block runs | Some _ \<Rightarrow> ret found)))"

definition HEAD_RUN_BYTES :: nat where
  "HEAD_RUN_BYTES = 2 * MAX_SHARD_BYTES + RUN_BYTES"

text \<open>
  Every probe is positive for the keys of its run and costs at most two summary shards; every
  lookup answers with the version of its run and costs at most three objects.
\<close>

lemma search_runs_correct:
  fixes ok :: "'st \<Rightarrow> bool"
  assumes runs: "list_all2 (\<lambda>(run, rr) recs. hrun_rep E c run recs \<and> reader_rep E (stored E c) rr recs) runs parts" and st: "ok st"
    and may: "\<And>run st. ok st \<Longrightarrow> shards_stored E c (ref_digest (hr_root run)) (hr_shards run) \<Longrightarrow>
      outcome (errs M fails st 2 (2 * MAX_SHARD_BYTES))
        (\<lambda>maybe st'. ((answers E c (ref_digest (hr_root run)) (hr_shards run) key \<longrightarrow> maybe) \<and> ok st') \<and> spent M st 2 (2 * MAX_SHARD_BYTES) st')
        (may run st)"
    and look: "\<And>run rr recs st. ok st \<Longrightarrow> reader_rep E (stored E c) rr recs \<Longrightarrow>
      outcome (errs M fails st 3 RUN_BYTES)
        (\<lambda>v st'. (v = version_at recs key (min block (hr_end run)) \<and> ok st') \<and> spent M st 3 RUN_BYTES st') (look run rr st)"
  shows "outcome (errs M fails st (length runs * 5) (length runs * HEAD_RUN_BYTES))
    (\<lambda>v st'. (v = state_at (versions (concat (rev parts))) key block \<and> ok st') \<and>
       spent M st (length runs * 5) (length runs * HEAD_RUN_BYTES) st')
    (search_runs may look block runs st)"
  using runs st
proof (induction runs arbitrary: parts st)
  case Nil
  then show ?case by (simp add: state_at_def versions_def)
next
  case (Cons r runs)
  obtain run rr where r: "r = (run, rr)" by (rule prod.exhaust)
  from Cons.prems(1) r obtain recs parts' where parts: "parts = recs # parts'" and run: "hrun_rep E c run recs" "reader_rep E (stored E c) rr recs"
    and rest: "list_all2 (\<lambda>(run, rr) recs. hrun_rep E c run recs \<and> reader_rep E (stored E c) rr recs) runs parts'"
    by (auto simp: list_all2_Cons1)
  let ?B = HEAD_RUN_BYTES and ?n = "length runs" and ?search = "search_runs may look block runs"
  let ?Q = "\<lambda>v st'. v = state_at (versions (concat (rev parts))) key block \<and> ok st'"
  have blocks: "\<forall>x\<in>set recs. hr_start run \<le> rec_block x \<and> rec_block x \<le> hr_end run" using run(1) by (simp add: hrun_rep_def)
  have split: "state_at (versions (concat (rev parts))) key block =
      (case version_at recs key block of None \<Rightarrow> state_at (versions (concat (rev parts'))) key block | Some v \<Rightarrow> Some v)"
    by (simp add: parts version_at_versions state_at_append)
  have tail: "outcome (errs M fails t (?n * 5) (?n * ?B)) (\<lambda>v st'. ?Q v st' \<and> spent M t (?n * 5) (?n * ?B) st') (?search t)"
    if "ok t" "version_at recs key block = None" for t
    using Cons.IH [OF rest that(1)] that(2) by (simp add: split)
  have len: "length (r # runs) * 5 = 2 + (3 + ?n * 5)" "length (r # runs) * ?B = 2 * MAX_SHARD_BYTES + (RUN_BYTES + ?n * ?B)"
    by (simp_all add: HEAD_RUN_BYTES_def)
  show ?case
  proof (cases "hr_start run > block")
    case True
    then have "version_at recs key block = None" using blocks by (force simp: version_at_def last_opt_def filter_empty_conv)
    from spending_mono [OF tail [OF Cons.prems(2) this]] True show ?thesis unfolding len by (simp add: r)
  next
    case False
    from run(1) have built: "shards_stored E c (ref_digest (hr_root run)) (hr_shards run)"
      "\<forall>x\<in>set recs. answers E c (ref_digest (hr_root run)) (hr_shards run) (rec_key x)"
      by (auto simp: hrun_rep_def built_rep_def)
    have min: "version_at recs key (min block (hr_end run)) = version_at recs key block"
      using blocks unfolding version_at_def by (auto intro!: arg_cong [where f = "\<lambda>xs. map_option rec_value (last_opt xs)"] filter_cong)
    have found: "outcome (errs M fails t (3 + ?n * 5) (RUN_BYTES + ?n * ?B)) (\<lambda>v st'. ?Q v st' \<and> spent M t (3 + ?n * 5) (RUN_BYTES + ?n * ?B) st')
        (bind_a (look run rr) (\<lambda>found. case found of None \<Rightarrow> ?search | Some _ \<Rightarrow> ret found) t)" if "ok t" for t
    proof (rule spending_bind)
      show "outcome (errs M fails t 3 RUN_BYTES) (\<lambda>v u. (v = version_at recs key block \<and> ok u) \<and> spent M t 3 RUN_BYTES u) (look run rr t)"
        using look [OF that run(2), of run] by (simp add: min)
      fix v u assume "v = version_at recs key block \<and> ok u"
      then show "outcome (errs M fails u (?n * 5) (?n * ?B)) (\<lambda>v st'. ?Q v st' \<and> spent M u (?n * 5) (?n * ?B) st')
          ((case v of None \<Rightarrow> ?search | Some _ \<Rightarrow> ret v) u)"
        using tail by (cases "version_at recs key block") (auto simp: split)
    qed
    have "outcome (errs M fails st (2 + (3 + ?n * 5)) (2 * MAX_SHARD_BYTES + (RUN_BYTES + ?n * ?B)))
        (\<lambda>v st'. ?Q v st' \<and> spent M st (2 + (3 + ?n * 5)) (2 * MAX_SHARD_BYTES + (RUN_BYTES + ?n * ?B)) st')
        (bind_a (may run) (\<lambda>maybe. if \<not> maybe then ?search
           else bind_a (look run rr) (\<lambda>found. case found of None \<Rightarrow> ?search | Some _ \<Rightarrow> ret found)) st)"
    proof (rule spending_bind)
      show "outcome (errs M fails st 2 (2 * MAX_SHARD_BYTES))
          (\<lambda>maybe st'. ((answers E c (ref_digest (hr_root run)) (hr_shards run) key \<longrightarrow> maybe) \<and> ok st') \<and> spent M st 2 (2 * MAX_SHARD_BYTES) st')
          (may run st)"
        using Cons.prems(2) built(1) by (rule may)
      fix maybe t assume maybe: "(answers E c (ref_digest (hr_root run)) (hr_shards run) key \<longrightarrow> maybe) \<and> ok t"
      have "version_at recs key block = None" if "\<not> maybe"
        using that maybe built(2) by (auto simp: version_at_def last_opt_def filter_empty_conv)
      then show "outcome (errs M fails t (3 + ?n * 5) (RUN_BYTES + ?n * ?B)) (\<lambda>v st'. ?Q v st' \<and> spent M t (3 + ?n * 5) (RUN_BYTES + ?n * ?B) st')
          ((if \<not> maybe then ?search else bind_a (look run rr) (\<lambda>found. case found of None \<Rightarrow> ?search | Some _ \<Rightarrow> ret found)) t)"
        using maybe found spending_mono [OF tail, of t "3 + ?n * 5" "RUN_BYTES + ?n * ?B"] by (cases maybe) simp_all
    qed
    then show ?thesis using False unfolding len by (simp add: r del: outcome_bind)
  qed
qed

section \<open>Opened runs\<close>

text \<open>Both readers decode the roots that a head holds inline.\<close>

lemma opened_run:
  assumes "hrun_rep E c run recs" "nonzero (store_holds E c)"
  shows "\<exists>rr. bind_r (run_input E run) (\<lambda>(reference, bytes). bind_r (decode_root E reference bytes) (\<lambda>reader. Inr (run, reader))) = Inr (run, rr) \<and>
    reader_rep E (stored E c) rr recs"
proof -
  from assms(1) obtain b where b: "built_rep E c b recs" "br_root b = hr_root run" "hex_decode E (hr_root_bytes run) = Inr (br_root_bytes b)"
    by (auto simp: hrun_rep_def)
  moreover obtain rr where "decode_root E (br_root b) (br_root_bytes b) = Inr rr" "reader_rep E (stored E c) rr recs"
    using built_reader [OF b(1) assms(2)] .
  ultimately show ?thesis by (simp add: run_input_def)
qed

lemma opened_runs:
  assumes "list_all2 (hrun_rep E c) rs ps" "nonzero (store_holds E c)"
  shows "\<exists>runs. map_r (\<lambda>run. bind_r (run_input E run) (\<lambda>(reference, bytes). bind_r (decode_root E reference bytes) (\<lambda>reader. Inr (run, reader)))) rs = Inr runs \<and>
    list_all2 (\<lambda>(run, rr) recs. hrun_rep E c run recs \<and> reader_rep E (stored E c) rr recs) runs ps"
  using assms(1)
proof (induction rule: list_all2_induct)
  case (Cons r rs p ps)
  from opened_run [OF Cons.hyps(1) assms(2)] obtain rr where
    "bind_r (run_input E r) (\<lambda>(reference, bytes). bind_r (decode_root E reference bytes) (\<lambda>reader. Inr (r, reader))) = Inr (r, rr)"
    "reader_rep E (stored E c) rr p" by blast
  with Cons show ?case by auto
qed simp

lemma head_runs_length: "head_wf E h \<Longrightarrow> length (head_runs h) \<le> 24"
proof -
  assume wf: "head_wf E h"
  have "length (level_runs ls) \<le> length ls" for ls
    unfolding level_runs_def by (induction ls) (auto split: option.splits)
  from this [of "hd_levels h"] wf show ?thesis
    by (simp add: head_runs_levels head_wf_def levels_ok_def MAX_L0_BACKLOG_def MAX_LEVELS_def)
qed

end
