(* ===== verification/Tiered_Reader.thy ===== *)
theory Tiered_Reader
  imports Metering
begin

text \<open>
  \<^verbatim>\<open>Reader\<close> of \<^verbatim>\<open>src/tiered.rs\<close>: reads of a pinned head under a per-request budget. The state of a
  read is the store, the cache of summary shards and the budget of the request. The cache is
  crate \<^verbatim>\<open>moka\<close>'s: which entries it keeps is the parameter \<open>cache_keep\<close>, given the capacity and the weight of
  each entry, and it may drop entries at any access. The main results: a read answers what the
  histories of the head say, or fails for lack of budget; and a budget suffices for every account
  read, and for every read of a head with at most 16 runs.
\<close>

section \<open>Budgets and the cache\<close>

record ext_cache = ext_head +
  cache_keep :: "u64 \<Rightarrow> (string \<times> u32) list \<Rightarrow> string list"

record budget =
  bg_gets :: u32
  bg_bytes :: u64

definition budget_default :: budget where
  "budget_default = \<lparr>bg_gets = 0, bg_bytes = 0\<rparr>"

record 's reading =
  rd_store :: 's
  rd_cache :: "(string \<times> shard) list"
  rd_budget :: budget

definition MAX_REQUEST_GETS :: u32 where "MAX_REQUEST_GETS = 192"
definition MAX_REQUEST_BYTES :: u64 where "MAX_REQUEST_BYTES = 128 * 1024 * 1024"
definition SHARD_CACHE_BYTES :: u64 where "SHARD_CACHE_BYTES = 256 * 1024 * 1024"

text \<open>An operation of the store.\<close>

definition on_store :: "('s, 'a) act \<Rightarrow> ('s reading, 'a) act" where
  "on_store m st = (case m (rd_store st) of (r, s) \<Rightarrow> (r, st\<lparr>rd_store := s\<rparr>))"

definition budget_add :: "nat \<Rightarrow> budget \<Rightarrow> budget" where
  "budget_add maximum b = \<lparr>bg_gets = bg_gets b + 1, bg_bytes = bg_bytes b + word_of_nat maximum\<rparr>"

definition over_budget :: "budget \<Rightarrow> bool" where
  "over_budget b \<longleftrightarrow> bg_gets b > MAX_REQUEST_GETS \<or> bg_bytes b > MAX_REQUEST_BYTES"

definition charge :: "nat \<Rightarrow> ('s reading, unit) act" where
  "charge maximum st =
     (let b = budget_add maximum (rd_budget st); st = st\<lparr>rd_budget := b\<rparr>
      in if over_budget b then (bail ''tiered read exceeds its per-request GET or byte budget'', st) else (Inr (), st))"

text \<open>The weigher, \<^verbatim>\<open>Cache::get\<close> and \<^verbatim>\<open>Cache::insert\<close>.\<close>

definition shard_len :: "shard \<Rightarrow> nat" where
  "shard_len sh = length (shard_bits sh)"

definition cache_evict :: "'x ext_cache_scheme \<Rightarrow> (string \<times> shard) list \<Rightarrow> (string \<times> shard) list" where
  "cache_evict E cache =
     filter (\<lambda>(path, sh). path \<in> set (cache_keep E SHARD_CACHE_BYTES (map (\<lambda>(path, sh). (path, word_of_nat (shard_len sh))) cache))) cache"

definition cache_get :: "'x ext_cache_scheme \<Rightarrow> string \<Rightarrow> ('s reading, shard option) act" where
  "cache_get E path st =
     (let cache = cache_evict E (rd_cache st) in (Inr (map_of cache path), st\<lparr>rd_cache := cache\<rparr>))"

definition cache_insert :: "string \<Rightarrow> shard \<Rightarrow> ('s reading, unit) act" where
  "cache_insert path sh st = (Inr (), st\<lparr>rd_cache := AList.update path sh (rd_cache st)\<rparr>)"

section \<open>The reader\<close>

record pinned =
  pn_head_digest :: hash32
  pn_head :: head
  pn_runs :: "(head_run \<times> run_reader) list"

definition reader_open :: "'x ext_head_scheme \<Rightarrow> 's archive_store \<Rightarrow> u64 \<Rightarrow> ('s, pinned) act" where
  "reader_open E S chain_id =
     bind_a (read_head E S chain_id) (\<lambda>r.
     bind_a (lift_r (ok_or ''missing tiered head'' r)) (\<lambda>(bytes, head).
     bind_a (lift_r (map_r (\<lambda>run. bind_r (run_input E run) (\<lambda>(reference, bytes).
       bind_r (decode_root E reference bytes) (\<lambda>reader. Inr (run, reader)))) (head_runs head))) (\<lambda>runs.
       ret \<lparr>pn_head_digest = sha256 E (v_bytes bytes), pn_head = head, pn_runs = runs\<rparr>)))"

definition latest_block :: "pinned \<Rightarrow> u64" where
  "latest_block rd = hd_number (pn_head rd)"

definition run_count :: "pinned \<Rightarrow> nat" where
  "run_count rd = length (pn_runs rd)"

definition l0_count :: "pinned \<Rightarrow> nat" where
  "l0_count rd = length (hd_l0 (pn_head rd))"

definition reader_chain_id :: "pinned \<Rightarrow> u64" where
  "reader_chain_id rd = hd_chain_id (pn_head rd)"

definition read_shard ::
  "'x ext_cache_scheme \<Rightarrow> 's archive_store \<Rightarrow> head_run \<Rightarrow> shard_kind \<Rightarrow> u32 \<Rightarrow> ('s reading, shard) act" where
  "read_shard E S run kind index =
     (let path = shard_path E (ref_digest (hr_root run)) (hr_shards run) kind index
      in bind_a (cache_get E path) (\<lambda>cached.
           case cached of
             Some sh \<Rightarrow> ret sh
           | None \<Rightarrow>
               bind_a (charge MAX_SHARD_BYTES) (\<lambda>_.
               bind_a (on_store (st_get_bounded S path MAX_SHARD_BYTES)) (\<lambda>bytes.
               bind_a (lift_r (shard_decode E (ref_digest (hr_root run)) kind index (hr_shards run) bytes)) (\<lambda>sh.
               bind_a (cache_insert path sh) (\<lambda>_. ret sh))))))"

definition may_contain :: "'x ext_cache_scheme \<Rightarrow> 's archive_store \<Rightarrow> head_run \<Rightarrow> bytes \<Rightarrow> ('s reading, bool) act" where
  "may_contain E S run key =
     (let probe = probe_new E key (hr_shards run)
      in bind_a (read_shard E S run Address (probe_address_index probe)) (\<lambda>address.
           if shard_contains E address key then ret True
           else if \<not> shard_contains E address (probe_marker probe) then ret False
           else bind_a (read_shard E S run Spill (probe_spill_index probe)) (\<lambda>spill. ret (shard_contains E spill key))))"

definition charged_fetch :: "'x ext_scheme \<Rightarrow> 's archive_store \<Rightarrow> obj_ref \<Rightarrow> ('s reading, bytes) act" where
  "charged_fetch E S reference =
     bind_a (charge (unat (ref_length reference))) (\<lambda>_. on_store (fetch E S reference))"

fun lookup_runs ::
  "'x ext_cache_scheme \<Rightarrow> 's archive_store \<Rightarrow> bytes \<Rightarrow> u64 \<Rightarrow> (head_run \<times> run_reader) list \<Rightarrow> ('s reading, bytes option) act" where
  "lookup_runs E S key block [] = ret None"
| "lookup_runs E S key block ((run, reader) # runs) =
     (if hr_start run > block then lookup_runs E S key block runs
      else
        bind_a (may_contain E S run key) (\<lambda>maybe.
          if \<not> maybe then lookup_runs E S key block runs
          else
            bind_a (lookup E reader key (min block (hr_end run)) (charged_fetch E S)) (\<lambda>value.
              case value of None \<Rightarrow> lookup_runs E S key block runs | Some _ \<Rightarrow> ret value)))"

definition reader_lookup ::
  "'x ext_cache_scheme \<Rightarrow> 's archive_store \<Rightarrow> pinned \<Rightarrow> bytes \<Rightarrow> u64 \<Rightarrow> ('s reading, bytes option) act" where
  "reader_lookup E S rd key block =
     (if block > hd_number (pn_head rd) then bail_a ''block outside pinned tiered history''
      else lookup_runs E S key block (rev (pn_runs rd)))"

text \<open>A request starts with a fresh budget.\<close>

definition with_budget :: "('s reading, 'a) act \<Rightarrow> ('s reading, 'a) act" where
  "with_budget m st = m (st\<lparr>rd_budget := budget_default\<rparr>)"

definition account_in ::
  "'x ext_cache_scheme \<Rightarrow> 's archive_store \<Rightarrow> pinned \<Rightarrow> address \<Rightarrow> u64 \<Rightarrow> ('s reading, account_event option) act" where
  "account_in E S rd a block =
     bind_a (reader_lookup E S rd (account_key a) block) (\<lambda>value.
       case value of
         None \<Rightarrow> ret None
       | Some value \<Rightarrow>
           bind_a (lift_r (account_decode value)) (\<lambda>state.
             ret (Some \<lparr>ae_block = block, ae_address = a, ae_exists = as_exists state, ae_incarnation = as_incarnation state,
               ae_nonce = as_nonce state, ae_balance = as_balance state, ae_code_hash = as_code_hash state\<rparr>)))"

definition reader_account ::
  "'x ext_cache_scheme \<Rightarrow> 's archive_store \<Rightarrow> pinned \<Rightarrow> address \<Rightarrow> u64 \<Rightarrow> ('s reading, account_event option) act" where
  "reader_account E S rd a block = with_budget (account_in E S rd a block)"

definition reader_storage ::
  "'x ext_cache_scheme \<Rightarrow> 's archive_store \<Rightarrow> pinned \<Rightarrow> address \<Rightarrow> hash32 \<Rightarrow> u64 \<Rightarrow> ('s reading, hash32) act" where
  "reader_storage E S rd a slot block =
     with_budget (bind_a (account_in E S rd a block) (\<lambda>account.
       case account of
         None \<Rightarrow> ret 0
       | Some account \<Rightarrow>
           if \<not> ae_exists account then ret 0
           else
             bind_a (reader_lookup E S rd (storage_key a (ae_incarnation account) slot) block) (\<lambda>value.
               case value of
                 Some value \<Rightarrow>
                   if length value \<noteq> 32 then bail_a ''invalid full-key storage poststate'' else ret (of_be value)
               | None \<Rightarrow> ret 0)))"

definition reader_code ::
  "'x ext_cache_scheme \<Rightarrow> 's archive_store \<Rightarrow> pinned \<Rightarrow> address \<Rightarrow> u64 \<Rightarrow> ('s reading, bytes) act" where
  "reader_code E S rd a block =
     with_budget (bind_a (account_in E S rd a block) (\<lambda>account.
       case account of
         None \<Rightarrow> ret []
       | Some account \<Rightarrow>
           if \<not> ae_exists account then ret []
           else if ae_code_hash account = keccak256 E [] then ret []
           else
             bind_a (reader_lookup E S rd (code_key (ae_code_hash account)) block) (\<lambda>value.
             bind_a (lift_r (ok_or ''missing account code blob'' value)) (\<lambda>bytes.
               if length bytes > MAX_CODE \<or> keccak256 E bytes \<noteq> ae_code_hash account then bail_a ''invalid code poststate''
               else ret bytes))))"

section \<open>Spending\<close>

text \<open>The budget of a request as a meter.\<close>

definition budget_meter :: "'s reading meter" where
  "budget_meter = \<lparr>mt_gets = \<lambda>st. unat (bg_gets (rd_budget st)), mt_bytes = \<lambda>st. unat (bg_bytes (rd_budget st)),
     mt_max_gets = unat MAX_REQUEST_GETS, mt_max_bytes = unat MAX_REQUEST_BYTES\<rparr>"

lemma budget_meter_simps [simp]:
  "mt_gets budget_meter st = unat (bg_gets (rd_budget st))" "mt_bytes budget_meter st = unat (bg_bytes (rd_budget st))"
  "mt_max_gets budget_meter = unat MAX_REQUEST_GETS" "mt_max_bytes budget_meter = unat MAX_REQUEST_BYTES"
  by (simp_all add: budget_meter_def)

lemma exhausted_budget [simp]: "exhausted budget_meter st = over_budget (rd_budget st)"
  by (simp add: exhausted_def over_budget_def word_less_nat_alt)

lemma budget_add_le: "unat (bg_gets (budget_add n b)) \<le> unat (bg_gets b) + 1" "unat (bg_bytes (budget_add n b)) \<le> unat (bg_bytes b) + n"
  using unat_plus_le [of "bg_gets b" 1] unat_plus_le [of "bg_bytes b" n] by (simp_all add: budget_add_def)

lemma charge_spends:
  "outcome (errs budget_meter F st 1 n) (\<lambda>_ st'. (\<exists>b. st' = st\<lparr>rd_budget := b\<rparr>) \<and> spent budget_meter st 1 n st') (charge n st)"
proof -
  have "spent budget_meter st 1 n (st\<lparr>rd_budget := budget_add n (rd_budget st)\<rparr>)"
    using budget_add_le [of n "rd_budget st"] by (simp add: spent_def)
  moreover from room_exhausted [OF _ this] have "errs budget_meter F st 1 n e" if "over_budget (budget_add n (rd_budget st))" for e
    using that by (auto simp: errs_def)
  ultimately show ?thesis by (auto simp: charge_def Let_def bail_def)
qed

text \<open>The same fetch with no limit; it stops counting once it is over the budget.\<close>

definition free_charge :: "nat \<Rightarrow> ('s reading, unit) act" where
  "free_charge n st = (Inr (), if over_budget (rd_budget st) then st else st\<lparr>rd_budget := budget_add n (rd_budget st)\<rparr>)"

definition free_fetch :: "'x ext_scheme \<Rightarrow> 's archive_store \<Rightarrow> obj_ref \<Rightarrow> ('s reading, bytes) act" where
  "free_fetch E S reference = bind_a (free_charge (unat (ref_length reference))) (\<lambda>_. on_store (fetch E S reference))"

lemma on_store_budget: "on_store m st = (r, st') \<Longrightarrow> rd_budget st' = rd_budget st \<and> rd_cache st' = rd_cache st"
  by (auto simp: on_store_def split: prod.splits)

lemma free_fetch_over: "keeps (grows (exhausted budget_meter)) (free_fetch E S r)"
  unfolding free_fetch_def
  by (intro keeps_bind keepsI) (auto simp: free_charge_def dest: on_store_budget)

lemma charged_agree: "agree (exhausted budget_meter) (charged_fetch E S r) (free_fetch E S r)"
proof -
  have "agree (exhausted budget_meter) (charge n) (free_charge n)" for n
    by (auto simp: agree_def charge_def free_charge_def Let_def)
  then show ?thesis
    unfolding charged_fetch_def free_fetch_def
    by (intro agree_bind agree_refl keepsI) (auto dest: on_store_budget)
qed

lemma fetches_metered: "metered budget_meter (charged_fetch E S)" "metered budget_meter (free_fetch E S)"
  using budget_add_le
  by (auto intro!: spendsI simp: metered_def free_fetch_def charged_fetch_def bind_a_def free_charge_def charge_def Let_def bail_def
      dest!: on_store_budget split: if_splits)

section \<open>What is read\<close>

definition shard_of :: "bytes \<Rightarrow> shard" where
  "shard_of bs = \<lparr>shard_bits = drop HEADER_BYTES (take (length bs - 32) bs)\<rparr>"

lemma shard_decode_of: "shard_decode E run kind index shards bs = Inr sh \<Longrightarrow> sh = shard_of bs \<and> length bs \<le> MAX_SHARD_BYTES"
  by (auto simp: shard_decode_def shard_of_def Let_def split: if_splits)

text \<open>The cache holds decoded shards of the store.\<close>

definition cache_ok :: "(string \<Rightarrow> bytes option) \<Rightarrow> (string \<times> shard) list \<Rightarrow> bool" where
  "cache_ok c cache \<longleftrightarrow> (\<forall>(path, sh)\<in>set cache. path \<in> immutable_keys \<and> (\<exists>bs. c path = Some bs \<and> sh = shard_of bs))"

lemma cache_ok_simps:
  "cache_ok c cache \<Longrightarrow> cache_ok c (cache_evict E cache)"
  "cache_ok c cache \<Longrightarrow> c path = Some bs \<Longrightarrow> path \<in> immutable_keys \<Longrightarrow> cache_ok c (AList.update path (shard_of bs) cache)"
  "cache_ok c cache \<Longrightarrow> map_of cache path = Some sh \<Longrightarrow> c path = Some bs \<Longrightarrow> sh = shard_of bs"
proof -
  show "cache_ok c cache \<Longrightarrow> cache_ok c (cache_evict E cache)" by (auto simp: cache_ok_def cache_evict_def)
  show "cache_ok c cache \<Longrightarrow> c path = Some bs \<Longrightarrow> path \<in> immutable_keys \<Longrightarrow> cache_ok c (AList.update path (shard_of bs) cache)"
    by (induction cache) (auto simp: cache_ok_def)
  show "cache_ok c cache \<Longrightarrow> map_of cache path = Some sh \<Longrightarrow> c path = Some bs \<Longrightarrow> sh = shard_of bs"
    unfolding cache_ok_def using map_of_SomeD [of cache path sh] by fastforce
qed

lemma cache_ok_objects: "cache_ok c cache \<Longrightarrow> objects_le c c' \<Longrightarrow> cache_ok c' cache"
  by (force simp: cache_ok_def objects_le_def map_le_def restrict_map_def dom_def)

definition reading_ok :: "('s \<Rightarrow> string \<Rightarrow> bytes option) \<Rightarrow> (string \<Rightarrow> bytes option) \<Rightarrow> 's reading \<Rightarrow> bool" where
  "reading_ok contents c st \<longleftrightarrow> contents (rd_store st) = c \<and> cache_ok c (rd_cache st)"

lemma reading_ok_budget [simp]: "reading_ok contents c (st\<lparr>rd_budget := b\<rparr>) = reading_ok contents c st"
  by (simp add: reading_ok_def)

text \<open>A reader pinned to a head with these histories.\<close>

definition pinned_rep :: "'x ext_scheme \<Rightarrow> (string \<Rightarrow> bytes option) \<Rightarrow> pinned \<Rightarrow> head \<Rightarrow> (bytes \<Rightarrow> krecord list) \<Rightarrow> bool" where
  "pinned_rep E c rd h hist \<longleftrightarrow> pn_head rd = h \<and> head_rep E c h hist \<and>
     (\<exists>parts. hist = versions (concat parts) \<and> length parts = length (head_runs h) \<and>
        list_all2 (\<lambda>(run, rr) recs. hrun_rep E c run recs \<and> reader_rep E (stored E c) rr recs) (pn_runs rd) parts)"

lemma pinned_rep_objects:
  assumes "pinned_rep E c rd h hist" "objects_le c c'"
  shows "pinned_rep E c' rd h hist"
proof -
  have "stored E (c |` immutable_keys) = stored E c" by (simp add: stored_def fun_eq_iff)
  then have "stored E c \<le> stored E c'"
    using assms(2) stored_mono [of "c |` immutable_keys" c' E] by (simp add: objects_le_def)
  then have "reader_rep E (stored E c) rr recs \<Longrightarrow> reader_rep E (stored E c') rr recs" for rr recs
    by (rule reader_rep_mono [rotated])
  then show ?thesis
    using assms(1,2) unfolding pinned_rep_def
    by (blast intro: head_rep_objects hrun_rep_objects list_all2_mono)
qed

context archive_laws begin

abbreviation ok :: "(string \<Rightarrow> bytes option) \<Rightarrow> 's reading \<Rightarrow> bool" where
  "ok \<equiv> reading_ok contents"

lemma read_shard_correct:
  assumes st: "ok c st" and stored: "c (shard_path E (ref_digest (hr_root run)) (hr_shards run) kind i) = Some bs"
      "shard_decode E (ref_digest (hr_root run)) kind i (hr_shards run) bs = Inr sh"
  shows "outcome (errs budget_meter fails st 1 MAX_SHARD_BYTES) (\<lambda>sh' st'. (sh' = sh \<and> ok c st') \<and> spent budget_meter st 1 MAX_SHARD_BYTES st')
    (read_shard E S run kind i st)"
  unfolding read_shard_def Let_def
proof (rule spending_free)
  let ?path = "shard_path E (ref_digest (hr_root run)) (hr_shards run) kind i"
  note sh = shard_decode_of [OF stored(2)]
  show "outcome (\<lambda>_. False) (\<lambda>cached st'. (ok c st' \<and> (\<forall>sh'. cached = Some sh' \<longrightarrow> sh' = sh)) \<and> mt_gets budget_meter st' = mt_gets budget_meter st \<and> mt_bytes budget_meter st' = mt_bytes budget_meter st)
      (cache_get E ?path st)"
    using st stored(1) sh by (auto simp: cache_get_def Let_def reading_ok_def intro: cache_ok_simps(1) cache_ok_simps(3) [OF cache_ok_simps(1)])
  fix cached st' assume *: "ok c st' \<and> (\<forall>sh'. cached = Some sh' \<longrightarrow> sh' = sh)"
  have get: "outcome fails (\<lambda>b u. (b = bs \<and> ok c u) \<and> mt_gets budget_meter u = mt_gets budget_meter t \<and> mt_bytes budget_meter u = mt_bytes budget_meter t) (on_store (st_get_bounded S ?path MAX_SHARD_BYTES) t)"
    if "ok c t" for t
  proof -
    have "outcome fails (\<lambda>b s'. b = bs \<and> contents s' = contents (rd_store t) \<and> version s' = version (rd_store t))
        (st_get_bounded S ?path MAX_SHARD_BYTES (rd_store t))"
      using that stored(1) sh by (intro get_held) (simp_all add: reading_ok_def)
    then show ?thesis using that by (auto simp: on_store_def outcome_def reading_ok_def split: prod.splits sum.splits)
  qed
  have rest: "outcome (errs budget_meter fails t 0 0) (\<lambda>sh' u. (sh' = sh \<and> ok c u) \<and> spent budget_meter t 0 0 u)
      (bind_a (on_store (st_get_bounded S ?path MAX_SHARD_BYTES)) (\<lambda>bytes.
        bind_a (lift_r (shard_decode E (ref_digest (hr_root run)) kind i (hr_shards run) bytes)) (\<lambda>sh.
        bind_a (cache_insert ?path sh) (\<lambda>_. ret sh))) t)" if "ok c t" for t
  proof (rule spending_free)
    show "outcome fails (\<lambda>b u. (b = bs \<and> ok c u) \<and> mt_gets budget_meter u = mt_gets budget_meter t \<and> mt_bytes budget_meter u = mt_bytes budget_meter t) (on_store (st_get_bounded S ?path MAX_SHARD_BYTES) t)"
      using that by (rule get)
    show "fails e \<Longrightarrow> errs budget_meter fails t 0 0 e" for e by (simp add: errs_def)
    fix b u assume "b = bs \<and> ok c u"
    then show "outcome (errs budget_meter fails u 0 0) (\<lambda>sh' st''. (sh' = sh \<and> ok c st'') \<and> spent budget_meter u 0 0 st'')
        (bind_a (lift_r (shard_decode E (ref_digest (hr_root run)) kind i (hr_shards run) b)) (\<lambda>sh.
        bind_a (cache_insert ?path sh) (\<lambda>_. ret sh)) u)"
      using stored sh cache_ok_simps(2) by (auto simp: cache_insert_def reading_ok_def spent_def)
  qed
  show "outcome (errs budget_meter fails st' 1 MAX_SHARD_BYTES) (\<lambda>sh' st''. (sh' = sh \<and> ok c st'') \<and> spent budget_meter st' 1 MAX_SHARD_BYTES st'')
      ((case cached of Some sh \<Rightarrow> ret sh
        | None \<Rightarrow> bind_a (charge MAX_SHARD_BYTES) (\<lambda>_.
            bind_a (on_store (st_get_bounded S ?path MAX_SHARD_BYTES)) (\<lambda>bytes.
            bind_a (lift_r (shard_decode E (ref_digest (hr_root run)) kind i (hr_shards run) bytes)) (\<lambda>sh.
            bind_a (cache_insert ?path sh) (\<lambda>_. ret sh))))) st')"
  proof (cases cached)
    case None
    have "outcome (errs budget_meter fails st' 1 MAX_SHARD_BYTES) (\<lambda>_ t. ok c t \<and> spent budget_meter st' 1 MAX_SHARD_BYTES t) (charge MAX_SHARD_BYTES st')"
      by (rule outcome_mono [OF charge_spends]) (use * in auto)
    from spending_bind [where m = "charge MAX_SHARD_BYTES" and g' = 0 and b' = 0, OF this rest] None show ?thesis by simp
  qed (use * in simp)
qed simp

text \<open>A probe of a stored run returns, and it is positive for the keys of the run.\<close>

lemma may_contain_correct:
  assumes st: "ok c st" and stored: "shards_stored E c (ref_digest (hr_root run)) (hr_shards run)"
  shows "outcome (errs budget_meter fails st 2 (2 * MAX_SHARD_BYTES))
    (\<lambda>maybe st'. ((answers E c (ref_digest (hr_root run)) (hr_shards run) key \<longrightarrow> maybe) \<and> ok c st') \<and> spent budget_meter st 2 (2 * MAX_SHARD_BYTES) st')
    (may_contain E S run key st)"
proof -
  have "may_contain E S run key = probe_shards E (read_shard E S run) run key" by (simp only: may_contain_def probe_shards_def)
  with probe_shards_correct [of "ok c" c E run, OF read_shard_correct st stored] show ?thesis by simp
qed

end

text \<open>Lookups in one run, with and without a limit.\<close>

sublocale archive_laws \<subseteq> charged: metered_source "charged_fetch E S" "free_fetch E S" "\<lambda>st. stored E (contents (rd_store st))" fails budget_meter
  for E :: "'x ext_scheme"
proof
  fix st :: "'s reading" and r bs
  assume held: "stored E (contents (rd_store st)) r bs"
  have fetch: "outcome fails (\<lambda>b s'. b = bs \<and> contents s' = contents (rd_store st)) (fetch E S r (rd_store st))" using held by (rule fetch_stored)
  then show "outcome (\<lambda>_. True) (\<lambda>bs' st'. bs' = bs \<and> stored E (contents (rd_store st')) = stored E (contents (rd_store st))) (charged_fetch E S r st)"
    by (auto simp: charged_fetch_def charge_def on_store_def Let_def outcome_def bind_a_def bail_def split: prod.splits sum.splits)
  show "outcome fails (\<lambda>bs' st'. bs' = bs \<and> stored E (contents (rd_store st')) = stored E (contents (rd_store st))) (free_fetch E S r st)"
    using fetch by (auto simp: free_fetch_def free_charge_def on_store_def outcome_def bind_a_def split: prod.splits sum.splits)
qed (rule charged_agree free_fetch_over fetches_metered | simp add: fails_Ctx)+

lemma lookup_runs_search:
  "lookup_runs E S key block runs =
     search_runs (\<lambda>run. may_contain E S run key) (\<lambda>run rr. lookup E rr key (min block (hr_end run)) (charged_fetch E S)) block runs"
proof (induction runs)
  case (Cons r runs)
  obtain run rr where "r = (run, rr)" by (rule prod.exhaust)
  then show ?case by (simp only: lookup_runs.simps search_runs.simps Cons.IH)
qed simp

context archive_laws begin

lemma run_lookup_correct:
  assumes st: "ok c st" and rep: "reader_rep E (stored E c) rr recs" and key: "key \<noteq> []"
  shows "outcome (errs budget_meter fails st 3 RUN_BYTES)
    (\<lambda>v st'. (v = version_at recs key block \<and> ok c st') \<and> spent budget_meter st 3 RUN_BYTES st')
    (lookup E rr key block (charged_fetch E S) st)"
proof -
  obtain v st' where run: "lookup E rr key block (charged_fetch E S) st = (v, st')" by (rule prod.exhaust)
  have "keeps (grows (\<lambda>st x. x = (contents (rd_store st), rd_cache st))) (charged_fetch E S r)" for r
    by (auto intro!: keepsI simp: charged_fetch_def charge_def on_store_def Let_def bind_a_def bail_def
        split: prod.splits if_splits dest!: fetch_contents)
  from keepsD [OF lookup_keeps [OF this] run] have "ok c st'" using st by (auto simp: reading_ok_def le_fun_def)
  moreover have "contents (rd_store st) = c" using st by (simp add: reading_ok_def)
  ultimately show ?thesis
    using charged.charged_lookup [of E E st rr recs key block] rep key unfolding run by (cases v) simp_all
qed

text \<open>The runs of a pinned head, newest first.\<close>

lemma lookup_runs_correct:
  assumes "list_all2 (\<lambda>(run, rr) recs. hrun_rep E c run recs \<and> reader_rep E (stored E c) rr recs) runs parts" "ok c st" "key \<noteq> []"
  shows "outcome (errs budget_meter fails st (length runs * 5) (length runs * HEAD_RUN_BYTES))
    (\<lambda>v st'. (v = state_at (versions (concat (rev parts))) key block \<and> ok c st') \<and>
       spent budget_meter st (length runs * 5) (length runs * HEAD_RUN_BYTES) st')
    (lookup_runs E S key block runs st)"
  unfolding lookup_runs_search using assms(1,2)
  by (rule search_runs_correct) (rule may_contain_correct run_lookup_correct assms(3) | assumption)+

text \<open>A reader pinned to a represented head.\<close>

lemma reader_open_correct:
  assumes rep: "archive_rep E (contents s) chain_id (Some (h, hist))" and nz: "nonzero (store_holds E (contents s))"
  shows "outcome fails (\<lambda>rd s'. pinned_rep E (contents s) rd h hist \<and> contents s' = contents s) (reader_open E S chain_id s)"
proof -
  let ?open = "\<lambda>run. bind_r (run_input E run) (\<lambda>(reference, bytes). bind_r (decode_root E reference bytes) (\<lambda>reader. Inr (run, reader)))"
  have hrep: "head_rep E (contents s) h hist" using rep by (auto simp: archive_rep_def)
  then obtain parts where parts: "list_all2 (hrun_rep E (contents s)) (head_runs h) parts" "hist = versions (concat parts)"
    by (auto simp: head_rep_def)
  obtain runs where runs: "map_r ?open (head_runs h) = Inr runs"
    "list_all2 (\<lambda>(run, rr) recs. hrun_rep E (contents s) run recs \<and> reader_rep E (stored E (contents s)) rr recs) runs parts"
    using opened_runs [OF parts(1) nz] by blast
  obtain r t where read: "read_head E S chain_id s = (r, t)" by (rule prod.exhaust)
  then have t: "contents t = contents s" using read_head_sound by blast
  have "outcome fails (\<lambda>r s'. (\<exists>v. r = Some (v, h)) \<and> contents s' = contents s) (read_head E S chain_id s)"
    using read_head_total [OF rep] t unfolding read by (cases r) simp_all
  then show ?thesis
    unfolding reader_open_def outcome_bind [of _ _ "read_head E S chain_id"]
  proof (rule outcome_mono)
    fix x :: "(versioned_bytes \<times> head) option" and t assume "(\<exists>v. x = Some (v, h)) \<and> contents t = contents s"
    moreover have "length parts = length (head_runs h)" using parts(1) by (simp add: list_all2_lengthD)
    ultimately show "outcome fails (\<lambda>rd s'. pinned_rep E (contents s) rd h hist \<and> contents s' = contents s)
        (bind_a (lift_r (ok_or ''missing tiered head'' x)) (\<lambda>(bytes, head).
          bind_a (lift_r (map_r ?open (head_runs head))) (\<lambda>runs.
            ret \<lparr>pn_head_digest = sha256 E (v_bytes bytes), pn_head = head, pn_runs = runs\<rparr>)) t)"
      using runs hrep parts(2) unfolding pinned_rep_def by (auto simp del: bind_r_simps)
  qed
qed

lemma reader_lookup_correct:
  assumes rep: "pinned_rep E c rd h hist" and st: "ok c st" and key: "key \<noteq> []" and block: "block \<le> hd_number h"
  shows "outcome (errs budget_meter fails st (length (head_runs h) * 5) (length (head_runs h) * HEAD_RUN_BYTES))
    (\<lambda>v st'. (v = state_at hist key block \<and> ok c st') \<and>
       spent budget_meter st (length (head_runs h) * 5) (length (head_runs h) * HEAD_RUN_BYTES) st')
    (reader_lookup E S rd key block st)"
proof -
  from rep obtain parts where parts: "hist = versions (concat parts)" "length parts = length (head_runs h)"
    and runs: "list_all2 (\<lambda>(run, rr) recs. hrun_rep E c run recs \<and> reader_rep E (stored E c) rr recs) (pn_runs rd) parts"
    by (auto simp: pinned_rep_def)
  have "length (pn_runs rd) = length (head_runs h)" using list_all2_lengthD [OF runs] parts(2) by simp
  moreover have "list_all2 (\<lambda>(run, rr) recs. hrun_rep E c run recs \<and> reader_rep E (stored E c) rr recs) (rev (pn_runs rd)) (rev parts)"
    using runs by simp
  from lookup_runs_correct [OF this st key, of block]
  have "outcome (errs budget_meter fails st (length (pn_runs rd) * 5) (length (pn_runs rd) * HEAD_RUN_BYTES))
    (\<lambda>v st'. (v = state_at hist key block \<and> ok c st') \<and>
       spent budget_meter st (length (pn_runs rd) * 5) (length (pn_runs rd) * HEAD_RUN_BYTES) st')
    (lookup_runs E S key block (rev (pn_runs rd)) st)" by (simp add: parts(1))
  moreover have "\<not> hd_number (pn_head rd) < block" using rep block by (auto simp: pinned_rep_def)
  ultimately show ?thesis by (simp add: reader_lookup_def)
qed

end

section \<open>Accounts, storage and code\<close>

text \<open>What the histories of a head say.\<close>

definition account_at :: "(bytes \<Rightarrow> krecord list) \<Rightarrow> address \<Rightarrow> u64 \<Rightarrow> account_event option result" where
  "account_at hist a block =
     (case state_at hist (account_key a) block of
        None \<Rightarrow> Inr None
      | Some value \<Rightarrow> bind_r (account_decode value) (\<lambda>state.
          Inr (Some \<lparr>ae_block = block, ae_address = a, ae_exists = as_exists state, ae_incarnation = as_incarnation state,
            ae_nonce = as_nonce state, ae_balance = as_balance state, ae_code_hash = as_code_hash state\<rparr>)))"

text \<open>The account when it exists.\<close>

definition live_account :: "(bytes \<Rightarrow> krecord list) \<Rightarrow> address \<Rightarrow> u64 \<Rightarrow> account_event option result" where
  "live_account hist a block =
     bind_r (account_at hist a block) (\<lambda>account. Inr (Option.bind account (\<lambda>e. if ae_exists e then Some e else None)))"

lemma live_account_simps:
  "account_at hist a block = Inr x \<Longrightarrow> live_account hist a block = Inr (Option.bind x (\<lambda>e. if ae_exists e then Some e else None))"
  "account_at hist a block = Inl e \<Longrightarrow> live_account hist a block = Inl e"
  by (simp_all add: live_account_def)

definition storage_at :: "(bytes \<Rightarrow> krecord list) \<Rightarrow> address \<Rightarrow> hash32 \<Rightarrow> u64 \<Rightarrow> hash32 result" where
  "storage_at hist a slot block =
     bind_r (live_account hist a block) (\<lambda>account.
       case Option.bind account (\<lambda>e. state_at hist (storage_key a (ae_incarnation e) slot) block) of
         None \<Rightarrow> Inr 0
       | Some value \<Rightarrow> if length value = 32 then Inr (of_be value) else bail ''invalid full-key storage poststate'')"

definition code_at :: "'x ext_scheme \<Rightarrow> (bytes \<Rightarrow> krecord list) \<Rightarrow> address \<Rightarrow> u64 \<Rightarrow> bytes result" where
  "code_at E hist a block =
     bind_r (live_account hist a block) (\<lambda>account.
       case account of
         None \<Rightarrow> Inr []
       | Some e \<Rightarrow>
           if ae_code_hash e = keccak256 E [] then Inr []
           else case state_at hist (code_key (ae_code_hash e)) block of
                  None \<Rightarrow> bail ''missing account code blob''
                | Some bytes \<Rightarrow>
                    if length bytes \<le> MAX_CODE \<and> keccak256 E bytes = ae_code_hash e then Inr bytes
                    else bail ''invalid code poststate'')"

lemma room_default:
  assumes "n \<le> 32"
  shows "room budget_meter (st\<lparr>rd_budget := budget_default\<rparr>) (n * 5) (n * HEAD_RUN_BYTES)"
  using assms by (simp add: room_def budget_default_def HEAD_RUN_BYTES_def RUN_BYTES_def MAX_SHARD_BYTES_def MAX_INDEX_BYTES_def
      MAX_PAGE_BYTES_def MAX_REQUEST_GETS_def MAX_REQUEST_BYTES_def)

context archive_laws begin

lemma account_in_correct:
  assumes rep: "pinned_rep E c rd h hist" and st: "ok c st" and block: "block \<le> hd_number h"
    and F: "\<And>e. fails e \<Longrightarrow> F e" "\<And>e. account_at hist a block = Inl e \<Longrightarrow> F e"
  defines "g \<equiv> length (head_runs h) * 5" and "b \<equiv> length (head_runs h) * HEAD_RUN_BYTES"
  shows "outcome (errs budget_meter F st g b) (\<lambda>x st'. (account_at hist a block = Inr x \<and> ok c st') \<and> spent budget_meter st g b st') (account_in E S rd a block st)"
proof -
  have "outcome (errs budget_meter fails st g b) (\<lambda>v st'. (v = state_at hist (account_key a) block \<and> ok c st') \<and> spent budget_meter st g b st')
      (reader_lookup E S rd (account_key a) block st)"
    unfolding g_def b_def using rep st _ block by (rule reader_lookup_correct) (simp add: account_key_def)
  then have "outcome (errs budget_meter F st g b) (\<lambda>v st'. (v = state_at hist (account_key a) block \<and> ok c st') \<and> spent budget_meter st g b st')
      (reader_lookup E S rd (account_key a) block st)"
    by (rule outcome_mono) (auto intro: errs_weaken [OF _ F(1)])
  then have "outcome (errs budget_meter F st (g + 0) (b + 0)) (\<lambda>x st'. (account_at hist a block = Inr x \<and> ok c st') \<and> spent budget_meter st (g + 0) (b + 0) st')
      (account_in E S rd a block st)"
    unfolding account_in_def
  proof (rule spending_bind)
    fix v st' assume *: "v = state_at hist (account_key a) block \<and> ok c st'"
    show "outcome (errs budget_meter F st' 0 0) (\<lambda>x st''. (account_at hist a block = Inr x \<and> ok c st'') \<and> spent budget_meter st' 0 0 st'')
        ((case v of None \<Rightarrow> ret None | Some value \<Rightarrow> bind_a (lift_r (account_decode value)) (\<lambda>state.
             ret (Some \<lparr>ae_block = block, ae_address = a, ae_exists = as_exists state, ae_incarnation = as_incarnation state,
               ae_nonce = as_nonce state, ae_balance = as_balance state, ae_code_hash = as_code_hash state\<rparr>))) st')"
    proof (cases v)
      case (Some bs)
      with * have eq: "state_at hist (account_key a) block = Some bs" and okc: "ok c st'" by simp_all
      show ?thesis using Some okc F(2) by (cases "account_decode bs") (simp_all add: account_at_def errs_def eq)
    qed (use * in \<open>simp add: account_at_def\<close>)
  qed
  then show ?thesis by simp
qed

text \<open>With enough budget for its reads, a request answers what the histories say.\<close>

lemma with_budget_outcome:
  assumes "outcome (errs budget_meter F (st\<lparr>rd_budget := budget_default\<rparr>) (n * 5) (n * HEAD_RUN_BYTES)) (\<lambda>x st'. (Q x \<and> ok c st') \<and> P st') (m (st\<lparr>rd_budget := budget_default\<rparr>))"
  shows "outcome (\<lambda>e. n \<le> 32 \<longrightarrow> F e) (\<lambda>x st'. Q x \<and> ok c st') (with_budget m st)"
  unfolding with_budget_def by (rule outcome_mono [OF assms]) (auto simp: errs_def room_default)

theorem reader_account_correct:
  assumes "pinned_rep E c rd h hist" "ok c st" "block \<le> hd_number h"
  shows "outcome (\<lambda>e. fails e \<or> account_at hist a block = Inl e) (\<lambda>x st'. account_at hist a block = Inr x \<and> ok c st')
    (reader_account E S rd a block st)"
proof -
  have "head_wf E h" using assms(1) by (simp add: pinned_rep_def head_rep_def)
  then have "length (head_runs h) \<le> 32" using head_runs_length by fastforce
  moreover have "outcome (\<lambda>e. length (head_runs h) \<le> 32 \<longrightarrow> fails e \<or> account_at hist a block = Inl e)
      (\<lambda>x st'. account_at hist a block = Inr x \<and> ok c st') (reader_account E S rd a block st)"
    unfolding reader_account_def
    by (rule with_budget_outcome, rule account_in_correct [OF assms(1) _ assms(3)]) (use assms(2) in auto)
  ultimately show ?thesis by simp
qed

text \<open>
  A storage or code read makes two lookups. It answers what the histories say, or fails; and with
  at most 16 runs it fails only as the histories or the store do.
\<close>

lemma second_lookup:
  assumes "pinned_rep E c rd h hist" "ok c st" "key \<noteq> []" "block \<le> hd_number h" "\<And>e. fails e \<Longrightarrow> F e"
    and "\<And>st'. ok c st' \<Longrightarrow> outcome F (\<lambda>x t. Q x \<and> t = st') (f (state_at hist key block) st')"
  shows "outcome (errs budget_meter F st (length (head_runs h) * 5) (length (head_runs h) * HEAD_RUN_BYTES))
    (\<lambda>x st'. (Q x \<and> ok c st') \<and> spent budget_meter st (length (head_runs h) * 5) (length (head_runs h) * HEAD_RUN_BYTES) st')
    (bind_a (reader_lookup E S rd key block) f st)"
proof -
  let ?g = "length (head_runs h) * 5" and ?b = "length (head_runs h) * HEAD_RUN_BYTES"
  have "outcome (errs budget_meter fails st ?g ?b) (\<lambda>v st'. (v = state_at hist key block \<and> ok c st') \<and> spent budget_meter st ?g ?b st') (reader_lookup E S rd key block st)"
    using assms(1-4) by (rule reader_lookup_correct)
  then have "outcome (errs budget_meter F st ?g ?b) (\<lambda>v st'. (v = state_at hist key block \<and> ok c st') \<and> spent budget_meter st ?g ?b st') (reader_lookup E S rd key block st)"
    by (rule outcome_mono) (auto intro: errs_weaken [OF _ assms(5)])
  then have "outcome (errs budget_meter F st (?g + 0) (?b + 0)) (\<lambda>x st'. (Q x \<and> ok c st') \<and> spent budget_meter st (?g + 0) (?b + 0) st')
      (bind_a (reader_lookup E S rd key block) f st)"
  proof (rule spending_bind)
    fix v st' assume "v = state_at hist key block \<and> ok c st'"
    then show "outcome (errs budget_meter F st' 0 0) (\<lambda>x t. (Q x \<and> ok c t) \<and> spent budget_meter st' 0 0 t) (f v st')"
      using assms(6) [of st'] by (auto simp: errs_def elim!: outcome_mono)
  qed
  then show ?thesis by simp
qed

text \<open>Both kinds of read are an account read and, for an account that exists, a second lookup.\<close>

lemma account_then:
  assumes rep: "pinned_rep E c rd h hist" and st: "ok c st" and block: "block \<le> hd_number h"
    and F: "\<And>e. fails e \<Longrightarrow> F e" "\<And>e. account_at hist a block = Inl e \<Longrightarrow> F e"
    and f: "\<And>x st'. account_at hist a block = Inr x \<Longrightarrow> ok c st' \<Longrightarrow>
      outcome (errs budget_meter F st' (length (head_runs h) * 5) (length (head_runs h) * HEAD_RUN_BYTES))
        (\<lambda>y st''. (Q y \<and> ok c st'') \<and> spent budget_meter st' (length (head_runs h) * 5) (length (head_runs h) * HEAD_RUN_BYTES) st'') (f x st')"
  shows "outcome (\<lambda>e. length (head_runs h) \<le> 16 \<longrightarrow> F e) (\<lambda>y st'. Q y \<and> ok c st')
    (with_budget (bind_a (account_in E S rd a block) f) st)"
proof -
  let ?n = "length (head_runs h)" and ?st = "st\<lparr>rd_budget := budget_default\<rparr>"
  have "outcome (errs budget_meter F ?st (?n * 5 + ?n * 5) (?n * HEAD_RUN_BYTES + ?n * HEAD_RUN_BYTES))
    (\<lambda>y st'. (Q y \<and> ok c st') \<and> spent budget_meter ?st (?n * 5 + ?n * 5) (?n * HEAD_RUN_BYTES + ?n * HEAD_RUN_BYTES) st')
    (bind_a (account_in E S rd a block) f ?st)"
  proof (rule spending_bind)
    show "outcome (errs budget_meter F ?st (?n * 5) (?n * HEAD_RUN_BYTES))
        (\<lambda>x st'. (account_at hist a block = Inr x \<and> ok c st') \<and> spent budget_meter ?st (?n * 5) (?n * HEAD_RUN_BYTES) st') (account_in E S rd a block ?st)"
      by (rule account_in_correct [OF rep _ block]) (use st F in auto)
  qed (use f in blast)
  then have "outcome (\<lambda>e. 2 * ?n \<le> 32 \<longrightarrow> F e) (\<lambda>y st'. Q y \<and> ok c st') (with_budget (bind_a (account_in E S rd a block) f) st)"
    by (intro with_budget_outcome [where n = "2 * ?n"]) (simp only: mult_2 add_mult_distrib)
  then show ?thesis by simp
qed

theorem reader_storage_correct:
  assumes "pinned_rep E c rd h hist" "ok c st" "block \<le> hd_number h"
  shows "outcome (\<lambda>e. length (head_runs h) \<le> 16 \<longrightarrow> fails e \<or> storage_at hist a slot block = Inl e)
    (\<lambda>x st'. storage_at hist a slot block = Inr x \<and> ok c st') (reader_storage E S rd a slot block st)"
  unfolding reader_storage_def
proof (rule account_then [OF assms])
  let ?n = "length (head_runs h)" and ?spec = "storage_at hist a slot block"
  let ?F = "\<lambda>e. fails e \<or> ?spec = Inl e"
  let ?slot = "\<lambda>v. case v of Some value \<Rightarrow>
      if length value \<noteq> 32 then bail_a ''invalid full-key storage poststate'' else ret (of_be value) | None \<Rightarrow> ret 0"
  fix x st' assume x: "account_at hist a block = Inr x" "ok c st'"
  note spec = storage_at_def live_account_simps(1) [OF x(1)]
  show "outcome (errs budget_meter ?F st' (?n * 5) (?n * HEAD_RUN_BYTES)) (\<lambda>y st''. (?spec = Inr y \<and> ok c st'') \<and> spent budget_meter st' (?n * 5) (?n * HEAD_RUN_BYTES) st'')
      ((case x of None \<Rightarrow> ret 0 | Some account \<Rightarrow> if \<not> ae_exists account then ret 0
           else bind_a (reader_lookup E S rd (storage_key a (ae_incarnation account) slot) block) ?slot) st')"
  proof (cases "Option.bind x (\<lambda>e. if ae_exists e then Some e else None)")
    case None
    then show ?thesis using x by (cases x) (auto simp: spec split: if_splits)
  next
    case (Some e)
    then have e: "x = Some e" "ae_exists e" by (cases x; auto split: if_splits)+
    have "outcome (errs budget_meter ?F st' (?n * 5) (?n * HEAD_RUN_BYTES)) (\<lambda>y st''. (?spec = Inr y \<and> ok c st'') \<and> spent budget_meter st' (?n * 5) (?n * HEAD_RUN_BYTES) st'')
        (bind_a (reader_lookup E S rd (storage_key a (ae_incarnation e) slot) block) ?slot st')"
      by (rule second_lookup [OF assms(1) x(2) _ assms(3)])
        (use e in \<open>auto simp: storage_key_def [of _ _ slot] spec bail_def split: option.split\<close>)
    then show ?thesis using e by (simp del: outcome_bind)
  qed
qed (auto simp: storage_at_def live_account_simps)

theorem reader_code_correct:
  assumes "pinned_rep E c rd h hist" "ok c st" "block \<le> hd_number h"
  shows "outcome (\<lambda>e. length (head_runs h) \<le> 16 \<longrightarrow> fails e \<or> code_at E hist a block = Inl e)
    (\<lambda>x st'. code_at E hist a block = Inr x \<and> ok c st') (reader_code E S rd a block st)"
  unfolding reader_code_def
proof (rule account_then [OF assms])
  let ?n = "length (head_runs h)" and ?spec = "code_at E hist a block"
  let ?F = "\<lambda>e. fails e \<or> ?spec = Inl e"
  let ?blob = "\<lambda>account v. bind_a (lift_r (ok_or ''missing account code blob'' v)) (\<lambda>bytes.
      if length bytes > MAX_CODE \<or> keccak256 E bytes \<noteq> ae_code_hash account then bail_a ''invalid code poststate'' else ret bytes)"
  fix x st' assume x: "account_at hist a block = Inr x" "ok c st'"
  note spec = code_at_def live_account_simps(1) [OF x(1)]
  show "outcome (errs budget_meter ?F st' (?n * 5) (?n * HEAD_RUN_BYTES)) (\<lambda>y st''. (?spec = Inr y \<and> ok c st'') \<and> spent budget_meter st' (?n * 5) (?n * HEAD_RUN_BYTES) st'')
      ((case x of None \<Rightarrow> ret [] | Some account \<Rightarrow> if \<not> ae_exists account then ret []
           else if ae_code_hash account = keccak256 E [] then ret []
           else bind_a (reader_lookup E S rd (code_key (ae_code_hash account)) block) (?blob account)) st')"
  proof (cases "\<exists>e. x = Some e \<and> ae_exists e \<and> ae_code_hash e \<noteq> keccak256 E []")
    case False
    then show ?thesis using x by (cases x) (auto simp: spec)
  next
    case True
    then obtain e where e: "x = Some e" "ae_exists e" "ae_code_hash e \<noteq> keccak256 E []" by blast
    have "outcome (errs budget_meter ?F st' (?n * 5) (?n * HEAD_RUN_BYTES)) (\<lambda>y st''. (?spec = Inr y \<and> ok c st'') \<and> spent budget_meter st' (?n * 5) (?n * HEAD_RUN_BYTES) st'')
        (bind_a (reader_lookup E S rd (code_key (ae_code_hash e)) block) (?blob e) st')"
      by (rule second_lookup [OF assms(1) x(2) _ assms(3)])
        (use e in \<open>auto simp: code_key_def spec bail_def ok_or_def not_less split: option.split\<close>)
    then show ?thesis using e by (simp del: outcome_bind)
  qed
qed (auto simp: code_at_def live_account_simps)

text \<open>Reads keep the cache a cache of the store, whether or not they fail.\<close>

lemma charged_fetch_ok: "keeps (grows (\<lambda>st c. ok c st)) (charged_fetch E S r)"
  by (rule keepsI) (auto simp: charged_fetch_def charge_def on_store_def Let_def bind_a_def bail_def le_fun_def reading_ok_def
      split: prod.splits if_splits dest!: fetch_contents)

lemma read_shard_ok: "keeps (grows (\<lambda>st c. ok c st)) (read_shard E S run kind i)"
proof (rule keepsI)
  fix st r st' assume read: "read_shard E S run kind i st = (r, st')"
  let ?path = "shard_path E (ref_digest (hr_root run)) (hr_shards run) kind i"
  show "(\<lambda>c. ok c st) \<le> (\<lambda>c. ok c st')"
  proof (rule le_funI, rule le_boolI)
    fix c assume st: "ok c st"
    have evict: "cache_ok c (cache_evict E (rd_cache st))" using st by (auto simp: reading_ok_def intro: cache_ok_simps(1))
    have ins: "cache_ok c (AList.update ?path sh (cache_evict E (rd_cache st)))"
      if "c ?path = Some bs" "shard_decode E (ref_digest (hr_root run)) kind i (hr_shards run) bs = Inr sh" for bs sh
      using evict that shard_decode_of [OF that(2)] by (auto intro: cache_ok_simps(2))
    show "ok c st'"
      using read st evict ins
      by (auto simp: read_shard_def cache_get_def cache_insert_def charge_def on_store_def Let_def bind_a_def bail_def reading_ok_def
          split: prod.splits sum.splits option.splits if_splits dest!: get_sound)
  qed
qed

lemma lookup_runs_ok: "keeps (grows (\<lambda>st c. ok c st)) (lookup_runs E S key block runs)"
proof (induction runs)
  case (Cons r runs)
  obtain run rr where "r = (run, rr)" by (rule prod.exhaust)
  with Cons show ?case
    by (auto simp: may_contain_def Let_def intro!: keeps_rules read_shard_ok lookup_keeps charged_fetch_ok split: option.split)
qed (auto intro: keeps_rules)

lemma reader_lookup_ok: "keeps (grows (\<lambda>st c. ok c st)) (reader_lookup E S rd key block)"
  by (auto simp: reader_lookup_def intro: keeps_rules lookup_runs_ok)

lemma account_in_ok: "keeps (grows (\<lambda>st c. ok c st)) (account_in E S rd a block)"
  by (auto simp: account_in_def intro!: keeps_rules reader_lookup_ok split: option.split)

lemma with_budget_ok: "keeps (grows (\<lambda>st c. ok c st)) m \<Longrightarrow> ok c st \<Longrightarrow> ok c (snd (with_budget m st))"
  using reading_ok_budget unfolding keeps_def with_budget_def le_fun_def le_bool_def by blast

lemma reads_ok:
  assumes "ok c st"
  shows "ok c (snd (reader_account E S rd a block st))" "ok c (snd (reader_storage E S rd a slot block st))"
    "ok c (snd (reader_code E S rd a block st))"
  unfolding reader_account_def reader_storage_def reader_code_def
  by (rule with_budget_ok [OF _ assms], auto intro!: keeps_rules reader_lookup_ok account_in_ok split: option.split)+

end

end
