(* ===== verification/Worker_Core.thy ===== *)
theory Worker_Core
  imports Tiered_Reader
begin

text \<open>
  \<^verbatim>\<open>worker/src/core.rs\<close>: the reader of the Worker, one request at a time, over an object store with
  the single operation \<^verbatim>\<open>get\<close>. Every request for an object is charged to the counters of the
  \<^verbatim>\<open>Reader\<close> before it is made. An \<^verbatim>\<open>ArchiveError\<close> is the error \<open>Archive\<close>; the state of a request is the
  store, the counters and the map of the decoded shards. The result of the theory is that the
  reader answers what the histories of the published head say, like the native reader.
\<close>

section \<open>Errors\<close>

text \<open>\<^verbatim>\<open>downcast\<close> looks through the contexts of an error; what is not an \<^verbatim>\<open>ArchiveError\<close> is an integrity failure.\<close>

primrec archive_of :: "error \<Rightarrow> archive_error" where
  "archive_of (Bail msg) = Integrity"
| "archive_of (Archive a) = a"
| "archive_of (Ctx msg e) = archive_of e"

definition to_archive :: "('s, 'a) act \<Rightarrow> ('s, 'a) act" where
  "to_archive m st = (case m st of (Inl e, st') \<Rightarrow> (Inl (Archive (archive_of e)), st') | (Inr x, st') \<Rightarrow> (Inr x, st'))"

definition archive_err :: "archive_error \<Rightarrow> ('s, 'a) act" where
  "archive_err a st = (Inl (Archive a), st)"

section \<open>The reader\<close>

definition MAX_REMOTE_GETS :: u64 where "MAX_REMOTE_GETS = 192"
definition MAX_REMOTE_BYTES :: u64 where "MAX_REMOTE_BYTES = 128 * 1024 * 1024"
definition MAX_OBJECT_BYTES :: nat where "MAX_OBJECT_BYTES = 1024 * 1024"
definition EMPTY_CODE_HASH :: hash32 where
  "EMPTY_CODE_HASH = 0xc5d2460186f7233c927e7db2dcc703c0e500b653ca82273b7bfad8045d85a470"

text \<open>The trait \<^verbatim>\<open>ObjectStore\<close>: a key and the largest size accepted.\<close>

type_synonym 's object_get = "string \<Rightarrow> nat \<Rightarrow> ('s, bytes) act"

record worker_account =
  wa_exists :: bool
  wa_incarnation :: u64
  wa_nonce :: u64
  wa_balance :: hash32
  wa_code_hash :: hash32

text \<open>What a \<^verbatim>\<open>Reader\<close> holds: what changes during a request, and what is fixed by \<^verbatim>\<open>load\<close>.\<close>

record 's request =
  rq_store :: 's
  rq_gets :: u64
  rq_fetched :: u64
  rq_shards :: "(string \<times> shard) list"

record worker_reader =
  wk_prefix :: string
  wk_head :: head
  wk_runs :: "(head_run \<times> run_reader) list"

definition request_new :: "'s \<Rightarrow> 's request" where
  "request_new s = \<lparr>rq_store = s, rq_gets = 0, rq_fetched = 0, rq_shards = []\<rparr>"

definition worker_get :: "'s object_get \<Rightarrow> string \<Rightarrow> nat \<Rightarrow> ('s request, bytes) act" where
  "worker_get get key maximum st =
     (let gets = rq_gets st + 1; fetched = rq_fetched st + word_of_nat maximum
      in if gets > MAX_REMOTE_GETS \<or> fetched > MAX_REMOTE_BYTES then archive_err Limit st
         else case get key maximum (rq_store st) of
           (r, s) \<Rightarrow> (r, st\<lparr>rq_gets := gets, rq_fetched := fetched, rq_store := s\<rparr>))"

definition worker_load :: "'x ext_head_scheme \<Rightarrow> 's object_get \<Rightarrow> string \<Rightarrow> u64 \<Rightarrow> 's \<Rightarrow> worker_reader result \<times> 's request" where
  "worker_load E get pre chain_id s =
     bind_a (worker_get get (pre @ head_key chain_id) MAX_HEAD) (\<lambda>bytes.
     bind_a (to_archive (lift_r (head_decode E bytes))) (\<lambda>head.
       if hd_chain_id head \<noteq> chain_id then archive_err Integrity
       else
         bind_a (to_archive (lift_r (map_r (\<lambda>run. bind_r (run_input E run) (\<lambda>(reference, root).
           bind_r (decode_root E reference root) (\<lambda>reader. Inr (run, reader)))) (head_runs head)))) (\<lambda>runs.
           ret \<lparr>wk_prefix = pre, wk_head = head, wk_runs = runs\<rparr>)))
     (request_new s)"

definition worker_published_number :: "worker_reader \<Rightarrow> u64" where
  "worker_published_number rd = hd_number (wk_head rd)"

definition worker_stats :: "'s request \<Rightarrow> u64 \<times> u64" where
  "worker_stats st = (rq_gets st, rq_fetched st)"

definition worker_object :: "'x ext_scheme \<Rightarrow> 's object_get \<Rightarrow> string \<Rightarrow> obj_ref \<Rightarrow> ('s request, bytes) act" where
  "worker_object E get pre reference =
     (let len = unat (ref_length reference)
      in if len = 0 \<or> len > MAX_OBJECT_BYTES then archive_err Integrity
         else
           bind_a (worker_get get (pre @ object_key E (ref_digest reference)) len) (\<lambda>bytes.
             if length bytes \<noteq> len \<or> sha256 E bytes \<noteq> ref_digest reference then archive_err Integrity
             else ret bytes))"

definition worker_shard ::
  "'x ext_scheme \<Rightarrow> 's object_get \<Rightarrow> string \<Rightarrow> head_run \<Rightarrow> shard_kind \<Rightarrow> u32 \<Rightarrow> ('s request, shard) act" where
  "worker_shard E get pre run kind index st =
     (let path = pre @ shard_path E (ref_digest (hr_root run)) (hr_shards run) kind index
      in case map_of (rq_shards st) path of
           Some sh \<Rightarrow> ret sh st
         | None \<Rightarrow>
             bind_a (worker_get get path MAX_SHARD_BYTES) (\<lambda>bytes.
             bind_a (to_archive (lift_r (shard_decode E (ref_digest (hr_root run)) kind index (hr_shards run) bytes))) (\<lambda>sh st.
               (Inr sh, st\<lparr>rq_shards := AList.update path sh (rq_shards st)\<rparr>))) st)"

definition worker_may_contain ::
  "'x ext_scheme \<Rightarrow> 's object_get \<Rightarrow> string \<Rightarrow> head_run \<Rightarrow> bytes \<Rightarrow> ('s request, bool) act" where
  "worker_may_contain E get pre run key =
     (let probe = probe_new E key (hr_shards run)
      in bind_a (worker_shard E get pre run Address (probe_address_index probe)) (\<lambda>address.
           if shard_contains E address key then ret True
           else if \<not> shard_contains E address (probe_marker probe) then ret False
           else bind_a (worker_shard E get pre run Spill (probe_spill_index probe)) (\<lambda>spill. ret (shard_contains E spill key))))"

fun worker_lookup_runs ::
  "'x ext_scheme \<Rightarrow> 's object_get \<Rightarrow> string \<Rightarrow> bytes \<Rightarrow> u64 \<Rightarrow> (head_run \<times> run_reader) list \<Rightarrow> ('s request, bytes option) act" where
  "worker_lookup_runs E get pre key block [] = ret None"
| "worker_lookup_runs E get pre key block ((run, reader) # runs) =
     (if hr_start run > block then worker_lookup_runs E get pre key block runs
      else
        bind_a (worker_may_contain E get pre run key) (\<lambda>maybe.
          if \<not> maybe then worker_lookup_runs E get pre key block runs
          else
            bind_a (to_archive (lookup E reader key (min block (hr_end run)) (worker_object E get pre))) (\<lambda>found.
              case found of None \<Rightarrow> worker_lookup_runs E get pre key block runs | Some _ \<Rightarrow> ret found)))"

definition worker_lookup ::
  "'x ext_scheme \<Rightarrow> 's object_get \<Rightarrow> worker_reader \<Rightarrow> bytes \<Rightarrow> u64 \<Rightarrow> ('s request, bytes option) act" where
  "worker_lookup E get rd key block = worker_lookup_runs E get (wk_prefix rd) key block (rev (wk_runs rd))"

definition worker_account_at ::
  "'x ext_scheme \<Rightarrow> 's object_get \<Rightarrow> worker_reader \<Rightarrow> address \<Rightarrow> u64 \<Rightarrow> ('s request, worker_account option) act" where
  "worker_account_at E get rd a block =
     bind_a (worker_lookup E get rd (account_key a) block) (\<lambda>found.
       case found of
         None \<Rightarrow> ret None
       | Some bytes \<Rightarrow>
           bind_a (to_archive (lift_r (account_decode bytes))) (\<lambda>state.
             let account = \<lparr>wa_exists = as_exists state, wa_incarnation = as_incarnation state, wa_nonce = as_nonce state,
               wa_balance = as_balance state, wa_code_hash = as_code_hash state\<rparr>
             in ret (if wa_exists account then Some account else None)))"

definition worker_storage_at ::
  "'x ext_scheme \<Rightarrow> 's object_get \<Rightarrow> worker_reader \<Rightarrow> address \<Rightarrow> hash32 \<Rightarrow> u64 \<Rightarrow> ('s request, hash32) act" where
  "worker_storage_at E get rd a slot block =
     bind_a (worker_account_at E get rd a block) (\<lambda>account.
       case account of
         None \<Rightarrow> ret 0
       | Some account \<Rightarrow>
           bind_a (worker_lookup E get rd (storage_key a (wa_incarnation account) slot) block) (\<lambda>found.
             case found of
               Some bytes \<Rightarrow> if length bytes = 32 then ret (of_be bytes) else archive_err Integrity
             | None \<Rightarrow> ret 0))"

definition worker_code_at ::
  "'x ext_scheme \<Rightarrow> 's object_get \<Rightarrow> worker_reader \<Rightarrow> address \<Rightarrow> u64 \<Rightarrow> ('s request, bytes) act" where
  "worker_code_at E get rd a block =
     bind_a (worker_account_at E get rd a block) (\<lambda>account.
       case account of
         None \<Rightarrow> ret []
       | Some account \<Rightarrow>
           if wa_code_hash account = EMPTY_CODE_HASH then ret []
           else
             bind_a (worker_lookup E get rd (code_key (wa_code_hash account)) block) (\<lambda>found.
               case found of
                 None \<Rightarrow> archive_err Integrity
               | Some bytes \<Rightarrow>
                   if length bytes > MAX_OBJECT_BYTES \<or> keccak256 E bytes \<noteq> wa_code_hash account then archive_err Integrity
                   else ret bytes))"

section \<open>Spending\<close>

text \<open>The counters of a request as a meter.\<close>

definition request_meter :: "'s request meter" where
  "request_meter = \<lparr>mt_gets = \<lambda>st. unat (rq_gets st), mt_bytes = \<lambda>st. unat (rq_fetched st),
     mt_max_gets = unat MAX_REMOTE_GETS, mt_max_bytes = unat MAX_REMOTE_BYTES\<rparr>"

lemma request_meter_simps [simp]:
  "mt_gets request_meter st = unat (rq_gets st)" "mt_bytes request_meter st = unat (rq_fetched st)"
  "mt_max_gets request_meter = unat MAX_REMOTE_GETS" "mt_max_bytes request_meter = unat MAX_REMOTE_BYTES"
  by (simp_all add: request_meter_def)

definition charge_request :: "nat \<Rightarrow> 's request \<Rightarrow> 's request" where
  "charge_request n st = st\<lparr>rq_gets := rq_gets st + 1, rq_fetched := rq_fetched st + word_of_nat n\<rparr>"

lemma charge_request_simps [simp]:
  "rq_store (charge_request n st) = rq_store st" "rq_shards (charge_request n st) = rq_shards st"
  "spent request_meter st 1 n (charge_request n st)"
  using unat_plus_le [of "rq_gets st" 1] unat_plus_le [of "rq_fetched st" n] by (simp_all add: charge_request_def spent_def)

lemma exhausted_request:
  "exhausted request_meter st \<longleftrightarrow> rq_gets st > MAX_REMOTE_GETS \<or> rq_fetched st > MAX_REMOTE_BYTES"
  by (simp add: exhausted_def word_less_nat_alt)

lemma worker_get_charge:
  "worker_get get key n st =
     (if exhausted request_meter (charge_request n st) then (Inl (Archive Limit), st)
      else case get key n (rq_store st) of (r, s) \<Rightarrow> (r, (charge_request n st)\<lparr>rq_store := s\<rparr>))"
  by (simp add: worker_get_def charge_request_def exhausted_request archive_err_def)

text \<open>The same reads with no limit; they stop counting once the counters are over it.\<close>

definition free_get :: "'s object_get \<Rightarrow> string \<Rightarrow> nat \<Rightarrow> ('s request, bytes) act" where
  "free_get get key n st =
     (let st = (if exhausted request_meter st then st else charge_request n st)
      in case get key n (rq_store st) of (r, s) \<Rightarrow> (r, st\<lparr>rq_store := s\<rparr>))"

definition checked_object :: "'x ext_scheme \<Rightarrow> (string \<Rightarrow> nat \<Rightarrow> ('st, bytes) act) \<Rightarrow> string \<Rightarrow> obj_ref \<Rightarrow> ('st, bytes) act" where
  "checked_object E get pre reference =
     (let len = unat (ref_length reference)
      in if len = 0 \<or> len > MAX_OBJECT_BYTES then archive_err Integrity
         else
           bind_a (get (pre @ object_key E (ref_digest reference)) len) (\<lambda>bytes.
             if length bytes \<noteq> len \<or> sha256 E bytes \<noteq> ref_digest reference then archive_err Integrity
             else ret bytes))"

lemma worker_object_checked: "worker_object E get pre = checked_object E (worker_get get) pre"
  by (simp add: worker_object_def checked_object_def fun_eq_iff)

lemma checked_object_state:
  "checked_object E get pre r st = (x, st') \<Longrightarrow>
     st' = st \<or> snd (get (pre @ object_key E (ref_digest r)) (unat (ref_length r)) st) = st'"
  by (auto simp: checked_object_def Let_def archive_err_def bind_a_def split: if_splits prod.splits sum.splits)

lemma free_get_exhausted: "exhausted request_meter st \<Longrightarrow> exhausted request_meter (snd (free_get get key n st))"
  by (auto simp: free_get_def Let_def exhausted_request split: prod.splits)

lemma get_spent:
  "spent request_meter st 1 n (snd (worker_get get key n st))" "spent request_meter st 1 n (snd (free_get get key n st))"
proof -
  have "spent request_meter st 1 n ((charge_request n st)\<lparr>rq_store := s\<rparr>)" "spent request_meter st 1 n (st\<lparr>rq_store := s\<rparr>)" for s
    using charge_request_simps(3) [of st n] by (simp_all add: spent_def)
  then show "spent request_meter st 1 n (snd (worker_get get key n st))" "spent request_meter st 1 n (snd (free_get get key n st))"
    by (auto simp: worker_get_charge free_get_def Let_def split: prod.splits)
qed

lemma objects_metered: "metered request_meter (worker_object E get pre)" "metered request_meter (checked_object E (free_get get) pre)"
proof -
  have *: "metered request_meter (checked_object E g pre)" if "\<And>key n st. spent request_meter st 1 n (snd (g key n st))" for g
    unfolding metered_def using that by (auto intro!: spendsI dest!: checked_object_state simp: spent_def)
  show "metered request_meter (worker_object E get pre)" "metered request_meter (checked_object E (free_get get) pre)"
    unfolding worker_object_checked by (rule *, rule get_spent)+
qed

lemma objects_agree: "agree (exhausted request_meter) (worker_object E get pre r) (checked_object E (free_get get) pre r)"
proof -
  have "worker_get get key n st = free_get get key n st" if "\<not> exhausted request_meter (snd (free_get get key n st))" for key n st
  proof -
    have "\<not> exhausted request_meter st" using that free_get_exhausted by blast
    moreover from this that have "\<not> exhausted request_meter (charge_request n st)"
      by (auto simp: free_get_def Let_def exhausted_request split: prod.splits)
    ultimately show ?thesis by (simp add: worker_get_charge free_get_def)
  qed
  then have "agree (exhausted request_meter) (worker_get get key n) (free_get get key n)" for key n by (simp add: agree_def)
  then show ?thesis
    unfolding worker_object_checked checked_object_def Let_def
    by (auto intro!: agree_bind agree_refl keepsI simp: archive_err_def simp del: le_bool_def split: if_splits)
qed

lemma free_object_exhausted: "keeps (grows (exhausted request_meter)) (checked_object E (free_get get) pre r)"
  by (rule keepsI) (use checked_object_state free_get_exhausted in fastforce)

section \<open>What the reader relies on\<close>

text \<open>
  An object store returns an object it holds when it is within the size accepted, or one of its
  own failures; a size is a \<^verbatim>\<open>usize\<close> of the 32-bit target of the Worker. What it holds is under the
  prefix of the archive.
\<close>

locale object_store =
  fixes get :: "'s object_get" and contents :: "'s \<Rightarrow> string \<Rightarrow> bytes option" and fails :: "archive_error \<Rightarrow> bool"
  assumes object_held: "contents s key = Some bs \<Longrightarrow> length bs \<le> n \<Longrightarrow> n < 2 ^ 32 \<Longrightarrow>
      outcome (\<lambda>e. fails (archive_of e)) (\<lambda>b s'. b = bs) (get key n s)"
    and object_contents: "get key n s = (r, s') \<Longrightarrow> contents s' = contents s"

definition beneath :: "string \<Rightarrow> (string \<Rightarrow> bytes option) \<Rightarrow> string \<Rightarrow> bytes option" where
  "beneath pre c key = c (pre @ key)"

definition shards_ok :: "string \<Rightarrow> (string \<Rightarrow> bytes option) \<Rightarrow> (string \<times> shard) list \<Rightarrow> bool" where
  "shards_ok pre c shards \<longleftrightarrow> (\<forall>(path, sh)\<in>set shards. \<exists>key bs. path = pre @ key \<and> c key = Some bs \<and> sh = shard_of bs)"

lemma shards_ok_update: "shards_ok pre c shards \<Longrightarrow> c key = Some bs \<Longrightarrow> shards_ok pre c (AList.update (pre @ key) (shard_of bs) shards)"
  by (induction shards) (auto simp: shards_ok_def)

lemma shards_ok_get: "shards_ok pre c shards \<Longrightarrow> map_of shards (pre @ key) = Some sh \<Longrightarrow> c key = Some bs \<Longrightarrow> sh = shard_of bs"
  unfolding shards_ok_def using map_of_SomeD [of shards "pre @ key" sh] by fastforce

lemma outcome_to_archive [simp]: "outcome F Q (to_archive m st) = outcome (\<lambda>e. F (Archive (archive_of e))) Q (m st)"
  by (auto simp: outcome_def to_archive_def split: prod.splits sum.splits)

lemma outcome_archive_err [simp]: "outcome F Q (archive_err a st) = F (Archive a)"
  by (simp add: archive_err_def)

text \<open>The errors of the store, seen through the conversions.\<close>

definition store_errs :: "(archive_error \<Rightarrow> bool) \<Rightarrow> error \<Rightarrow> bool" where
  "store_errs fails e = fails (archive_of e)"

lemma store_errs_simps [simp]:
  "store_errs fails (Ctx msg e) = store_errs fails e" "store_errs fails (Archive (archive_of e)) = store_errs fails e"
  by (simp_all add: store_errs_def)

lemma errs_to_archive: "errs M (store_errs fails) st g b (Archive (archive_of e)) = errs M (store_errs fails) st g b e"
  by (simp add: errs_def)

context object_store begin

definition reads :: "string \<Rightarrow> (string \<Rightarrow> bytes option) \<Rightarrow> 's request \<Rightarrow> bool" where
  "reads pre c st \<longleftrightarrow> beneath pre (contents (rq_store st)) = c \<and> shards_ok pre c (rq_shards st)"

lemma reads_charge [simp]: "reads pre c (charge_request n st) = reads pre c st"
  by (simp add: reads_def)

lemma get_reads:
  assumes "reads pre c st"
  shows "reads pre c (snd (worker_get get key n st))"
  using assms by (auto simp: worker_get_charge reads_def dest!: object_contents split: prod.splits)

lemma worker_get_correct:
  assumes "reads pre c st" "c key = Some bs" "length bs \<le> n" "n < 2 ^ 32"
  shows "outcome (errs request_meter (store_errs fails) st 1 n) (\<lambda>b st'. (b = bs \<and> reads pre c st') \<and> spent request_meter st 1 n st')
    (worker_get get (pre @ key) n st)"
proof (cases "exhausted request_meter (charge_request n st)")
  case True
  then have "\<not> room request_meter st 1 n" using room_exhausted [OF _ charge_request_simps(3)] by blast
  with True show ?thesis by (simp add: worker_get_charge errs_def)
next
  case False
  have "contents (rq_store st) (pre @ key) = Some bs" using assms(1,2) by (auto simp: reads_def beneath_def)
  from object_held [OF this assms(3,4)]
  have "outcome (store_errs fails) (\<lambda>b s'. b = bs) (get (pre @ key) n (rq_store st))" by (simp add: store_errs_def [abs_def])
  then show ?thesis
    using get_reads [OF assms(1), of "pre @ key" n] get_spent(1) [of st n get "pre @ key"] False
    by (auto simp: worker_get_charge outcome_def errs_def split: prod.splits sum.splits)
qed

lemma worker_shard_correct:
  assumes st: "reads pre c st" and stored: "c (shard_path E (ref_digest (hr_root run)) (hr_shards run) kind i) = Some bs"
      "shard_decode E (ref_digest (hr_root run)) kind i (hr_shards run) bs = Inr sh"
  shows "outcome (errs request_meter (store_errs fails) st 1 MAX_SHARD_BYTES)
    (\<lambda>sh' st'. (sh' = sh \<and> reads pre c st') \<and> spent request_meter st 1 MAX_SHARD_BYTES st')
    (worker_shard E get pre run kind i st)"
proof -
  let ?path = "shard_path E (ref_digest (hr_root run)) (hr_shards run) kind i"
  note sh = shard_decode_of [OF stored(2)]
  have "outcome (errs request_meter (store_errs fails) st 1 MAX_SHARD_BYTES)
      (\<lambda>b st'. (b = bs \<and> reads pre c st') \<and> spent request_meter st 1 MAX_SHARD_BYTES st') (worker_get get (pre @ ?path) MAX_SHARD_BYTES st)"
    using st stored(1) sh by (intro worker_get_correct) (simp_all add: MAX_SHARD_BYTES_def)
  then have *: "outcome (errs request_meter (store_errs fails) st 1 MAX_SHARD_BYTES)
      (\<lambda>sh' st'. (sh' = sh \<and> reads pre c st') \<and> spent request_meter st 1 MAX_SHARD_BYTES st')
      (bind_a (worker_get get (pre @ ?path) MAX_SHARD_BYTES) (\<lambda>bytes.
        bind_a (to_archive (lift_r (shard_decode E (ref_digest (hr_root run)) kind i (hr_shards run) bytes))) (\<lambda>sh st.
          (Inr sh, st\<lparr>rq_shards := AList.update (pre @ ?path) sh (rq_shards st)\<rparr>))) st)"
    unfolding outcome_bind
    by (rule outcome_mono) (use stored sh shards_ok_update in \<open>auto simp: lift_r_def reads_def spent_def\<close>)
  show ?thesis
  proof (cases "map_of (rq_shards st) (pre @ ?path)")
    case None
    with * show ?thesis by (simp add: worker_shard_def Let_def del: outcome_bind)
  next
    case (Some sh')
    then have "sh' = sh" using st stored(1) sh shards_ok_get by (auto simp: reads_def)
    with Some st show ?thesis by (simp add: worker_shard_def Let_def)
  qed
qed

lemma worker_may_contain_correct:
  assumes st: "reads pre c st" and stored: "shards_stored E c (ref_digest (hr_root run)) (hr_shards run)"
  shows "outcome (errs request_meter (store_errs fails) st 2 (2 * MAX_SHARD_BYTES))
    (\<lambda>maybe st'. ((answers E c (ref_digest (hr_root run)) (hr_shards run) key \<longrightarrow> maybe) \<and> reads pre c st') \<and>
       spent request_meter st 2 (2 * MAX_SHARD_BYTES) st')
    (worker_may_contain E get pre run key st)"
proof -
  have "worker_may_contain E get pre run key = probe_shards E (worker_shard E get pre run) run key"
    by (simp only: worker_may_contain_def probe_shards_def)
  with probe_shards_correct [of "reads pre c" c E run, OF worker_shard_correct st stored] show ?thesis by simp
qed

end

text \<open>Lookups in one run.\<close>

sublocale object_store \<subseteq> objects: metered_source "worker_object E get pre" "checked_object E (free_get get) pre"
  "\<lambda>st. stored E (beneath pre (contents (rq_store st)))" "store_errs fails" request_meter
  for E :: "'x ext_scheme" and pre :: string
proof
  fix st :: "'s request" and r bs
  assume held: "stored E (beneath pre (contents (rq_store st))) r bs"
  let ?key = "pre @ object_key E (ref_digest r)" and ?n = "unat (ref_length r)"
  have r: "contents (rq_store st) ?key = Some bs" "length bs = ?n" "sha256 E bs = ref_digest r" "0 < ?n" "?n \<le> MAX_OBJECT_BYTES"
    using held by (auto simp: stored_def store_holds_def fetchable_def beneath_def MAX_OBJECT_BYTES_def MAX_PAGE_BYTES_def unat_eq_zero)
  have n: "?n < 2 ^ 32" using r(5) by (simp add: MAX_OBJECT_BYTES_def)
  have get: "outcome (store_errs fails) (\<lambda>b s'. b = bs \<and> contents s' = contents (rq_store st)) (get ?key ?n (rq_store st))"
    using object_held [OF r(1) _ n] r(2) object_contents [of ?key ?n "rq_store st"]
    by (cases "get ?key ?n (rq_store st)") (auto simp: outcome_def store_errs_def split: sum.splits)
  let ?Q = "\<lambda>bs' st'. bs' = bs \<and> stored E (beneath pre (contents (rq_store st'))) = stored E (beneath pre (contents (rq_store st)))"
  have "outcome (\<lambda>_. True) ?Q (worker_get get ?key ?n st)" "outcome (store_errs fails) ?Q (free_get get ?key ?n st)"
    using get by (auto simp: worker_get_charge free_get_def Let_def outcome_def split: prod.splits sum.splits)
  moreover have "outcome F ?Q (checked_object E g pre r st)" if "outcome F ?Q (g ?key ?n st)" for F g
    using r that by (auto simp: checked_object_def Let_def elim!: outcome_mono)
  ultimately show "outcome (\<lambda>_. True) ?Q (worker_object E get pre r st)" "outcome (store_errs fails) ?Q (checked_object E (free_get get) pre r st)"
    unfolding worker_object_checked by blast+
qed (rule objects_agree free_object_exhausted objects_metered | simp)+

lemma worker_lookup_runs_search:
  "worker_lookup_runs E get pre key block runs =
     search_runs (\<lambda>run. worker_may_contain E get pre run key)
       (\<lambda>run rr. to_archive (lookup E rr key (min block (hr_end run)) (worker_object E get pre))) block runs"
proof (induction runs)
  case (Cons r runs)
  obtain run rr where "r = (run, rr)" by (rule prod.exhaust)
  then show ?case by (simp only: worker_lookup_runs.simps search_runs.simps Cons.IH)
qed simp

text \<open>A reader of a represented head.\<close>

definition worker_rep :: "'x ext_scheme \<Rightarrow> (string \<Rightarrow> bytes option) \<Rightarrow> worker_reader \<Rightarrow> head \<Rightarrow> (bytes \<Rightarrow> krecord list) \<Rightarrow> bool" where
  "worker_rep E c rd h hist \<longleftrightarrow> wk_head rd = h \<and> head_wf E h \<and>
     (\<exists>parts. hist = versions (concat parts) \<and> length parts = length (head_runs h) \<and>
        list_all2 (\<lambda>(run, rr) recs. hrun_rep E c run recs \<and> reader_rep E (stored E c) rr recs) (wk_runs rd) parts)"

context object_store begin

lemma worker_run_lookup_correct:
  assumes st: "reads pre c st" and rep: "reader_rep E (stored E c) rr recs" and key: "key \<noteq> []"
  shows "outcome (errs request_meter (store_errs fails) st 3 RUN_BYTES)
    (\<lambda>v st'. (v = version_at recs key block \<and> reads pre c st') \<and> spent request_meter st 3 RUN_BYTES st')
    (to_archive (lookup E rr key block (worker_object E get pre)) st)"
proof -
  obtain v st' where run: "lookup E rr key block (worker_object E get pre) st = (v, st')" by (rule prod.exhaust)
  have "keeps (grows (\<lambda>st x. x = (contents (rq_store st), rq_shards st))) (worker_object E get pre r)" for r
    by (rule keepsI)
      (auto simp: worker_object_checked worker_get_charge dest!: checked_object_state object_contents split: prod.splits)
  from keepsD [OF lookup_keeps [OF this] run] have "reads pre c st'" using st by (auto simp: reads_def le_fun_def)
  moreover have "beneath pre (contents (rq_store st)) = c" using st by (simp add: reads_def)
  ultimately show ?thesis
    using objects.charged_lookup [of E E pre st rr recs key block] rep key unfolding outcome_to_archive run errs_to_archive
    by (cases v) simp_all
qed

lemma worker_lookup_correct:
  assumes rep: "worker_rep E c rd h hist" and st: "reads (wk_prefix rd) c st" and key: "key \<noteq> []"
  shows "outcome (errs request_meter (store_errs fails) st (length (head_runs h) * 5) (length (head_runs h) * HEAD_RUN_BYTES))
    (\<lambda>v st'. (v = state_at hist key block \<and> reads (wk_prefix rd) c st') \<and>
       spent request_meter st (length (head_runs h) * 5) (length (head_runs h) * HEAD_RUN_BYTES) st')
    (worker_lookup E get rd key block st)"
proof -
  from rep obtain parts where parts: "hist = versions (concat parts)" "length parts = length (head_runs h)"
    and runs: "list_all2 (\<lambda>(run, rr) recs. hrun_rep E c run recs \<and> reader_rep E (stored E c) rr recs) (wk_runs rd) parts"
    by (auto simp: worker_rep_def)
  have len: "length (rev (wk_runs rd)) = length (head_runs h)" using list_all2_lengthD [OF runs] parts(2) by simp
  have "list_all2 (\<lambda>(run, rr) recs. hrun_rep E c run recs \<and> reader_rep E (stored E c) rr recs) (rev (wk_runs rd)) (rev parts)"
    using runs by simp
  from search_runs_correct [where ok = "reads (wk_prefix rd) c", OF this st worker_may_contain_correct worker_run_lookup_correct [OF _ _ key]]
  have "outcome (errs request_meter (store_errs fails) st (length (rev (wk_runs rd)) * 5) (length (rev (wk_runs rd)) * HEAD_RUN_BYTES))
    (\<lambda>v st'. (v = state_at (versions (concat (rev (rev parts)))) key block \<and> reads (wk_prefix rd) c st') \<and>
       spent request_meter st (length (rev (wk_runs rd)) * 5) (length (rev (wk_runs rd)) * HEAD_RUN_BYTES) st')
    (search_runs (\<lambda>run. worker_may_contain E get (wk_prefix rd) run key)
       (\<lambda>run rr. to_archive (lookup E rr key (min block (hr_end run)) (worker_object E get (wk_prefix rd)))) block (rev (wk_runs rd)) st)" .
  then show ?thesis unfolding len rev_rev_ident parts(1) worker_lookup_def worker_lookup_runs_search .
qed

end

section \<open>Accounts, storage and code\<close>

definition worker_account_of :: "account_event \<Rightarrow> worker_account" where
  "worker_account_of e = \<lparr>wa_exists = ae_exists e, wa_incarnation = ae_incarnation e, wa_nonce = ae_nonce e,
     wa_balance = ae_balance e, wa_code_hash = ae_code_hash e\<rparr>"

lemma account_decode_integrity: "account_decode v = Inl e \<Longrightarrow> archive_of e = Integrity"
  by (auto simp: account_decode_def Let_def bail_def split: if_splits)

text \<open>Room for \<open>n\<close> lookups of a run after the head was read.\<close>

lemma room_request:
  assumes "spent request_meter (request_new s) 1 MAX_HEAD st" "n \<le> 31"
  shows "room request_meter st (n * 5) (n * HEAD_RUN_BYTES)"
  using assms by (simp add: room_def spent_def request_new_def HEAD_RUN_BYTES_def RUN_BYTES_def MAX_SHARD_BYTES_def MAX_INDEX_BYTES_def
      MAX_PAGE_BYTES_def MAX_REMOTE_GETS_def MAX_REMOTE_BYTES_def MAX_HEAD_def)

context object_store begin

abbreviation runs_of :: "head \<Rightarrow> nat" where
  "runs_of h \<equiv> length (head_runs h)"

text \<open>What a read made of the state, with its costs.\<close>

definition answered ::
  "('a \<Rightarrow> bool) \<Rightarrow> (error \<Rightarrow> bool) \<Rightarrow> string \<Rightarrow> (string \<Rightarrow> bytes option) \<Rightarrow> nat \<Rightarrow> 's request \<Rightarrow> 'a result \<times> 's request \<Rightarrow> bool" where
  "answered Q F pre c n st r \<longleftrightarrow>
     outcome (errs request_meter F st (n * 5) (n * HEAD_RUN_BYTES))
       (\<lambda>x st'. (Q x \<and> reads pre c st') \<and> spent request_meter st (n * 5) (n * HEAD_RUN_BYTES) st') r"

lemma answered_bind:
  assumes "answered P F pre c n st (m st)" "\<And>x st'. P x \<Longrightarrow> reads pre c st' \<Longrightarrow> answered Q F pre c k st' (f x st')"
  shows "answered Q F pre c (n + k) st (bind_a m f st)"
proof -
  have "outcome (errs request_meter F st (n * 5 + k * 5) (n * HEAD_RUN_BYTES + k * HEAD_RUN_BYTES))
      (\<lambda>x st'. (Q x \<and> reads pre c st') \<and> spent request_meter st (n * 5 + k * 5) (n * HEAD_RUN_BYTES + k * HEAD_RUN_BYTES) st') (bind_a m f st)"
    by (rule spending_bind [where m = m and P = "\<lambda>x st'. P x \<and> reads pre c st'"]) (use assms in \<open>simp_all add: answered_def\<close>)
  then show ?thesis by (simp only: answered_def add_mult_distrib)
qed

lemma answered_pure: "Q x \<Longrightarrow> reads pre c st \<Longrightarrow> answered Q F pre c n st (ret x st)"
  by (simp add: answered_def)

lemma answered_err: "F (Archive a) \<Longrightarrow> answered Q F pre c n st (archive_err a st)"
  by (simp add: answered_def errs_def)

lemma answered_lookup:
  assumes "worker_rep E c rd h hist" "reads (wk_prefix rd) c st" "key \<noteq> []" "\<And>e. store_errs fails e \<Longrightarrow> F e"
  shows "answered (\<lambda>v. v = state_at hist key block) F (wk_prefix rd) c (runs_of h) st (worker_lookup E get rd key block st)"
  unfolding answered_def
  by (rule outcome_mono [OF worker_lookup_correct [OF assms(1-3), of block]]) (auto intro: errs_weaken [OF _ assms(4)])

lemma answered_account:
  assumes rep: "worker_rep E c rd h hist" and st: "reads (wk_prefix rd) c st"
    and F: "\<And>e. store_errs fails e \<Longrightarrow> F e" "\<And>e. live_account hist a block = Inl e \<Longrightarrow> F (Archive Integrity)"
  shows "answered (\<lambda>x. \<exists>y. live_account hist a block = Inr y \<and> x = map_option worker_account_of y) F (wk_prefix rd) c (runs_of h) st
    (worker_account_at E get rd a block st)"
proof -
  have "answered (\<lambda>v. v = state_at hist (account_key a) block) F (wk_prefix rd) c (runs_of h) st (worker_lookup E get rd (account_key a) block st)"
    using rep st _ F(1) by (rule answered_lookup) (simp add: account_key_def)
  then have "answered (\<lambda>x. \<exists>y. live_account hist a block = Inr y \<and> x = map_option worker_account_of y) F (wk_prefix rd) c (runs_of h + 0) st
    (worker_account_at E get rd a block st)"
    unfolding worker_account_at_def
  proof (rule answered_bind)
    fix v st' assume v: "v = state_at hist (account_key a) block" and st': "reads (wk_prefix rd) c st'"
    note spec = live_account_def account_at_def v [symmetric]
    show "answered (\<lambda>x. \<exists>y. live_account hist a block = Inr y \<and> x = map_option worker_account_of y) F (wk_prefix rd) c 0 st'
        ((case v of None \<Rightarrow> ret None | Some bytes \<Rightarrow> bind_a (to_archive (lift_r (account_decode bytes))) (\<lambda>state.
             let account = \<lparr>wa_exists = as_exists state, wa_incarnation = as_incarnation state, wa_nonce = as_nonce state,
               wa_balance = as_balance state, wa_code_hash = as_code_hash state\<rparr>
             in ret (if wa_exists account then Some account else None))) st')"
    proof (cases v)
      case None
      then show ?thesis using st' by (simp add: spec answered_def)
    next
      case (Some bs)
      show ?thesis
      proof (cases "account_decode bs")
        case (Inl e)
        then have "F (Archive Integrity)" using F(2) Some by (simp add: spec)
        with Some Inl account_decode_integrity [OF Inl] show ?thesis by (simp add: answered_def errs_def)
      next
        case (Inr state)
        with Some st' show ?thesis by (simp add: answered_def spec worker_account_of_def Let_def)
      qed
    qed
  qed
  then show ?thesis by simp
qed

end

context object_store begin

text \<open>The store's errors, or an integrity error where the histories have one.\<close>

definition read_errs :: "'a result \<Rightarrow> error \<Rightarrow> bool" where
  "read_errs spec e \<longleftrightarrow> store_errs fails e \<or> (\<exists>e'. spec = Inl e') \<and> e = Archive Integrity"

lemma read_errs_store: "store_errs fails e \<Longrightarrow> read_errs spec e"
  by (simp add: read_errs_def)

lemma answered_account_then:
  assumes "worker_rep E c rd h hist" "reads (wk_prefix rd) c st" "\<And>e. live_account hist a block = Inl e \<Longrightarrow> \<exists>e'. spec = Inl e'"
    and "\<And>y st'. live_account hist a block = Inr y \<Longrightarrow> reads (wk_prefix rd) c st' \<Longrightarrow>
      answered Q (read_errs spec) (wk_prefix rd) c (runs_of h) st' (f (map_option worker_account_of y) st')"
  shows "answered Q (read_errs spec) (wk_prefix rd) c (runs_of h + runs_of h) st (bind_a (worker_account_at E get rd a block) f st)"
proof (rule answered_bind)
  show "answered (\<lambda>x. \<exists>y. live_account hist a block = Inr y \<and> x = map_option worker_account_of y) (read_errs spec) (wk_prefix rd) c (runs_of h) st
      (worker_account_at E get rd a block st)"
    using assms(1,2) by (rule answered_account) (use assms(3) in \<open>auto simp: read_errs_def\<close>)
qed (use assms(4) in blast)

lemma answered_second:
  assumes "worker_rep E c rd h hist" "reads (wk_prefix rd) c st" "key \<noteq> []"
    and "\<And>st'. reads (wk_prefix rd) c st' \<Longrightarrow> answered Q (read_errs spec) (wk_prefix rd) c 0 st' (f (state_at hist key block) st')"
  shows "answered Q (read_errs spec) (wk_prefix rd) c (runs_of h) st (bind_a (worker_lookup E get rd key block) f st)"
proof -
  have "answered (\<lambda>v. v = state_at hist key block) (read_errs spec) (wk_prefix rd) c (runs_of h) st (worker_lookup E get rd key block st)"
    using assms(1-3) by (rule answered_lookup) (rule read_errs_store)
  then have "answered Q (read_errs spec) (wk_prefix rd) c (runs_of h + 0) st (bind_a (worker_lookup E get rd key block) f st)"
    by (rule answered_bind) (use assms(4) in simp)
  then show ?thesis by simp
qed

lemma answered_storage:
  assumes "worker_rep E c rd h hist" "reads (wk_prefix rd) c st"
  shows "answered (\<lambda>x. storage_at hist a slot block = Inr x) (read_errs (storage_at hist a slot block)) (wk_prefix rd) c (runs_of h + runs_of h) st
    (worker_storage_at E get rd a slot block st)"
  unfolding worker_storage_at_def
proof (rule answered_account_then [OF assms])
  let ?spec = "storage_at hist a slot block"
  show "live_account hist a block = Inl e \<Longrightarrow> \<exists>e'. ?spec = Inl e'" for e by (simp add: storage_at_def)
  fix y st' assume y: "live_account hist a block = Inr y" and st': "reads (wk_prefix rd) c st'"
  show "answered (\<lambda>x. ?spec = Inr x) (read_errs ?spec) (wk_prefix rd) c (runs_of h) st'
      ((case map_option worker_account_of y of None \<Rightarrow> ret 0 | Some account \<Rightarrow>
         bind_a (worker_lookup E get rd (storage_key a (wa_incarnation account) slot) block) (\<lambda>found.
           case found of Some bytes \<Rightarrow> if length bytes = 32 then ret (of_be bytes) else archive_err Integrity | None \<Rightarrow> ret 0)) st')"
  proof (cases y)
    case None
    with y st' show ?thesis by (simp add: answered_def storage_at_def)
  next
    case (Some e)
    have "answered (\<lambda>x. ?spec = Inr x) (read_errs ?spec) (wk_prefix rd) c (runs_of h) st'
      (bind_a (worker_lookup E get rd (storage_key a (ae_incarnation e) slot) block) (\<lambda>found.
           case found of Some bytes \<Rightarrow> if length bytes = 32 then ret (of_be bytes) else archive_err Integrity | None \<Rightarrow> ret 0) st')"
      by (rule answered_second [OF assms(1) st'])
        (use y Some in \<open>auto simp: storage_key_def [of _ _ slot] answered_def storage_at_def read_errs_def errs_def bail_def split: option.split\<close>)
    with Some show ?thesis by (simp add: worker_account_of_def)
  qed
qed

lemma answered_code:
  assumes "worker_rep E c rd h hist" "reads (wk_prefix rd) c st" and empty: "keccak256 E [] = EMPTY_CODE_HASH"
  shows "answered (\<lambda>x. code_at E hist a block = Inr x) (read_errs (code_at E hist a block)) (wk_prefix rd) c (runs_of h + runs_of h) st
    (worker_code_at E get rd a block st)"
  unfolding worker_code_at_def
proof (rule answered_account_then [OF assms(1,2)])
  let ?spec = "code_at E hist a block"
  let ?blob = "\<lambda>hash found. case found of None \<Rightarrow> archive_err Integrity | Some bytes \<Rightarrow>
      if length bytes > MAX_OBJECT_BYTES \<or> keccak256 E bytes \<noteq> hash then archive_err Integrity else ret bytes"
  show "live_account hist a block = Inl e \<Longrightarrow> \<exists>e'. ?spec = Inl e'" for e by (simp add: code_at_def)
  fix y st' assume y: "live_account hist a block = Inr y" and st': "reads (wk_prefix rd) c st'"
  show "answered (\<lambda>x. ?spec = Inr x) (read_errs ?spec) (wk_prefix rd) c (runs_of h) st'
      ((case map_option worker_account_of y of None \<Rightarrow> ret [] | Some account \<Rightarrow>
         if wa_code_hash account = EMPTY_CODE_HASH then ret []
         else bind_a (worker_lookup E get rd (code_key (wa_code_hash account)) block) (?blob (wa_code_hash account))) st')"
  proof (cases "\<exists>e. y = Some e \<and> ae_code_hash e \<noteq> EMPTY_CODE_HASH")
    case False
    with y st' empty show ?thesis by (cases y) (simp_all add: answered_def code_at_def worker_account_of_def)
  next
    case True
    then obtain e where e: "y = Some e" "ae_code_hash e \<noteq> EMPTY_CODE_HASH" by blast
    have "answered (\<lambda>x. ?spec = Inr x) (read_errs ?spec) (wk_prefix rd) c (runs_of h) st'
        (bind_a (worker_lookup E get rd (code_key (ae_code_hash e)) block) (?blob (ae_code_hash e)) st')"
      by (rule answered_second [OF assms(1) st'])
        (use y e empty in \<open>auto simp: code_key_def answered_def code_at_def read_errs_def errs_def bail_def MAX_CODE_def MAX_OBJECT_BYTES_def split: option.split\<close>)
    with e show ?thesis by (simp add: worker_account_of_def)
  qed
qed

text \<open>Loading a reader.\<close>

lemma worker_load_correct:
  assumes rep: "archive_rep E c chain_id (Some (h, hist))" and nz: "nonzero (store_holds E c)" and c: "beneath pre (contents s) = c"
  shows "outcome (store_errs fails) (\<lambda>rd st. wk_prefix rd = pre \<and> worker_rep E c rd h hist \<and> reads pre c st \<and>
      spent request_meter (request_new s) 1 MAX_HEAD st) (worker_load E get pre chain_id s)"
proof -
  from rep obtain bs where bs: "c (head_key chain_id) = Some bs" "length bs \<le> MAX_HEAD" "head_decode E bs = Inr h" "hd_chain_id h = chain_id"
    and head: "head_rep E c h hist" by (auto simp: archive_rep_def head_rep_def head_decode_iff)
  from head obtain parts where parts: "list_all2 (hrun_rep E c) (head_runs h) parts" "hist = versions (concat parts)" and wf: "head_wf E h"
    by (auto simp: head_rep_def)
  let ?open = "\<lambda>run. bind_r (run_input E run) (\<lambda>(reference, bytes). bind_r (decode_root E reference bytes) (\<lambda>reader. Inr (run, reader)))"
  obtain runs where runs: "map_r ?open (head_runs h) = Inr runs"
    "list_all2 (\<lambda>(run, rr) recs. hrun_rep E c run recs \<and> reader_rep E (stored E c) rr recs) runs parts"
    using opened_runs [OF parts(1) nz] by blast
  have "reads pre c (request_new s)" using c by (simp add: reads_def request_new_def shards_ok_def)
  from worker_get_correct [OF this bs(1,2)]
  have "outcome (errs request_meter (store_errs fails) (request_new s) 1 MAX_HEAD)
      (\<lambda>b st'. (b = bs \<and> reads pre c st') \<and> spent request_meter (request_new s) 1 MAX_HEAD st') (worker_get get (pre @ head_key chain_id) MAX_HEAD (request_new s))"
    by (simp add: MAX_HEAD_def)
  moreover have "room request_meter (request_new s) 1 MAX_HEAD"
    by (simp add: room_def request_new_def MAX_HEAD_def MAX_REMOTE_GETS_def MAX_REMOTE_BYTES_def)
  ultimately have "outcome (store_errs fails) (\<lambda>b st'. b = bs \<and> reads pre c st' \<and> spent request_meter (request_new s) 1 MAX_HEAD st')
      (worker_get get (pre @ head_key chain_id) MAX_HEAD (request_new s))"
    by (auto simp: errs_def elim!: outcome_mono)
  moreover have "length parts = length (head_runs h)" using parts(1) by (simp add: list_all2_lengthD)
  ultimately show ?thesis
    unfolding worker_load_def outcome_bind [of _ _ "worker_get get (pre @ head_key chain_id) MAX_HEAD"]
    by (elim outcome_mono) (use bs(3,4) runs parts(2) wf in \<open>auto simp: worker_rep_def lift_r_def\<close>)
qed

text \<open>Reads of a loaded reader that fit the limits: \<open>n\<close> lookups through all the runs, at most 31 runs altogether.\<close>

lemma answered_within:
  assumes "answered Q F pre c n st r" "spent request_meter (request_new s) 1 MAX_HEAD st"
  shows "outcome (\<lambda>e. n \<le> 31 \<longrightarrow> F e) (\<lambda>x st'. Q x) r"
  using assms(1) room_request [OF assms(2), of n] unfolding answered_def by (auto simp: errs_def elim!: outcome_mono)

end

end
