(* ===== verification/Rpc.thy ===== *)
theory Rpc
  imports Tiered_Reader
begin

text \<open>
  \<^verbatim>\<open>src/rpc.rs\<close>: the JSON-RPC server over a pinned reader. The trait \<^verbatim>\<open>RpcBackend\<close> is a record of
  operations on the state of the backend, with \<^verbatim>\<open>tiered::Reader\<close> as the instance the server uses. A
  JSON value is \<^verbatim>\<open>serde_json::Value\<close>; the conversion to a \<^verbatim>\<open>Request\<close> that \<^verbatim>\<open>serde\<close> generates is the parameter
  \<open>request_from_json\<close>. The entries of a batch are answered one after another: \<^verbatim>\<open>buffered\<close> runs up to
  eight of them at once and yields the answers in order. The result is a refinement: over a reader
  of an archive the server answers every request as it would over the histories themselves.
\<close>

section \<open>Values and requests\<close>

datatype jnumber = PosInt u64 | NegInt int | Float "64 word"

datatype json =
    JNull
  | JBool bool
  | JNumber jnumber
  | JString string
  | JArray "json list"
  | JObject "(string \<times> json) list"

fun as_str :: "json \<Rightarrow> string option" where
  "as_str (JString s) = Some s"
| "as_str _ = None"

fun as_array :: "json \<Rightarrow> json list option" where
  "as_array (JArray xs) = Some xs"
| "as_array _ = None"

fun as_bool :: "json \<Rightarrow> bool option" where
  "as_bool (JBool b) = Some b"
| "as_bool _ = None"

record rpc_request =
  req_jsonrpc :: "string option"
  req_id :: json
  req_method :: string
  req_params :: json

record ext_rpc = ext_cache +
  request_from_json :: "json \<Rightarrow> rpc_request result"

section \<open>Backends\<close>

record 's rpc_backend =
  be_chain_id :: u64
  be_generation :: u64
  be_anchor_number :: u64
  be_published_number :: u64
  be_publication_digest :: hash32
  be_finalized :: bool
  be_supports_block_hash_selector :: bool
  be_metrics :: string
  be_account_at :: "address \<Rightarrow> u64 \<Rightarrow> ('s, account_event option) act"
  be_storage_at :: "address \<Rightarrow> hash32 \<Rightarrow> u64 \<Rightarrow> ('s, hash32) act"
  be_code_at :: "address \<Rightarrow> u64 \<Rightarrow> ('s, bytes) act"
  be_block_number_by_hash :: "hash32 \<Rightarrow> ('s, u64 option) act"

definition tiered_backend :: "'x ext_cache_scheme \<Rightarrow> 's archive_store \<Rightarrow> pinned \<Rightarrow> 's reading rpc_backend" where
  "tiered_backend E S rd =
     \<lparr>be_chain_id = reader_chain_id rd,
      be_generation = latest_block rd,
      be_anchor_number = 0,
      be_published_number = latest_block rd,
      be_publication_digest = pn_head_digest rd,
      be_finalized = True,
      be_supports_block_hash_selector = False,
      be_metrics = ''fossil_published_block '' @ decimal (unat (latest_block rd)) @ [CHR 0x0A] @
        ''fossil_runs '' @ decimal (run_count rd) @ [CHR 0x0A],
      be_account_at = reader_account E S rd,
      be_storage_at = reader_storage E S rd,
      be_code_at = reader_code E S rd,
      be_block_number_by_hash = (\<lambda>_. ret None)\<rparr>"

text \<open>
  A refresh of \<^verbatim>\<open>serve_tiered\<close>: the head that was opened is adopted unless it would roll back, or is
  the head that is being served. A head that does not open is rejected.
\<close>

definition refresh :: "'x ext_head_scheme \<Rightarrow> 's archive_store \<Rightarrow> u64 \<Rightarrow> pinned \<Rightarrow> 's \<Rightarrow> pinned \<times> 's" where
  "refresh E S chain_id current s =
     (case reader_open E S chain_id s of
        (Inr candidate, s') \<Rightarrow>
          (if latest_block candidate < latest_block current then current
           else if pn_head_digest candidate \<noteq> pn_head_digest current then candidate
           else current, s')
      | (Inl _, s') \<Rightarrow> (current, s'))"

section \<open>Errors\<close>

text \<open>
  \<^verbatim>\<open>Display\<close> of an error is its outermost message. An \<^verbatim>\<open>ArchiveError\<close> belongs to the crate of the Worker,
  which this server does not use.
\<close>

fun error_string :: "error \<Rightarrow> string" where
  "error_string (Bail msg) = msg"
| "error_string (Ctx msg e) = msg"
| "error_string (Archive a) = ''''"

fun str_contains :: "string \<Rightarrow> string \<Rightarrow> bool" where
  "str_contains s pat \<longleftrightarrow> prefix pat s \<or> (case s of [] \<Rightarrow> False | _ # t \<Rightarrow> str_contains t pat)"

declare str_contains.simps [simp del]

record rpc_error =
  re_code :: int
  re_message :: string

definition rpc_invalid :: "string \<Rightarrow> rpc_error" where
  "rpc_invalid msg = \<lparr>re_code = -32602, re_message = msg\<rparr>"

definition rpc_selector :: "error \<Rightarrow> rpc_error" where
  "rpc_selector e =
     (let message = error_string e
      in \<lparr>re_code = (if str_contains message ''block unavailable'' then -32001 else -32602), re_message = message\<rparr>)"

definition rpc_state :: "error \<Rightarrow> rpc_error" where
  "rpc_state e =
     (let message = error_string e
      in \<lparr>re_code = (if str_contains message ''block unavailable'' then -32001 else -32603), re_message = message\<rparr>)"

text \<open>Results with such an error, and the two conversions \<^verbatim>\<open>map_err\<close> and \<^verbatim>\<open>?\<close>.\<close>

type_synonym ('s, 'a) rpc_act = "'s \<Rightarrow> (rpc_error + 'a) \<times> 's"

definition map_err_a :: "(error \<Rightarrow> rpc_error) \<Rightarrow> ('s, 'a) act \<Rightarrow> ('s, 'a) rpc_act" where
  "map_err_a f m s = (case m s of (Inl e, s') \<Rightarrow> (Inl (f e), s') | (Inr x, s') \<Rightarrow> (Inr x, s'))"

definition rpc_bind :: "('s, 'a) rpc_act \<Rightarrow> ('a \<Rightarrow> ('s, 'b) rpc_act) \<Rightarrow> ('s, 'b) rpc_act" where
  "rpc_bind m f s = (case m s of (Inl e, s') \<Rightarrow> (Inl e, s') | (Inr x, s') \<Rightarrow> f x s')"

definition rpc_lift :: "rpc_error + 'a \<Rightarrow> ('s, 'a) rpc_act" where
  "rpc_lift r s = (r, s)"

definition rpc_err :: "(error \<Rightarrow> rpc_error) \<Rightarrow> 'a result \<Rightarrow> rpc_error + 'a" where
  "rpc_err f r = (case r of Inl e \<Rightarrow> Inl (f e) | Inr x \<Rightarrow> Inr x)"

section \<open>Parameters\<close>

definition rpc_params :: "json \<Rightarrow> nat \<Rightarrow> rpc_error + json list" where
  "rpc_params v expected =
     (case as_array v of
        None \<Rightarrow> Inl (rpc_invalid ''params must be an array'')
      | Some values \<Rightarrow>
          if length values \<noteq> expected then Inl (rpc_invalid (''expected '' @ decimal expected @ '' parameters''))
          else Inr values)"

definition rpc_parse_address :: "'x ext_scheme \<Rightarrow> json \<Rightarrow> rpc_error + address" where
  "rpc_parse_address E v =
     (case as_str v of
        None \<Rightarrow> Inl (rpc_invalid ''address must be a string'')
      | Some s \<Rightarrow> rpc_err (\<lambda>e. rpc_invalid (error_string e)) (address_parse E s))"

definition rpc_parse_slot :: "'x ext_scheme \<Rightarrow> json \<Rightarrow> rpc_error + hash32" where
  "rpc_parse_slot E v =
     (case as_str v of
        None \<Rightarrow> Inl (rpc_invalid ''slot must be a string'')
      | Some s \<Rightarrow>
          if length s = 66 then rpc_err (\<lambda>e. rpc_invalid (error_string e)) (hash32_parse E s)
          else
            case strip_prefix ''0x'' s of
              None \<Rightarrow> Inl (rpc_invalid ''slot must be hex'')
            | Some digits \<Rightarrow>
                if digits = [] \<or> length digits > 64 then Inl (rpc_invalid ''invalid slot'')
                else
                  rpc_err (\<lambda>e. rpc_invalid (error_string e))
                    (hash32_parse E (''0x'' @ replicate (64 - length digits) CHR ''0'' @ digits)))"

text \<open>\<^verbatim>\<open>resolve_selector\<close>: the match on an object ends in a number, or in a block looked up by its hash.\<close>

definition select_number :: "'s rpc_backend \<Rightarrow> json \<Rightarrow> u64 result" where
  "select_number B selector =
     bind_r (case selector of
         JString tag \<Rightarrow>
           if tag = ''latest'' then Inr (be_published_number B)
           else if tag = ''safe'' \<or> tag = ''finalized'' then
             (if \<not> be_finalized B then bail ''block unavailable: fixed-offset publication is not safe or finalized''
              else Inr (be_published_number B))
           else if tag = ''earliest'' then (if be_anchor_number B = 0 then Inr 0 else bail ''block unavailable'')
           else if tag = ''pending'' then bail ''pending is unsupported''
           else parse_quantity tag
       | _ \<Rightarrow> bail ''invalid block selector'') (\<lambda>number.
       if number < be_anchor_number B \<or> number > be_published_number B then bail ''block unavailable''
       else Inr number)"

definition resolve_selector :: "'x ext_scheme \<Rightarrow> 's rpc_backend \<Rightarrow> json \<Rightarrow> ('s, u64) act" where
  "resolve_selector E B selector =
     (case selector of
        JObject obj \<Rightarrow>
          (case map_of obj ''blockNumber'' of
             Some number \<Rightarrow>
               if map_of obj ''blockHash'' \<noteq> None then bail_a ''selector cannot contain blockNumber and blockHash''
               else lift_r (select_number B number)
           | None \<Rightarrow>
               if \<not> be_supports_block_hash_selector B
               then bail_a ''block-hash selectors are unsupported until a bounded durable hash index exists''
               else
                 bind_a (lift_r (ok_or ''invalid EIP-1898 selector'' (Option.bind (map_of obj ''blockHash'') as_str))) (\<lambda>text.
                 bind_a (lift_r (hash32_parse E text)) (\<lambda>hash.
                 bind_a (lift_r (case map_of obj ''requireCanonical'' of
                     None \<Rightarrow> Inr None
                   | Some v \<Rightarrow> bind_r (ok_or ''requireCanonical must be boolean'' (as_bool v)) (\<lambda>b. Inr (Some b)))) (\<lambda>_.
                 bind_a (be_block_number_by_hash B hash) (\<lambda>found.
                   lift_r (ok_or ''block unavailable'' found))))))
      | _ \<Rightarrow> lift_r (select_number B selector))"

section \<open>Answers\<close>

definition CARGO_PKG_VERSION :: string where
  "CARGO_PKG_VERSION = ''0.1.0''"

definition dispatch :: "'x ext_scheme \<Rightarrow> 's rpc_backend \<Rightarrow> rpc_request \<Rightarrow> ('s, json) rpc_act" where
  "dispatch E B request =
     (let method = req_method request
      in if method = ''web3_clientVersion'' then rpc_lift (Inr (JString (''fossil/'' @ CARGO_PKG_VERSION)))
         else if method = ''eth_chainId'' then rpc_lift (Inr (JString (quantity (be_chain_id B))))
         else if method = ''eth_blockNumber'' then rpc_lift (Inr (JString (quantity (be_published_number B))))
         else if method = ''eth_getBalance'' \<or> method = ''eth_getTransactionCount'' \<or> method = ''eth_getCode'' then
           rpc_bind (rpc_lift (rpc_params (req_params request) 2)) (\<lambda>params.
           rpc_bind (rpc_lift (rpc_parse_address E (params ! 0))) (\<lambda>address.
           rpc_bind (map_err_a rpc_selector (resolve_selector E B (params ! 1))) (\<lambda>block.
           rpc_bind (map_err_a rpc_state (be_account_at B address block)) (\<lambda>account.
             if method = ''eth_getBalance'' then
               rpc_lift (Inr (JString (case account of Some a \<Rightarrow> quantity_u256 E (ae_balance a) | None \<Rightarrow> ''0x0'')))
             else if method = ''eth_getTransactionCount'' then
               rpc_lift (Inr (JString (case account of Some a \<Rightarrow> quantity (ae_nonce a) | None \<Rightarrow> ''0x0'')))
             else
               rpc_bind (map_err_a rpc_state (be_code_at B address block)) (\<lambda>bytes.
                 rpc_lift (Inr (JString (''0x'' @ hex_encode E bytes))))))))
         else if method = ''eth_getStorageAt'' then
           rpc_bind (rpc_lift (rpc_params (req_params request) 3)) (\<lambda>params.
           rpc_bind (rpc_lift (rpc_parse_address E (params ! 0))) (\<lambda>address.
           rpc_bind (rpc_lift (rpc_parse_slot E (params ! 1))) (\<lambda>slot.
           rpc_bind (map_err_a rpc_selector (resolve_selector E B (params ! 2))) (\<lambda>block.
           rpc_bind (map_err_a rpc_state (be_storage_at B address slot block)) (\<lambda>bytes.
             rpc_lift (Inr (JString (data32 E bytes))))))))
         else rpc_lift (Inl \<lparr>re_code = -32601, re_message = ''method not found''\<rparr>))"

definition json_int :: "int \<Rightarrow> json" where
  "json_int n = JNumber (if n < 0 then NegInt n else PosInt (word_of_int n))"

definition rpc_error_value :: "json \<Rightarrow> int \<Rightarrow> string \<Rightarrow> json" where
  "rpc_error_value i code message =
     JObject [(''jsonrpc'', JString ''2.0''), (''id'', i),
       (''error'', JObject [(''code'', json_int code), (''message'', JString message)])]"

definition handle_value :: "'x ext_rpc_scheme \<Rightarrow> 's rpc_backend \<Rightarrow> json \<Rightarrow> 's \<Rightarrow> json \<times> 's" where
  "handle_value E B v s =
     (case request_from_json E v of
        Inl _ \<Rightarrow> (rpc_error_value JNull (-32600) ''invalid request'', s)
      | Inr request \<Rightarrow>
          if req_jsonrpc request \<noteq> Some ''2.0'' then (rpc_error_value JNull (-32600) ''invalid request'', s)
          else
            case dispatch E B request s of
              (Inr result, s') \<Rightarrow> (JObject [(''jsonrpc'', JString ''2.0''), (''id'', req_id request), (''result'', result)], s')
            | (Inl e, s') \<Rightarrow> (rpc_error_value (req_id request) (re_code e) (re_message e), s'))"

fun handle_each :: "'x ext_rpc_scheme \<Rightarrow> 's rpc_backend \<Rightarrow> json list \<Rightarrow> 's \<Rightarrow> json list \<times> 's" where
  "handle_each E B [] s = ([], s)"
| "handle_each E B (v # vs) s =
     (case handle_value E B v s of (r, s') \<Rightarrow> case handle_each E B vs s' of (rs, s'') \<Rightarrow> (r # rs, s''))"

definition handle_rpc_backend :: "'x ext_rpc_scheme \<Rightarrow> 's rpc_backend \<Rightarrow> json \<Rightarrow> nat \<Rightarrow> 's \<Rightarrow> json \<times> 's" where
  "handle_rpc_backend E B v batch_limit s =
     (case v of
        JArray requests \<Rightarrow>
          if requests = [] \<or> length requests > batch_limit then (rpc_error_value JNull (-32600) ''invalid batch size'', s)
          else case handle_each E B requests s of (responses, s') \<Rightarrow> (JArray responses, s')
      | _ \<Rightarrow> handle_value E B v s)"

definition handle_rpc_with :: "'x ext_rpc_scheme \<Rightarrow> 's rpc_backend \<Rightarrow> json \<Rightarrow> nat \<Rightarrow> 's \<Rightarrow> json \<times> 's" where
  "handle_rpc_with E B v batch_limit = handle_rpc_backend E B v batch_limit"

definition health :: "'x ext_scheme \<Rightarrow> 's rpc_backend \<Rightarrow> json" where
  "health E B =
     JObject [(''status'', JString ''ready''), (''generation'', JNumber (PosInt (be_generation B))),
       (''published'', JString (quantity (be_published_number B))),
       (''manifest'', JString (hash32_string E (be_publication_digest B)))]"

section \<open>Refinement\<close>

text \<open>
  A backend serves another one when the two have the same constants and, from any state in \<open>I\<close>, a
  read at a block that can be selected returns the same result and ends in such a state.
\<close>

definition same_read :: "('s \<Rightarrow> bool) \<Rightarrow> ('s, 'a) act \<Rightarrow> 'a result \<Rightarrow> bool" where
  "same_read I m r \<longleftrightarrow> (\<forall>s. I s \<longrightarrow> fst (m s) = r \<and> I (snd (m s)))"

definition same_constants :: "'s rpc_backend \<Rightarrow> 't rpc_backend \<Rightarrow> bool" where
  "same_constants B C \<longleftrightarrow> be_chain_id B = be_chain_id C \<and> be_anchor_number B = be_anchor_number C \<and>
     be_published_number B = be_published_number C \<and> be_finalized B = be_finalized C \<and>
     \<not> be_supports_block_hash_selector B \<and> \<not> be_supports_block_hash_selector C"

definition serves :: "('s \<Rightarrow> bool) \<Rightarrow> 's rpc_backend \<Rightarrow> unit rpc_backend \<Rightarrow> bool" where
  "serves I B C \<longleftrightarrow> same_constants B C \<and>
     (\<forall>a block. block \<le> be_published_number C \<longrightarrow>
        same_read I (be_account_at B a block) (fst (be_account_at C a block ())) \<and>
        same_read I (be_code_at B a block) (fst (be_code_at C a block ())) \<and>
        (\<forall>slot. same_read I (be_storage_at B a slot block) (fst (be_storage_at C a slot block ()))))"

text \<open>The same for the actions of the server.\<close>

definition same_rpc :: "('s \<Rightarrow> bool) \<Rightarrow> ('s, 'a) rpc_act \<Rightarrow> (unit, 'a) rpc_act \<Rightarrow> bool" where
  "same_rpc I m n \<longleftrightarrow> (\<forall>s. I s \<longrightarrow> fst (m s) = fst (n ()) \<and> I (snd (m s)))"

lemma same_rpc_lift [simp]: "same_rpc I (rpc_lift r) (rpc_lift r)"
  by (simp add: same_rpc_def rpc_lift_def)

lemma same_rpc_bind:
  assumes "same_rpc I m n" "\<And>x. fst (n ()) = Inr x \<Longrightarrow> same_rpc I (f x) (g x)"
  shows "same_rpc I (rpc_bind m f) (rpc_bind n g)"
  unfolding same_rpc_def
proof (intro allI impI)
  fix s assume "I s"
  obtain r t where m: "m s = (r, t)" by (rule prod.exhaust)
  with assms(1) \<open>I s\<close> have n: "n () = (r, ())" "I t" by (auto simp: same_rpc_def prod_eq_iff)
  with m assms(2) show "fst (rpc_bind m f s) = fst (rpc_bind n g ()) \<and> I (snd (rpc_bind m f s))"
    by (cases r) (auto simp: rpc_bind_def same_rpc_def)
qed

lemma same_rpc_read:
  assumes "same_read I m (fst (n ()))"
  shows "same_rpc I (map_err_a f m) (map_err_a f n)"
  unfolding same_rpc_def
proof (intro allI impI)
  fix s assume "I s"
  obtain r t where m: "m s = (r, t)" by (rule prod.exhaust)
  with assms \<open>I s\<close> have "n () = (r, ())" "I t" by (auto simp: same_read_def prod_eq_iff)
  with m show "fst (map_err_a f m s) = fst (map_err_a f n ()) \<and> I (snd (map_err_a f m s))"
    by (cases r) (simp_all add: map_err_a_def)
qed

text \<open>The selectors of a backend that does not look blocks up by their hash.\<close>

definition resolve_plain :: "'s rpc_backend \<Rightarrow> json \<Rightarrow> u64 result" where
  "resolve_plain B selector =
     (case selector of
        JObject obj \<Rightarrow>
          (case map_of obj ''blockNumber'' of
             Some number \<Rightarrow>
               if map_of obj ''blockHash'' \<noteq> None then bail ''selector cannot contain blockNumber and blockHash''
               else select_number B number
           | None \<Rightarrow> bail ''block-hash selectors are unsupported until a bounded durable hash index exists'')
      | _ \<Rightarrow> select_number B selector)"

lemma resolve_selector_plain: "\<not> be_supports_block_hash_selector B \<Longrightarrow> resolve_selector E B v = lift_r (resolve_plain B v)"
  by (auto simp: resolve_selector_def resolve_plain_def lift_r_def bail_a_def bail_def fun_eq_iff split: json.splits option.splits)

lemma select_number_le: "select_number B v = Inr n \<Longrightarrow> be_anchor_number B \<le> n \<and> n \<le> be_published_number B"
  by (auto simp: select_number_def bind_r_def bail_def not_less split: sum.splits if_splits)

lemma resolve_plain_le: "resolve_plain B v = Inr n \<Longrightarrow> be_anchor_number B \<le> n \<and> n \<le> be_published_number B"
  by (auto simp: resolve_plain_def bail_def dest!: select_number_le split: json.splits option.splits if_splits)

lemma select_number_cong: "same_constants B C \<Longrightarrow> select_number B = select_number C"
proof (rule ext)
  fix v assume "same_constants B C"
  then have eq: "be_anchor_number B = be_anchor_number C" "be_published_number B = be_published_number C" "be_finalized B = be_finalized C"
    by (simp_all add: same_constants_def)
  show "select_number B v = select_number C v" unfolding select_number_def eq ..
qed

lemma resolve_cong: "same_constants B C \<Longrightarrow> resolve_plain B = resolve_plain C"
  by (simp only: resolve_plain_def [abs_def] select_number_cong)

text \<open>A selected block, then what is read at it.\<close>

lemma same_rpc_select:
  assumes "serves I B C" "\<And>block. block \<le> be_published_number C \<Longrightarrow> same_rpc I (f block) (g block)"
  shows "same_rpc I (rpc_bind (map_err_a rpc_selector (resolve_selector E B v)) f) (rpc_bind (map_err_a rpc_selector (resolve_selector E C v)) g)"
proof (rule same_rpc_bind)
  have B: "\<not> be_supports_block_hash_selector B" "\<not> be_supports_block_hash_selector C" and eq: "same_constants B C"
    using assms(1) by (auto simp: serves_def same_constants_def)
  show "same_rpc I (map_err_a rpc_selector (resolve_selector E B v)) (map_err_a rpc_selector (resolve_selector E C v))"
    unfolding resolve_selector_plain [OF B(1)] resolve_selector_plain [OF B(2)] resolve_cong [OF eq]
    by (rule same_rpc_read) (simp add: same_read_def lift_r_def)
  fix block assume "fst (map_err_a rpc_selector (resolve_selector E C v) ()) = Inr block"
  then have "resolve_plain C v = Inr block"
    unfolding resolve_selector_plain [OF B(2)] by (simp add: map_err_a_def lift_r_def split: sum.splits)
  then show "same_rpc I (f block) (g block)" using resolve_plain_le assms(2) by blast
qed

theorem dispatch_serves:
  assumes "serves I B C"
  shows "same_rpc I (dispatch E B request) (dispatch E C request)"
proof -
  have eq: "be_chain_id B = be_chain_id C" "be_published_number B = be_published_number C"
    using assms by (simp_all add: serves_def same_constants_def)
  have reads: "same_rpc I (map_err_a f (be_account_at B a block)) (map_err_a f (be_account_at C a block))"
      "same_rpc I (map_err_a f (be_code_at B a block)) (map_err_a f (be_code_at C a block))"
      "same_rpc I (map_err_a f (be_storage_at B a slot block)) (map_err_a f (be_storage_at C a slot block))"
    if "block \<le> be_published_number C" for f a slot block
    using assms that by (auto simp: serves_def intro!: same_rpc_read)
  show ?thesis
    unfolding dispatch_def Let_def eq
    by (auto intro!: same_rpc_select [OF assms] same_rpc_bind reads)
qed

lemma handle_value_serves:
  assumes "serves I B C" "I s"
  shows "fst (handle_value E B v s) = fst (handle_value E C v ()) \<and> I (snd (handle_value E B v s))"
proof (cases "request_from_json E v")
  case (Inr request)
  obtain r t where d: "dispatch E B request s = (r, t)" by (rule prod.exhaust)
  with dispatch_serves [OF assms(1), of E request] assms(2) have "dispatch E C request () = (r, ())" "I t"
    by (auto simp: same_rpc_def prod_eq_iff)
  with d Inr assms(2) show ?thesis by (cases r) (simp_all add: handle_value_def)
qed (use assms(2) in \<open>simp add: handle_value_def\<close>)

lemma handle_each_serves:
  assumes "serves I B C" "I s"
  shows "fst (handle_each E B vs s) = fst (handle_each E C vs ()) \<and> I (snd (handle_each E B vs s))"
  using assms(2)
proof (induction vs arbitrary: s)
  case (Cons v vs)
  obtain r t where v: "handle_value E B v s = (r, t)" by (rule prod.exhaust)
  with handle_value_serves [OF assms(1) Cons.prems, of E v] have c: "handle_value E C v () = (r, ())" "I t" by (auto simp: prod_eq_iff)
  obtain rs u where vs: "handle_each E B vs t = (rs, u)" by (rule prod.exhaust)
  with Cons.IH [OF c(2)] have "handle_each E C vs () = (rs, ())" "I u" by (auto simp: prod_eq_iff)
  with v vs c(1) show ?case by simp
qed simp

theorem handle_serves:
  assumes "serves I B C" "I s"
  shows "fst (handle_rpc_backend E B v batch_limit s) = fst (handle_rpc_backend E C v batch_limit ())"
proof -
  have "fst (handle_each E B vs s) = fst (handle_each E C vs ())" for vs using handle_each_serves [OF assms] by blast
  moreover have "fst (handle_value E B v s) = fst (handle_value E C v ())" using handle_value_serves [OF assms] by blast
  ultimately show ?thesis
    by (cases v) (simp_all add: handle_rpc_backend_def case_prod_beta)
qed

section \<open>The histories as a backend\<close>

text \<open>What the server answers over the histories of a head, with no store, no cache and no limits.\<close>

definition history_backend :: "'x ext_scheme \<Rightarrow> head \<Rightarrow> (bytes \<Rightarrow> krecord list) \<Rightarrow> unit rpc_backend" where
  "history_backend E h hist =
     \<lparr>be_chain_id = hd_chain_id h, be_generation = hd_number h, be_anchor_number = 0, be_published_number = hd_number h,
      be_publication_digest = 0, be_finalized = True, be_supports_block_hash_selector = False, be_metrics = '''',
      be_account_at = (\<lambda>a block. lift_r (account_at hist a block)),
      be_storage_at = (\<lambda>a slot block. lift_r (storage_at hist a slot block)),
      be_code_at = (\<lambda>a block. lift_r (code_at E hist a block)),
      be_block_number_by_hash = (\<lambda>_. ret None)\<rparr>"

end
