(* ===== verification/Worker_Rpc.thy ===== *)
theory Worker_Rpc
  imports Worker_Core Rpc
begin

text \<open>
  \<^verbatim>\<open>worker/src/lib.rs\<close> with the text functions and the selectors of \<^verbatim>\<open>worker/src/core.rs\<close>: the requests
  the Worker answers and the R2 store it reads from. The bucket of the
  platform is a parameter: what it returns for a key, with the body as the chunks of its stream. The
  bytes of a message are parsed by \<^verbatim>\<open>serde_json\<close>; the model starts at the parsed value. HTTP requests
  and responses themselves are not modelled.
\<close>

section \<open>Text\<close>

definition invalid_params :: "string \<Rightarrow> 'a result" where
  "invalid_params msg = Inl (Archive (InvalidParams msg))"

definition is_ascii_hexdigit :: "char \<Rightarrow> bool" where
  "is_ascii_hexdigit c \<longleftrightarrow> c \<in> set ''0123456789abcdefABCDEF''"

definition worker_parse_address :: "'x ext_scheme \<Rightarrow> json \<Rightarrow> address result" where
  "worker_parse_address E v =
     (let invalid = invalid_params ''address must be 20-byte hex data''
      in case as_str v of
           None \<Rightarrow> invalid
         | Some text \<Rightarrow>
             if length text \<noteq> 42 \<or> \<not> prefix ''0x'' text then invalid
             else case hex_decode E (drop 2 text) of
                    Inl _ \<Rightarrow> invalid
                  | Inr bytes \<Rightarrow> if length bytes \<noteq> 20 then invalid else Inr (of_be bytes))"

definition worker_parse_slot :: "'x ext_scheme \<Rightarrow> json \<Rightarrow> hash32 result" where
  "worker_parse_slot E v =
     (let invalid = invalid_params ''slot must be at most 32 bytes of hex''
      in case as_str v of
           None \<Rightarrow> invalid
         | Some text \<Rightarrow>
             if \<not> prefix ''0x'' text \<or> length text < 3 \<or> length text > 66 \<or> \<not> list_all is_ascii_hexdigit (drop 2 text) then invalid
             else
               let digits = (if length (drop 2 text) mod 2 = 1 then CHR ''0'' # drop 2 text else drop 2 text)
               in case hex_decode E digits of
                    Inl _ \<Rightarrow> invalid
                  | Inr bytes \<Rightarrow> Inr (of_be (replicate (32 - length bytes) 0 @ bytes)))"

definition worker_parse_quantity :: "string \<Rightarrow> u64 result" where
  "worker_parse_quantity text =
     (let invalid = invalid_params ''block number must be a canonical hex quantity''
      in case strip_prefix ''0x'' text of
           None \<Rightarrow> invalid
         | Some digits \<Rightarrow>
             if digits = [] \<or> length digits > 1 \<and> hd digits = CHR ''0'' \<or> \<not> list_all is_ascii_hexdigit digits then invalid
             else case from_str_radix16 digits of
                    None \<Rightarrow> invalid_params ''block number exceeds u64''
                  | Some n \<Rightarrow> Inr n)"

definition worker_quantity :: "u64 \<Rightarrow> string" where
  "worker_quantity n = ''0x'' @ hex_nat (unat n)"

definition quantity_bytes :: "'x ext_scheme \<Rightarrow> hash32 \<Rightarrow> string" where
  "quantity_bytes E v =
     (let text = dropWhile (\<lambda>c. c = CHR ''0'') (hex_encode E (h32_be v))
      in ''0x'' @ (if text = [] then ''0'' else text))"

definition worker_resolve_selector :: "u64 \<Rightarrow> json \<Rightarrow> u64 result" where
  "worker_resolve_selector number selector =
     bind_r (case selector of
         JObject obj \<Rightarrow>
           if list_ex (\<lambda>(key, _). key \<noteq> ''blockNumber'' \<and> key \<noteq> ''requireCanonical'') obj
           then invalid_params ''invalid EIP-1898 selector''
           else if (case map_of obj ''requireCanonical'' of None \<Rightarrow> False | Some v \<Rightarrow> as_bool v = None)
           then invalid_params ''requireCanonical must be boolean''
           else (case map_of obj ''blockNumber'' of
                   None \<Rightarrow> invalid_params ''block-hash selectors are not supported''
                 | Some v \<Rightarrow> Inr v)
       | v \<Rightarrow> Inr v) (\<lambda>selector.
     bind_r (case as_str selector of None \<Rightarrow> invalid_params ''invalid block selector'' | Some text \<Rightarrow> Inr text) (\<lambda>text.
     bind_r (if text = ''latest'' \<or> text = ''safe'' \<or> text = ''finalized'' then Inr number
             else if text = ''earliest'' then Inr 0
             else if text = ''pending'' then invalid_params ''pending is not supported''
             else worker_parse_quantity text) (\<lambda>block.
       if block > number then Inl (Archive (Unavailable ''block is outside the published archive range''))
       else Inr block)))"

section \<open>The R2 store\<close>

text \<open>
  What a bucket returns for a key: a failure, no object, or an object with its size and, when it
  has a body, a stream that may fail to open and whose chunks may fail.
\<close>

record r2_object =
  ro_size :: u64
  ro_body :: "bytes option list option option"

type_synonym 's bucket = "string \<Rightarrow> 's \<Rightarrow> r2_object option option \<times> 's"

fun r2_read :: "nat \<Rightarrow> bytes \<Rightarrow> bytes option list \<Rightarrow> bytes result" where
  "r2_read maximum bytes [] = Inr bytes"
| "r2_read maximum bytes (None # chunks) = Inl (Archive Backend)"
| "r2_read maximum bytes (Some chunk # chunks) =
     (if length bytes + length chunk > maximum then Inl (Archive Integrity)
      else r2_read maximum (bytes @ chunk) chunks)"

definition r2_get :: "'s bucket \<Rightarrow> 's object_get" where
  "r2_get bucket key maximum s =
     (case bucket key s of
        (None, s') \<Rightarrow> (Inl (Archive Backend), s')
      | (Some None, s') \<Rightarrow> (Inl (Archive (Unavailable ''archive object is unavailable'')), s')
      | (Some (Some obj), s') \<Rightarrow>
          (if ro_size obj > word_of_nat maximum then Inl (Archive Integrity)
           else
             case ro_body obj of
               None \<Rightarrow> Inl (Archive Integrity)
             | Some None \<Rightarrow> Inl (Archive Backend)
             | Some (Some chunks) \<Rightarrow>
                 bind_r (r2_read maximum [] chunks) (\<lambda>bytes.
                   if length bytes \<noteq> unat (ro_size obj) then Inl (Archive Integrity) else Inr bytes), s'))"

section \<open>Requests\<close>

datatype dispatch_error = MethodNotFound | ArchiveFail archive_error

record 's worker_env =
  env_chain_id :: "string option"
  env_prefix :: "string option"
  env_bucket :: "'s bucket option"

definition require_params :: "json \<Rightarrow> nat \<Rightarrow> unit result" where
  "require_params params expected =
     (case as_array params of
        Some values \<Rightarrow> if length values = expected then Inr () else invalid_params (''expected '' @ decimal expected @ '' parameters'')
      | None \<Rightarrow> invalid_params (''expected '' @ decimal expected @ '' parameters''))"

definition is_ascii_digit :: "char \<Rightarrow> bool" where
  "is_ascii_digit c \<longleftrightarrow> c \<in> set ''0123456789''"

text \<open>\<^verbatim>\<open>str::parse::<u64>\<close> on decimal digits.\<close>

definition parse_decimal :: "string \<Rightarrow> nat" where
  "parse_decimal s = foldl (\<lambda>n c. 10 * n + (of_char c - 48)) 0 s"

definition parse_digits :: "string \<Rightarrow> u64 option" where
  "parse_digits s = (if s = [] \<or> parse_decimal s \<ge> 2 ^ 64 then None else Some (word_of_nat (parse_decimal s)))"

definition parse_configured_chain_id :: "string \<Rightarrow> u64 result" where
  "parse_configured_chain_id text =
     (if text = [] \<or> text = ''0'' \<or> length text > 1 \<and> hd text = CHR ''0'' \<or> \<not> list_all is_ascii_digit text
      then Inl (Archive Backend)
      else case parse_digits text of None \<Rightarrow> Inl (Archive Backend) | Some n \<Rightarrow> Inr n)"

definition configured_chain_id :: "'s worker_env \<Rightarrow> u64 result" where
  "configured_chain_id env = parse_configured_chain_id (case env_chain_id env of Some text \<Rightarrow> text | None \<Rightarrow> ''8453'')"

text \<open>\<^verbatim>\<open>str::split\<close>.\<close>

fun split_on :: "char \<Rightarrow> string \<Rightarrow> string list" where
  "split_on c [] = [[]]"
| "split_on c (x # xs) =
     (if x = c then [] # split_on c xs
      else case split_on c xs of part # parts \<Rightarrow> (x # part) # parts | [] \<Rightarrow> [[x]])"

definition archive_prefix :: "'s worker_env \<Rightarrow> string result" where
  "archive_prefix env =
     (let pre = (case env_prefix env of Some text \<Rightarrow> text | None \<Rightarrow> ''v1/'')
      in if prefix ''/'' pre \<or> list_ex (\<lambda>c. c = CHR 0x5C \<or> c = CHR 0x00) pre \<or> list_ex (\<lambda>part. part = ''.'' \<or> part = ''..'') (split_on (CHR ''/'') pre)
         then Inl (Archive Backend)
         else if pre \<noteq> [] \<and> last pre = CHR ''/'' then Inr pre else Inr (pre @ ''/''))"

text \<open>
  The part of \<^verbatim>\<open>dispatch_rpc\<close> after \<^verbatim>\<open>Reader::load\<close>. The number of the head and the three reads of the
  reader are arguments, so that the specification can put the histories in their place.
\<close>

definition answer_call ::
  "'x ext_scheme \<Rightarrow> u64 \<Rightarrow> (address \<Rightarrow> u64 \<Rightarrow> ('s, worker_account option) act) \<Rightarrow>
   (address \<Rightarrow> hash32 \<Rightarrow> u64 \<Rightarrow> ('s, hash32) act) \<Rightarrow> (address \<Rightarrow> u64 \<Rightarrow> ('s, bytes) act) \<Rightarrow>
   string \<Rightarrow> json \<Rightarrow> ('s, json) act" where
  "answer_call E number account storage code method params =
     (if method = ''eth_blockNumber'' then
        bind_a (lift_r (require_params params 0)) (\<lambda>_. ret (JString (worker_quantity number)))
      else
        bind_a (lift_r (case as_array params of None \<Rightarrow> invalid_params ''params must be an array'' | Some values \<Rightarrow> Inr values)) (\<lambda>values.
          if method = ''eth_getStorageAt'' then
            if length values \<noteq> 3 then lift_r (invalid_params ''expected 3 parameters'')
            else
              bind_a (lift_r (worker_parse_address E (values ! 0))) (\<lambda>address.
              bind_a (lift_r (worker_parse_slot E (values ! 1))) (\<lambda>slot.
              bind_a (lift_r (worker_resolve_selector number (values ! 2))) (\<lambda>block.
              bind_a (storage address slot block) (\<lambda>bytes.
                ret (JString (''0x'' @ hex_encode E (h32_be bytes)))))))
          else if length values \<noteq> 2 then lift_r (invalid_params ''expected 2 parameters'')
          else
            bind_a (lift_r (worker_parse_address E (values ! 0))) (\<lambda>address.
            bind_a (lift_r (worker_resolve_selector number (values ! 1))) (\<lambda>block.
              if method = ''eth_getCode'' then
                bind_a (code address block) (\<lambda>bytes. ret (JString (''0x'' @ hex_encode E bytes)))
              else
                bind_a (account address block) (\<lambda>found.
                  if method = ''eth_getBalance'' then
                    ret (JString (case found of Some a \<Rightarrow> quantity_bytes E (wa_balance a) | None \<Rightarrow> ''0x0''))
                  else ret (JString (case found of Some a \<Rightarrow> worker_quantity (wa_nonce a) | None \<Rightarrow> ''0x0'')))))))"

definition reader_call ::
  "'x ext_scheme \<Rightarrow> 's object_get \<Rightarrow> worker_reader \<Rightarrow> string \<Rightarrow> json \<Rightarrow> ('s request, json) act" where
  "reader_call E get rd =
     answer_call E (worker_published_number rd) (worker_account_at E get rd) (worker_storage_at E get rd) (worker_code_at E get rd)"

text \<open>A request loads its own reader; nothing but the store is left of it.\<close>

definition with_reader ::
  "'x ext_head_scheme \<Rightarrow> 's object_get \<Rightarrow> string \<Rightarrow> u64 \<Rightarrow> (worker_reader \<Rightarrow> ('s request, 'a) act) \<Rightarrow> ('s, 'a) act" where
  "with_reader E get pre chain_id f s =
     (case worker_load E get pre chain_id s of
        (Inl e, st) \<Rightarrow> (Inl e, rq_store st)
      | (Inr rd, st) \<Rightarrow> case f rd st of (r, st') \<Rightarrow> (r, rq_store st'))"

definition dispatch_archive :: "'x ext_head_scheme \<Rightarrow> 's worker_env \<Rightarrow> string \<Rightarrow> json \<Rightarrow> ('s, json) act" where
  "dispatch_archive E env method params =
     bind_a (lift_r (configured_chain_id env)) (\<lambda>chain_id.
       if method = ''eth_chainId'' then bind_a (lift_r (require_params params 0)) (\<lambda>_. ret (JString (worker_quantity chain_id)))
       else
         bind_a (lift_r (archive_prefix env)) (\<lambda>pre.
           case env_bucket env of
             None \<Rightarrow> archive_err Backend
           | Some bucket \<Rightarrow>
               with_reader E (r2_get bucket) pre chain_id (\<lambda>rd. reader_call E (r2_get bucket) rd method params)))"

definition as_dispatch :: "('s, 'a) act \<Rightarrow> 's \<Rightarrow> (dispatch_error + 'a) \<times> 's" where
  "as_dispatch m s = (case m s of (Inl e, s') \<Rightarrow> (Inl (ArchiveFail (archive_of e)), s') | (Inr x, s') \<Rightarrow> (Inr x, s'))"

definition dispatch_rpc :: "'x ext_head_scheme \<Rightarrow> 's worker_env \<Rightarrow> string \<Rightarrow> json \<Rightarrow> 's \<Rightarrow> (dispatch_error + json) \<times> 's" where
  "dispatch_rpc E env method params =
     (if method = ''web3_clientVersion'' then
        as_dispatch (bind_a (lift_r (require_params params 0)) (\<lambda>_. ret (JString ''fossil-worker-rs/0.1.0'')))
      else if method \<notin> {''eth_chainId'', ''eth_blockNumber'', ''eth_getBalance'', ''eth_getTransactionCount'', ''eth_getCode'', ''eth_getStorageAt''}
      then (\<lambda>s. (Inl MethodNotFound, s))
      else as_dispatch (dispatch_archive E env method params))"

section \<open>Messages\<close>

definition MAX_SAFE_INTEGER :: u64 where "MAX_SAFE_INTEGER = 9007199254740991"

text \<open>\<^verbatim>\<open>as_u64\<close> accepts the positive integers; \<^verbatim>\<open>as_i64\<close> the negative ones and the positive ones that fit.\<close>

fun valid_id :: "json \<Rightarrow> bool" where
  "valid_id JNull = True"
| "valid_id (JString s) = True"
| "valid_id (JNumber (PosInt n)) = (n \<le> MAX_SAFE_INTEGER)"
| "valid_id (JNumber (NegInt n)) = (nat (abs n) \<le> unat MAX_SAFE_INTEGER)"
| "valid_id _ = False"

definition rpc_error_code :: "json \<Rightarrow> int \<Rightarrow> string \<Rightarrow> string option \<Rightarrow> json" where
  "rpc_error_code i code message data =
     JObject [(''jsonrpc'', JString ''2.0''), (''id'', i),
       (''error'', JObject ([(''code'', json_int code), (''message'', JString message)] @
         (case data of None \<Rightarrow> [] | Some d \<Rightarrow> [(''data'', JString d)])))]"

fun archive_error_value :: "json \<Rightarrow> archive_error \<Rightarrow> json" where
  "archive_error_value i (InvalidParams d) = rpc_error_code i (-32602) ''Invalid params'' (Some d)"
| "archive_error_value i (Unavailable d) = rpc_error_code i (-32001) ''Archive unavailable'' (Some d)"
| "archive_error_value i Integrity = rpc_error_code i (-32002) ''Archive integrity error'' None"
| "archive_error_value i Limit = rpc_error_code i (-32005) ''Resource limit exceeded'' None"
| "archive_error_value i Backend = rpc_error_code i (-32603) ''Internal error'' None"

definition serve_message :: "'x ext_head_scheme \<Rightarrow> 's worker_env \<Rightarrow> json \<Rightarrow> 's \<Rightarrow> json \<times> 's" where
  "serve_message E env message s =
     (case message of
        JArray _ \<Rightarrow> (rpc_error_code JNull (-32600) ''Invalid Request'' (Some ''Batch requests are not supported''), s)
      | JObject obj \<Rightarrow>
          let i = (case map_of obj ''id'' of None \<Rightarrow> JNull | Some v \<Rightarrow> v)
          in if map_of obj ''jsonrpc'' \<noteq> Some (JString ''2.0'') \<or> map_of obj ''id'' = None \<or> \<not> valid_id i \<or>
                Option.bind (map_of obj ''method'') as_str = None
             then (rpc_error_code (if valid_id i then i else JNull) (-32600) ''Invalid Request'' None, s)
             else
               let method = the (Option.bind (map_of obj ''method'') as_str);
                 params = (case map_of obj ''params'' of None \<Rightarrow> JArray [] | Some v \<Rightarrow> v)
               in case dispatch_rpc E env method params s of
                    (Inr result, s') \<Rightarrow> (JObject [(''jsonrpc'', JString ''2.0''), (''id'', i), (''result'', result)], s')
                  | (Inl MethodNotFound, s') \<Rightarrow> (rpc_error_code i (-32601) ''Method not found'' None, s')
                  | (Inl (ArchiveFail e), s') \<Rightarrow> (archive_error_value i e, s')
      | _ \<Rightarrow> (rpc_error_code JNull (-32600) ''Invalid Request'' None, s))"

section \<open>The store\<close>

text \<open>
  What the platform documents of a bucket: a stored object comes with its size, and the chunks of
  its body are consecutive pieces of it, all of it unless the stream fails.
\<close>

definition pieces_of :: "bytes \<Rightarrow> bytes option list \<Rightarrow> bool" where
  "pieces_of bs chunks \<longleftrightarrow>
     (if None \<in> set chunks then prefix (concat (map the (takeWhile (\<lambda>c. c \<noteq> None) chunks))) bs else concat (map the chunks) = bs)"

definition bucket_ok :: "'s bucket \<Rightarrow> ('s \<Rightarrow> string \<Rightarrow> bytes option) \<Rightarrow> bool" where
  "bucket_ok bucket contents \<longleftrightarrow>
     (\<forall>key s r s'. bucket key s = (r, s') \<longrightarrow> contents s' = contents s \<and>
        (\<forall>bs found. contents s key = Some bs \<and> r = Some found \<longrightarrow>
           (\<exists>obj body. found = Some obj \<and> ro_size obj = word_of_nat (length bs) \<and> ro_body obj = Some body \<and>
              (\<forall>chunks. body = Some chunks \<longrightarrow> pieces_of bs chunks))))"

text \<open>A bucket that may fail: on the request, on opening the stream or on one of its chunks.\<close>

definition bucket_flaky :: "'s bucket \<Rightarrow> bool" where
  "bucket_flaky bucket \<longleftrightarrow>
     (\<exists>key s. case fst (bucket key s) of
        None \<Rightarrow> True
      | Some None \<Rightarrow> False
      | Some (Some obj) \<Rightarrow> (case ro_body obj of None \<Rightarrow> False | Some None \<Rightarrow> True | Some (Some chunks) \<Rightarrow> None \<in> set chunks))"

lemma bucket_flakyI:
  assumes "bucket key s = (r, s')"
  shows "r = None \<Longrightarrow> bucket_flaky bucket" "r = Some (Some obj) \<Longrightarrow> ro_body obj = Some None \<Longrightarrow> bucket_flaky bucket"
    "r = Some (Some obj) \<Longrightarrow> ro_body obj = Some (Some chunks) \<Longrightarrow> None \<in> set chunks \<Longrightarrow> bucket_flaky bucket"
  unfolding bucket_flaky_def by (rule exI [of _ key], rule exI [of _ s], simp add: assms)+

lemma r2_read_all: "None \<notin> set chunks \<Longrightarrow> length (acc @ concat (map the chunks)) \<le> n \<Longrightarrow> r2_read n acc chunks = Inr (acc @ concat (map the chunks))"
  by (induction n acc chunks rule: r2_read.induct) auto

lemma r2_read_error:
  "None \<in> set chunks \<Longrightarrow> length (acc @ concat (map the (takeWhile (\<lambda>c. c \<noteq> None) chunks))) \<le> n \<Longrightarrow> r2_read n acc chunks = Inl (Archive Backend)"
  by (induction n acc chunks rule: r2_read.induct) auto

lemma r2_read_pieces:
  assumes "pieces_of bs chunks" "length bs \<le> n"
  shows "r2_read n [] chunks = Inr bs \<or> None \<in> set chunks \<and> r2_read n [] chunks = Inl (Archive Backend)"
  using assms r2_read_all [of chunks "[]" n] r2_read_error [of chunks "[]" n] prefix_length_le
  by (fastforce simp: pieces_of_def split: if_splits)

lemma r2_store:
  assumes "bucket_ok bucket contents"
  shows "object_store (r2_get bucket) contents (\<lambda>a. bucket_flaky bucket \<and> a = Backend)"
proof
  fix s key bs n
  assume held: "contents s key = Some bs" "length bs \<le> n" "n < 2 ^ 32"
  obtain r s' where b: "bucket key s = (r, s')" by (rule prod.exhaust)
  note flaky = bucket_flakyI [where bucket = bucket, OF b]
  show "outcome (\<lambda>e. bucket_flaky bucket \<and> archive_of e = Backend) (\<lambda>b s'. b = bs) (r2_get bucket key n s)"
  proof (cases r)
    case None
    with b flaky(1) show ?thesis by (simp add: r2_get_def)
  next
    case (Some found)
    with assms b held(1) obtain obj body where obj: "found = Some obj" "ro_size obj = word_of_nat (length bs)" "ro_body obj = Some body"
      "\<And>chunks. body = Some chunks \<Longrightarrow> pieces_of bs chunks" unfolding bucket_ok_def by blast
    have len: "length bs mod 18446744073709551616 = length bs" "n mod 18446744073709551616 = n" using held(2,3) by auto
    have size: "unat (ro_size obj) = length bs" "\<not> ro_size obj > word_of_nat n"
      using held(2) by (simp_all add: obj(2) unat_of_nat len word_less_nat_alt)
    show ?thesis
    proof (cases body)
      case None
      with b Some obj(1,3) size(2) flaky(2) [of obj] show ?thesis by (simp add: r2_get_def)
    next
      case (Some chunks)
      from r2_read_pieces [OF obj(4) [OF this] held(2)] b \<open>r = Some found\<close> obj(1,3) size Some flaky(3) [of obj chunks] show ?thesis
        by (auto simp: r2_get_def)
    qed
  qed
next
  fix key n s r s' assume "r2_get bucket key n s = (r, s')"
  moreover obtain x t where "bucket key s = (x, t)" by (rule prod.exhaust)
  ultimately have "s' = t" "contents t = contents s"
    using assms by (auto simp: r2_get_def bucket_ok_def split: option.splits)
  then show "contents s' = contents s" by simp
qed

section \<open>The answers of the histories\<close>

text \<open>A read of the histories, with the error the Worker gives for a value that does not decode.\<close>

definition history_read :: "'a result \<Rightarrow> (unit, 'a) act" where
  "history_read r = to_archive (lift_r (case r of Inl _ \<Rightarrow> Inl (Archive Integrity) | Inr x \<Rightarrow> Inr x))"

definition history_call :: "'x ext_scheme \<Rightarrow> head \<Rightarrow> (bytes \<Rightarrow> krecord list) \<Rightarrow> string \<Rightarrow> json \<Rightarrow> (unit, json) act" where
  "history_call E h hist =
     answer_call E (hd_number h)
       (\<lambda>a block. history_read (bind_r (live_account hist a block) (\<lambda>x. Inr (map_option worker_account_of x))))
       (\<lambda>a slot block. history_read (storage_at hist a slot block))
       (\<lambda>a block. history_read (code_at E hist a block))"

definition history_rpc ::
  "'x ext_scheme \<Rightarrow> head \<Rightarrow> (bytes \<Rightarrow> krecord list) \<Rightarrow> string \<Rightarrow> json \<Rightarrow> dispatch_error + json" where
  "history_rpc E h hist method params =
     (if method = ''web3_clientVersion'' then
        fst (as_dispatch (bind_a (lift_r (require_params params 0)) (\<lambda>_. ret (JString ''fossil-worker-rs/0.1.0''))) ())
      else if method \<notin> {''eth_chainId'', ''eth_blockNumber'', ''eth_getBalance'', ''eth_getTransactionCount'', ''eth_getCode'', ''eth_getStorageAt''}
      then Inl MethodNotFound
      else if method = ''eth_chainId'' then
        fst (as_dispatch (bind_a (lift_r (require_params params 0)) (\<lambda>_. ret (JString (worker_quantity (hd_chain_id h))))) ())
      else fst (as_dispatch (history_call E h hist method params) ()))"

text \<open>A request makes at most one read.\<close>

definition read_as :: "(error \<Rightarrow> bool) \<Rightarrow> 's \<Rightarrow> ('s, 'a) act \<Rightarrow> (unit, 'a) act \<Rightarrow> bool" where
  "read_as F s m spec \<longleftrightarrow> outcome (\<lambda>e. F e \<or> fst (spec ()) = Inl e) (\<lambda>x _. fst (spec ()) = Inr x) (m s)"

lemma read_as_lift [simp]: "read_as F s (lift_r r) (lift_r r)" "read_as F s (ret x) (ret x)"
  by (cases r) (simp_all add: read_as_def lift_r_def ret_def)

lemma read_as_check:
  assumes "\<And>x. r = Inr x \<Longrightarrow> read_as F s (f x) (g x)"
  shows "read_as F s (bind_a (lift_r r) f) (bind_a (lift_r r) g)"
  using assms by (cases r) (simp_all add: read_as_def lift_r_def bind_a_def)

lemma read_as_map:
  assumes "read_as F s m spec"
  shows "read_as F s (bind_a m (\<lambda>x. ret (f x))) (bind_a spec (\<lambda>x. ret (f x)))"
proof -
  obtain r s' where m: "m s = (r, s')" by (rule prod.exhaust)
  obtain q where q: "spec () = (q, ())" by (metis prod.collapse unit.exhaust)
  show ?thesis using assms m q by (cases r; cases q) (auto simp: read_as_def bind_a_def ret_def)
qed

lemma answer_call_as:
  assumes "\<And>a block. read_as F s (account a block) (account' a block)" "\<And>a slot block. read_as F s (storage a slot block) (storage' a slot block)"
    "\<And>a block. read_as F s (code a block) (code' a block)"
  shows "read_as F s (answer_call E number account storage code method params) (answer_call E number account' storage' code' method params)"
proof -
  have account: "read_as F s
      (bind_a (account a block) (\<lambda>x. if method = ''eth_getBalance'' then ret (JString (f x)) else ret (JString (g x))))
      (bind_a (account' a block) (\<lambda>x. if method = ''eth_getBalance'' then ret (JString (f x)) else ret (JString (g x))))" for a block f g
    using read_as_map [OF assms(1), where f = "\<lambda>x. JString (f x)"] read_as_map [OF assms(1), where f = "\<lambda>x. JString (g x)"]
    by (cases "method = ''eth_getBalance''") simp_all
  show ?thesis
    unfolding answer_call_def
    by (auto simp del: append.simps intro!: read_as_check read_as_lift read_as_map assms account)
qed

lemma history_read_simps [simp]:
  "r = Inr x \<Longrightarrow> fst (history_read r ()) = Inr x" "r = Inl e \<Longrightarrow> fst (history_read r ()) = Inl (Archive Integrity)"
  by (simp_all add: history_read_def to_archive_def lift_r_def)

context object_store begin

lemma answered_as:
  assumes "answered (\<lambda>x. spec = Inr x) (read_errs spec) pre c n st (m st)" "spent request_meter (request_new s) 1 MAX_HEAD st" "n \<le> 31"
  shows "read_as (store_errs fails) st m (history_read spec)"
  using answered_within [OF assms(1,2)] assms(3)
  by (auto simp: read_as_def read_errs_def elim!: outcome_mono)

lemma reader_call_correct:
  assumes rep: "worker_rep E c rd h hist" and st: "reads (wk_prefix rd) c st" and new: "spent request_meter (request_new s) 1 MAX_HEAD st"
    and runs: "length (head_runs h) \<le> 15" and empty: "keccak256 E [] = EMPTY_CODE_HASH"
  shows "read_as (store_errs fails) st (reader_call E get rd method params) (history_call E h hist method params)"
proof -
  have number: "worker_published_number rd = hd_number h" using rep by (simp add: worker_published_number_def worker_rep_def)
  have "read_as (store_errs fails) st (worker_account_at E get rd a block)
      (history_read (bind_r (live_account hist a block) (\<lambda>x. Inr (map_option worker_account_of x))))" for a block
  proof (rule answered_as [OF _ new])
    let ?spec = "bind_r (live_account hist a block) (\<lambda>x. Inr (map_option worker_account_of x))"
    have "answered (\<lambda>x. \<exists>y. live_account hist a block = Inr y \<and> x = map_option worker_account_of y) (read_errs ?spec) (wk_prefix rd) c (runs_of h) st
        (worker_account_at E get rd a block st)"
      using rep st by (rule answered_account) (auto simp: read_errs_def)
    then show "answered (\<lambda>x. ?spec = Inr x) (read_errs ?spec) (wk_prefix rd) c (runs_of h) st (worker_account_at E get rd a block st)"
      unfolding answered_def by (elim outcome_mono) auto
  qed (use runs in simp)
  moreover have "read_as (store_errs fails) st (worker_storage_at E get rd a slot block) (history_read (storage_at hist a slot block))" for a slot block
    by (rule answered_as [OF _ new], rule answered_storage [OF rep st]) (use runs in simp)
  moreover have "read_as (store_errs fails) st (worker_code_at E get rd a block) (history_read (code_at E hist a block))" for a block
    by (rule answered_as [OF _ new], rule answered_code [OF rep st empty]) (use runs in simp)
  ultimately show ?thesis unfolding reader_call_def history_call_def number by (rule answer_call_as)
qed

lemma with_reader_correct:
  assumes rep: "archive_rep E (beneath pre (contents s)) chain_id (Some (h, hist))" "nonzero (store_holds E (beneath pre (contents s)))"
    and runs: "length (head_runs h) \<le> 15" and empty: "keccak256 E [] = EMPTY_CODE_HASH"
  shows "read_as (store_errs fails) s (with_reader E get pre chain_id (\<lambda>rd. reader_call E get rd method params)) (history_call E h hist method params)"
proof -
  obtain r st where load: "worker_load E get pre chain_id s = (r, st)" by (rule prod.exhaust)
  note loaded = worker_load_correct [OF rep refl, unfolded load]
  show ?thesis
  proof (cases r)
    case (Inl e)
    with load loaded show ?thesis by (simp add: with_reader_def read_as_def)
  next
    case (Inr rd)
    with loaded have rd: "wk_prefix rd = pre" "worker_rep E (beneath pre (contents s)) rd h hist" "reads pre (beneath pre (contents s)) st"
      "spent request_meter (request_new s) 1 MAX_HEAD st" by simp_all
    have "reads (wk_prefix rd) (beneath pre (contents s)) st" using rd(1,3) by simp
    from reader_call_correct [OF rd(2) this rd(4) runs empty, of "method" params] load Inr
    show ?thesis
      by (cases "reader_call E get rd method params st"; cases "fst (reader_call E get rd method params st)")
        (auto simp: with_reader_def read_as_def)
  qed
qed

end

text \<open>The environment of a Worker that serves an archive.\<close>

definition serves_env :: "'s worker_env \<Rightarrow> u64 \<Rightarrow> string \<Rightarrow> 's bucket \<Rightarrow> bool" where
  "serves_env env chain_id pre bucket \<longleftrightarrow>
     configured_chain_id env = Inr chain_id \<and> archive_prefix env = Inr pre \<and> env_bucket env = Some bucket"

lemma dispatch_rpc_history:
  assumes bucket: "bucket_ok bucket contents" and env: "serves_env env chain_id pre bucket"
    and rep: "archive_rep E (beneath pre (contents s)) chain_id (Some (h, hist))" "nonzero (store_holds E (beneath pre (contents s)))"
    and runs: "length (head_runs h) \<le> 15" and empty: "keccak256 E [] = EMPTY_CODE_HASH"
  shows "fst (dispatch_rpc E env method params s) = history_rpc E h hist method params \<or>
    bucket_flaky bucket \<and> fst (dispatch_rpc E env method params s) = Inl (ArchiveFail Backend)"
proof -
  have chain: "hd_chain_id h = chain_id" using rep(1) by (auto simp: archive_rep_def)
  have pure: "fst (as_dispatch (bind_a (lift_r r) (\<lambda>_. ret x)) s) = fst (as_dispatch (bind_a (lift_r r) (\<lambda>_. ret x)) t)" for r x and s :: 's and t :: unit
    by (cases r) (simp_all add: as_dispatch_def bind_a_def lift_r_def ret_def)
  show ?thesis
  proof (cases "method \<in> {''eth_blockNumber'', ''eth_getBalance'', ''eth_getTransactionCount'', ''eth_getCode'', ''eth_getStorageAt''}")
    case True
    from object_store.with_reader_correct [OF r2_store [OF bucket] rep runs empty, of "method" params]
    have "read_as (store_errs (\<lambda>a. bucket_flaky bucket \<and> a = Backend)) s (dispatch_archive E env method params) (history_call E h hist method params)"
      using env True by (auto simp: dispatch_archive_def serves_env_def bind_a_def lift_r_def read_as_def)
    then have "fst (as_dispatch (dispatch_archive E env method params) s) = fst (as_dispatch (history_call E h hist method params) ()) \<or>
        bucket_flaky bucket \<and> fst (as_dispatch (dispatch_archive E env method params) s) = Inl (ArchiveFail Backend)"
      by (cases "dispatch_archive E env method params s"; cases "fst (dispatch_archive E env method params s)";
          cases "history_call E h hist method params ()"; cases "fst (history_call E h hist method params ())")
        (auto simp: read_as_def as_dispatch_def store_errs_def)
    with True show ?thesis by (auto simp: dispatch_rpc_def history_rpc_def)
  next
    case False
    show ?thesis
    proof (cases "method = ''eth_chainId''")
      case True
      then show ?thesis
        using env pure [of "require_params params 0" "JString (worker_quantity chain_id)" s "()"]
        by (simp add: dispatch_rpc_def history_rpc_def dispatch_archive_def serves_env_def chain bind_a_def lift_r_def)
    next
      case other: False
      with False show ?thesis by (auto simp: dispatch_rpc_def history_rpc_def pure)
    qed
  qed
qed

end
