(* ===== verification/Rpc_Spec.thy ===== *)
theory Rpc_Spec
  imports Rpc
begin

text \<open>
  What the JSON-RPC services promise, stated without their code: which block a selector names, which slot
  a text names, what each method answers from the histories of a head, which calls are refused and with
  which code, and the form of a response. The server and the Worker are measured against these rules. The
  theory also shows that the dispatch of the server follows them over the histories.
\<close>

section \<open>Parameters\<close>

inductive block_named :: "u64 \<Rightarrow> json \<Rightarrow> u64 \<Rightarrow> bool" for number :: u64 where
  latest: "tag \<in> {''latest'', ''safe'', ''finalized''} \<Longrightarrow> block_named number (JString tag) number"
| earliest: "block_named number (JString ''earliest'') 0"
| numbered: "n \<le> number \<Longrightarrow> block_named number (JString (quantity n)) n"
| by_number: "block_named number (JString t) n \<Longrightarrow> block_named number (JObject [(''blockNumber'', JString t)]) n"

text \<open>A slot is named by its digits, with or without leading zeros.\<close>

inductive slot_named :: "'x ext_scheme \<Rightarrow> json \<Rightarrow> hash32 \<Rightarrow> bool" for E :: "'x ext_scheme" where
  slot_digits: "d \<noteq> [] \<Longrightarrow> replicate (64 - length d) CHR ''0'' @ d = hex_encode E (h32_be slot) \<Longrightarrow> slot_named E (JString (''0x'' @ d)) slot"

section \<open>Replies\<close>

datatype reply = Answer json | Later_block | Unknown_method | Invalid_call | Bad_request | Internal_failure

fun reply_code :: "reply \<Rightarrow> int" where
  "reply_code Later_block = -32001"
| "reply_code Unknown_method = -32601"
| "reply_code Invalid_call = -32602"
| "reply_code Bad_request = -32600"
| "reply_code _ = -32603"

definition account_methods :: "string set" where
  "account_methods = {''eth_getBalance'', ''eth_getTransactionCount'', ''eth_getCode''}"

definition rpc_methods :: "string set" where
  "rpc_methods = account_methods \<union> {''eth_getStorageAt'', ''eth_chainId'', ''eth_blockNumber'', ''web3_clientVersion''}"

text \<open>The reply to a call over the histories of a head; \<open>version\<close> is the name of the software.\<close>

inductive rpc_reply ::
  "'x ext_scheme \<Rightarrow> string \<Rightarrow> head \<Rightarrow> (bytes \<Rightarrow> krecord list) \<Rightarrow> string \<Rightarrow> json \<Rightarrow> reply \<Rightarrow> bool"
  for E :: "'x ext_scheme" and version :: string and h :: head and hist :: "bytes \<Rightarrow> krecord list" where
  client_version: "rpc_reply E version h hist ''web3_clientVersion'' (JArray []) (Answer (JString version))"
| chain_id: "rpc_reply E version h hist ''eth_chainId'' (JArray []) (Answer (JString (quantity (hd_chain_id h))))"
| block_number: "rpc_reply E version h hist ''eth_blockNumber'' (JArray []) (Answer (JString (quantity (hd_number h))))"
| balance: "rpc_reply E version h hist ''eth_getBalance'' (JArray [JString (address_string E a), sel])
      (Answer (JString (quantity_u256 E (case x of None \<Rightarrow> 0 | Some e \<Rightarrow> ae_balance e))))"
    if "block_named (hd_number h) sel n" "account_at hist a n = Inr x"
| transaction_count: "rpc_reply E version h hist ''eth_getTransactionCount'' (JArray [JString (address_string E a), sel])
      (Answer (JString (quantity (case x of None \<Rightarrow> 0 | Some e \<Rightarrow> ae_nonce e))))"
    if "block_named (hd_number h) sel n" "account_at hist a n = Inr x"
| code: "rpc_reply E version h hist ''eth_getCode'' (JArray [JString (address_string E a), sel]) (Answer (JString (''0x'' @ hex_encode E bs)))"
    if "block_named (hd_number h) sel n" "code_at E hist a n = Inr bs"
| storage: "rpc_reply E version h hist ''eth_getStorageAt'' (JArray [JString (address_string E a), digits, sel])
      (Answer (JString (''0x'' @ hex_encode E (h32_be v))))"
    if "slot_named E digits slot" "block_named (hd_number h) sel n" "storage_at hist a slot n = Inr v"
| later: "rpc_reply E version h hist m (JArray [JString (address_string E a), JString (quantity k)]) Later_block"
    if "m \<in> account_methods" "hd_number h < k"
| later_storage: "rpc_reply E version h hist ''eth_getStorageAt'' (JArray [JString (address_string E a), digits, JString (quantity k)]) Later_block"
    if "slot_named E digits slot" "hd_number h < k"
| pending: "rpc_reply E version h hist m (JArray [JString (address_string E a), JString ''pending'']) Invalid_call" if "m \<in> account_methods"
| by_hash: "rpc_reply E version h hist m (JArray [JString (address_string E a), JObject obj]) Invalid_call"
    if "m \<in> account_methods" "map_of obj ''blockNumber'' = None"
| account_arity: "rpc_reply E version h hist m (JArray ps) Invalid_call" if "m \<in> account_methods" "length ps \<noteq> 2"
| storage_arity: "rpc_reply E version h hist ''eth_getStorageAt'' (JArray ps) Invalid_call" if "length ps \<noteq> 3"
| no_array: "rpc_reply E version h hist m params Invalid_call" if "m \<in> account_methods \<union> {''eth_getStorageAt''}" "as_array params = None"
| unknown: "rpc_reply E version h hist m params Unknown_method" if "m \<notin> rpc_methods"

text \<open>A response: the result, or an error with the code of the reply, beside the identifier of the request.\<close>

inductive response :: "json \<Rightarrow> reply \<Rightarrow> json \<Rightarrow> bool" for i :: json where
  result: "response i (Answer v) (JObject [(''jsonrpc'', JString ''2.0''), (''id'', i), (''result'', v)])"
| error: "response i r (JObject [(''jsonrpc'', JString ''2.0''), (''id'', i), (''error'', JObject members)])"
    if "\<forall>v. r \<noteq> Answer v" "map_of members ''code'' = Some (JNumber (NegInt (reply_code r)))"

text \<open>The identifiers a client may choose: null, a string or an integer that a double represents exactly.\<close>

definition request_id :: "json \<Rightarrow> bool" where
  "request_id i \<longleftrightarrow> i = JNull \<or> (\<exists>t. i = JString t) \<or> (\<exists>n. i = JNumber (PosInt n) \<and> unat n < 2 ^ 53) \<or>
     (\<exists>n. i = JNumber (NegInt n) \<and> \<bar>n\<bar> < 2 ^ 53)"

inductive_simps response_Answer [simp]: "response i (Answer v) x"

lemma response_error [simp]:
  "\<forall>v. r \<noteq> Answer v \<Longrightarrow> code = reply_code r \<Longrightarrow> response i r (rpc_error_value i code msg)"
  by (cases r) (auto simp: rpc_error_value_def json_int_def intro!: response.error)

text \<open>What a response to one message says: a request of version 2.0 gets its reply, anything else is refused.\<close>

definition answers_message :: "'x ext_rpc_scheme \<Rightarrow> string \<Rightarrow> head \<Rightarrow> (bytes \<Rightarrow> krecord list) \<Rightarrow> json \<Rightarrow> json \<Rightarrow> bool" where
  "answers_message E version h hist v resp \<longleftrightarrow>
     (\<forall>req r. request_from_json E v = Inr req \<and> req_jsonrpc req = Some ''2.0'' \<and>
        rpc_reply E version h hist (req_method req) (req_params req) r \<longrightarrow> response (req_id req) r resp) \<and>
     ((\<forall>req. request_from_json E v = Inr req \<longrightarrow> req_jsonrpc req \<noteq> Some ''2.0'') \<longrightarrow> response JNull Bad_request resp)"

section \<open>The server over the histories\<close>

lemma plain_tag:
  "select_number (history_backend E h hist) (JString (quantity n)) = (if n \<le> hd_number h then Inr n else bail ''block unavailable'')"
proof -
  have tag: "quantity n \<noteq> c # cs" if "c \<noteq> CHR ''0''" for c cs using that by (simp add: quantity_def)
  show ?thesis
    by (cases "n \<le> hd_number h") (simp_all add: select_number_def history_backend_def tag parse_quantity_print not_le not_less)
qed

lemma named_selected: "block_named (hd_number h) v n \<Longrightarrow> resolve_plain (history_backend E h hist) v = Inr n"
proof (induction rule: block_named.induct)
  case (latest tag)
  then show ?case by (auto simp: resolve_plain_def select_number_def history_backend_def)
next
  case earliest
  then show ?case by (simp add: resolve_plain_def select_number_def history_backend_def)
next
  case (numbered n)
  then show ?case by (simp add: resolve_plain_def plain_tag)
next
  case (by_number t n)
  then show ?case by (simp add: resolve_plain_def)
qed

lemma named_slot: "hex_roundtrip E \<Longrightarrow> slot_named E v slot \<Longrightarrow> rpc_parse_slot E v = Inr slot"
proof (erule slot_named.cases)
  fix d sl assume E: "hex_roundtrip E" and d: "v = JString (''0x'' @ d)" "slot = sl" "d \<noteq> []"
    "replicate (64 - length d) CHR ''0'' @ d = hex_encode E (h32_be sl)"
  have "length (replicate (64 - length d) CHR ''0'' @ d) = 64" unfolding d(4) by (simp add: hex_roundtripD(2) [OF E])
  then have len: "length d \<le> 64" by simp
  have "hash32_parse E (''0x'' @ replicate (64 - length d) CHR ''0'' @ d) = Inr sl"
    using hash32_parse_string [OF E, of sl] unfolding d(4) by (simp add: hash32_string_def)
  then show ?thesis using d(1-3) len by (cases "length d = 64") (simp_all add: rpc_parse_slot_def rpc_err_def strip_prefix_def)
qed

lemma data_slot: "hex_roundtrip E \<Longrightarrow> slot_named E (JString (data32 E slot)) slot"
proof -
  assume E: "hex_roundtrip E"
  have len: "length (hex_encode E (h32_be slot)) = 64" by (simp add: hex_roundtripD(2) [OF E])
  then have "hex_encode E (h32_be slot) \<noteq> []" by auto
  from slot_named.slot_digits [OF this, of E slot] len show ?thesis by (simp add: data32_def)
qed

text \<open>How a dispatch of the server gives a reply.\<close>

definition gives :: "rpc_error + json \<Rightarrow> reply \<Rightarrow> bool" where
  "gives r reply = (case reply of Answer v \<Rightarrow> r = Inr v | _ \<Rightarrow> \<exists>msg. r = Inl \<lparr>re_code = reply_code reply, re_message = msg\<rparr>)"

lemma gives_simps [simp]:
  "gives r (Answer v) \<longleftrightarrow> r = Inr v" "gives (Inl e) Later_block \<longleftrightarrow> re_code e = -32001" "gives (Inl e) Unknown_method \<longleftrightarrow> re_code e = -32601"
  "gives (Inl e) Invalid_call \<longleftrightarrow> re_code e = -32602"
  by (cases e; simp add: gives_def)+

lemma unavailable_code: "re_code (rpc_selector (Bail ''block unavailable'')) = -32001"
proof -
  have "str_contains ''block unavailable'' ''block unavailable''" by (subst str_contains.simps) simp
  then show ?thesis by (simp add: rpc_selector_def)
qed

lemma selector_codes:
  "re_code (rpc_selector (Bail ''pending is unsupported'')) = -32602"
  "re_code (rpc_selector (Bail ''block-hash selectors are unsupported until a bounded durable hash index exists'')) = -32602"
  by (simp_all add: rpc_selector_def str_contains.simps)

theorem dispatch_reply:
  assumes E: "hex_roundtrip E" and "rpc_reply E (''fossil/'' @ CARGO_PKG_VERSION) h hist m ps r"
    and req: "req_method req = m" "req_params req = ps"
  shows "gives (fst (dispatch E (history_backend E h hist) req ())) r"
proof -
  have address: "rpc_parse_address E (JString (address_string E a)) = Inr a" for a
    using address_parse_string [OF E] by (simp add: rpc_parse_address_def rpc_err_def)
  have zero: "quantity_u256 E 0 = ''0x0''" "quantity 0 = ''0x0''" by code_simp+
  have select: "resolve_selector E (history_backend E h hist) v = lift_r (resolve_plain (history_backend E h hist) v)" for v
    by (rule resolve_selector_plain) (simp add: history_backend_def)
  have reads: "be_account_at (history_backend E h hist) a n = lift_r (account_at hist a n)"
    "be_code_at (history_backend E h hist) a n = lift_r (code_at E hist a n)"
    "be_storage_at (history_backend E h hist) a slot n = lift_r (storage_at hist a slot n)"
    "be_chain_id (history_backend E h hist) = hd_chain_id h" "be_published_number (history_backend E h hist) = hd_number h" for a slot n
    by (simp_all add: history_backend_def)
  note eval = dispatch_def Let_def rpc_params_def rpc_bind_def rpc_lift_def map_err_a_def lift_r_def address select reads rpc_invalid_def
  from assms(2) show ?thesis unfolding req [symmetric]
  proof cases
    case (balance sel n a x)
    then show ?thesis using named_selected [OF balance(4), of E hist] zero by (cases x) (simp_all add: eval)
  next
    case (transaction_count sel n a x)
    then show ?thesis using named_selected [OF transaction_count(4), of E hist] zero by (cases x) (simp_all add: eval)
  next
    case (code sel n a bs)
    then obtain x where "account_at hist a n = Inr x" by (auto simp: code_at_def live_account_def)
    then show ?thesis using code named_selected [OF code(4), of E hist] by (simp add: eval)
  next
    case (storage digits slot sel n a v)
    then show ?thesis using named_selected [OF storage(5), of E hist] named_slot [OF E storage(4)] by (simp add: eval data32_def)
  next
    case (later k a)
    then show ?thesis using unavailable_code by (auto simp: eval account_methods_def resolve_plain_def plain_tag not_le bail_def)
  next
    case (later_storage digits slot k a)
    then show ?thesis using unavailable_code named_slot [OF E later_storage(4)]
      by (auto simp: eval resolve_plain_def plain_tag not_le bail_def)
  next
    case (pending a)
    then show ?thesis using selector_codes(1)
      by (auto simp: eval account_methods_def resolve_plain_def select_number_def bail_def)
  next
    case (by_hash obj a)
    then show ?thesis using selector_codes(2) by (auto simp: eval account_methods_def resolve_plain_def bail_def)
  next
    case (unknown)
    then show ?thesis by (simp add: eval rpc_methods_def account_methods_def)
  qed (auto simp: eval account_methods_def split: option.splits)
qed

lemma gives_response:
  assumes "gives r reply"
  shows "response i reply (case r of Inr v \<Rightarrow> JObject [(''jsonrpc'', JString ''2.0''), (''id'', i), (''result'', v)]
    | Inl e \<Rightarrow> rpc_error_value i (re_code e) (re_message e))"
  using assms by (cases reply) (auto simp: gives_def)

lemma handle_value_answers:
  assumes "hex_roundtrip E"
  shows "answers_message E (''fossil/'' @ CARGO_PKG_VERSION) h hist v (fst (handle_value E (history_backend E h hist) v ()))"
proof (cases "\<exists>req. request_from_json E v = Inr req \<and> req_jsonrpc req = Some ''2.0''")
  case True
  then obtain req where req: "request_from_json E v = Inr req" "req_jsonrpc req = Some ''2.0''" by blast
  obtain r where d: "dispatch E (history_backend E h hist) req () = (r, ())" by (metis prod.exhaust unit.exhaust)
  have resp: "fst (handle_value E (history_backend E h hist) v ()) =
      (case r of Inr v \<Rightarrow> JObject [(''jsonrpc'', JString ''2.0''), (''id'', req_id req), (''result'', v)]
       | Inl e \<Rightarrow> rpc_error_value (req_id req) (re_code e) (re_message e))"
    using req d by (cases r) (simp_all add: handle_value_def)
  have "response (req_id req) reply (fst (handle_value E (history_backend E h hist) v ()))"
    if "rpc_reply E (''fossil/'' @ CARGO_PKG_VERSION) h hist (req_method req) (req_params req) reply" for reply
    unfolding resp using dispatch_reply [OF assms that refl refl] d by (intro gives_response) simp
  with req show ?thesis by (simp add: answers_message_def)
next
  case False
  then have "fst (handle_value E (history_backend E h hist) v ()) = rpc_error_value JNull (-32600) ''invalid request''"
    by (cases "request_from_json E v") (auto simp: handle_value_def)
  with False show ?thesis by (auto simp: answers_message_def)
qed

lemma handle_each_answers:
  assumes "hex_roundtrip E"
  shows "list_all2 (answers_message E (''fossil/'' @ CARGO_PKG_VERSION) h hist) vs (fst (handle_each E (history_backend E h hist) vs ()))"
proof (induction vs)
  case (Cons v vs)
  then show ?case using handle_value_answers [OF assms, of h hist v] by (simp add: case_prod_beta)
qed simp

end
