(* ===== verification/Small_Run.thy ===== *)
theory Small_Run
  imports Compact
begin

text \<open>
  Runs whose records share the first partition and fit one data page, computed in closed form,
  and a concrete choice of the third-party operations on which they are written: a base-16
  encoding, an uncompressed page codec and a checksum in the place of the hashes. The closed
  forms give concrete archives on which the hypotheses of the properties hold.
\<close>

section \<open>Building one page\<close>

definition small :: "'x ext_scheme \<Rightarrow> krecord list \<Rightarrow> bool" where
  "small E recs \<longleftrightarrow> recs \<noteq> [] \<and> ssorted (map rec_vkey recs) \<and> length (page_payload recs) \<le> 100000 \<and>
     zstd_encode E (page_payload recs) = Inr (page_payload recs) \<and>
     (\<forall>r\<in>set recs. rec_key r \<noteq> [] \<and> run_partition E (rec_key r) = 0)"

definition object_of :: "'x ext_scheme \<Rightarrow> bytes \<Rightarrow> encoded_object" where
  "object_of E bs = \<lparr>obj_reference = \<lparr>ref_digest = sha256 E bs, ref_length = word_of_nat (length bs)\<rparr>, obj_bytes = bs\<rparr>"

definition small_page :: "'x ext_scheme \<Rightarrow> krecord list \<Rightarrow> encoded_object" where
  "small_page E recs = object_of E (page_object_bytes (page_payload recs) (page_payload recs))"

definition small_fence :: "'x ext_scheme \<Rightarrow> krecord list \<Rightarrow> fence" where
  "small_fence E recs = \<lparr>fence_key = rec_key (hd recs), fence_block = rec_block (hd recs), fence_data = obj_reference (small_page E recs)\<rparr>"

definition small_leaf :: "'x ext_scheme \<Rightarrow> krecord list \<Rightarrow> encoded_object" where
  "small_leaf E recs = object_of E (index_payload INDEX_MAGIC [small_fence E recs])"

definition small_root :: "'x ext_scheme \<Rightarrow> krecord list \<Rightarrow> encoded_object" where
  "small_root E recs = object_of E (root_bytes (obj_reference (small_leaf E recs) # replicate 15 default_ref))"

lemma make_object_of: "length bs < 2 ^ 32 \<Longrightarrow> make_object E bs = Inr (object_of E bs)"
  by (simp add: make_object_iff object_of_def)

text \<open>The builder's state after some records.\<close>

definition small_state :: "krecord list \<Rightarrow> bstate" where
  "small_state recs = build_start\<lparr>b_pages := (b_pages build_start)[0 := data_page_start @ concat (map rec_bytes recs)],
     b_counts := (b_counts build_start)[0 := word_of_nat (length recs)],
     b_previous := map_option rec_vkey (last_opt recs)\<rparr>"

lemma length_recs_payload: "r \<in> set recs \<Longrightarrow> length (rec_bytes r) + 9 \<le> length (page_payload recs)"
  by (auto simp: length_page_payload dest!: split_list)

lemma data_page_start_length: "length data_page_start = 9"
  by (simp add: data_page_start_def)

lemma replicate_update_0 [simp]: "(replicate n x)[0 := x] = replicate n x"
  by (cases n) simp_all

lemma small_records:
  assumes "ssorted (map rec_vkey recs)" "length (page_payload recs) \<le> 100000"
    and "\<forall>r\<in>set recs. rec_key r \<noteq> [] \<and> run_partition E (rec_key r) = 0"
  shows "fold_a (build_record E emit) build_start recs s = (Inr (small_state recs), s)"
  using assms
proof (induction recs rule: rev_induct)
  case Nil
  then show ?case by (simp add: small_state_def build_start_def PARTITIONS_def last_opt_def)
next
  case (snoc r recs)
  have "fold_a (build_record E emit) build_start recs s = (Inr (small_state recs), s)"
    using snoc.prems by (intro snoc.IH) (auto simp: ssorted_append length_page_payload)
  moreover have "build_record E emit (small_state recs) r s = (Inr (small_state (recs @ [r])), s)"
  proof -
    have len: "length (rec_bytes r) + length (concat (map rec_bytes recs)) + 9 \<le> 100000"
      using snoc.prems(2) by (simp add: length_page_payload)
    then have e: "encode_record r = Inr (rec_bytes r)"
      by (simp add: encode_record_iff length_rec_bytes)
    have "\<not> (case b_previous (small_state recs) of None \<Rightarrow> False | Some previous \<Rightarrow> previous \<ge> rec_vkey r)"
      using snoc.prems(1) last_in_set [of recs] by (auto simp: small_state_def last_opt_def ssorted_append not_le)
    moreover have "\<not> length (rec_key r) + length (rec_value r) + 25 > MAX_PAGE_BYTES"
      "\<not> length (data_page_start @ concat (map rec_bytes recs)) + length (rec_bytes r) > MAX_PAGE_BYTES"
      using len by (simp_all add: MAX_PAGE_BYTES_def length_rec_bytes data_page_start_length)
    moreover have "b_pages (small_state recs) ! 0 = data_page_start @ concat (map rec_bytes recs)"
      "b_counts (small_state recs) ! 0 = word_of_nat (length recs)"
      by (simp_all add: small_state_def build_start_def PARTITIONS_def)
    ultimately show ?thesis
      using snoc.prems(3) e
      by (simp add: build_record_def Let_def del: length_append) (simp add: small_state_def build_start_def PARTITIONS_def last_opt_def add.commute)
  qed
  ultimately show ?case by (simp add: fold_a_append)
qed

lemma build_finish_skip: "b_counts b ! p = 0 \<Longrightarrow> b_leaves b ! p = [] \<Longrightarrow> build_finish E emit b p s = (Inr b, s)"
  by (simp add: build_finish_def)

lemma build_finish_skips:
  "\<forall>p\<in>set ps. b_counts b ! p = 0 \<and> b_leaves b ! p = [] \<Longrightarrow> fold_a (build_finish E emit) b ps s = (Inr b, s)"
  by (induction ps) (simp_all add: build_finish_skip bind_a_step)

lemma build_root_slots_absent:
  "fold_a (build_root_slot E emit) root (replicate n []) s = (Inr (root @ concat (replicate n (ref_bytes default_ref))), s)"
  by (induction n arbitrary: root) (simp_all add: build_root_slot_def put_ref_def ref_bytes_def bind_a_step)

lemma small_page_length:
  "small E recs \<Longrightarrow> length (page_object_bytes (page_payload recs) (page_payload recs)) \<le> 100013"
  by (simp add: small_def length_page_object_bytes)

lemma small_first: "small E recs \<Longrightarrow> decode_first_record E (page_payload recs) = Inr (hd recs)"
proof -
  assume *: "small E recs"
  have "length (rec_bytes r) \<le> 100000" if "r \<in> set recs" for r
    using length_recs_payload [OF that] * by (simp add: small_def)
  then have "\<forall>r\<in>set recs. rec_ok E None r" using * by (force simp: small_def rec_ok_def length_rec_bytes)
  moreover have "length recs < 2 ^ 32"
    using length_recs_le [of recs] * by (simp add: small_def length_page_payload)
  ultimately have "parse_data_payload E (page_payload recs) None = Inr recs"
    using * by (simp add: parse_data_payload_iff small_def)
  then show ?thesis using * by (cases recs) (simp_all add: decode_first_record_def small_def)
qed

text \<open>The state after the page and the leaf of the first partition are emitted.\<close>

definition small_end :: "'x ext_scheme \<Rightarrow> krecord list \<Rightarrow> bstate" where
  "small_end E recs = build_start\<lparr>b_parents := (b_parents build_start)[0 :=
     [\<lparr>fence_key = rec_key (hd recs), fence_block = rec_block (hd recs), fence_data = obj_reference (small_leaf E recs)\<rparr>]],
     b_previous := map_option rec_vkey (last_opt recs)\<rparr>"

lemma small_index_size:
  assumes "small E recs"
  shows "index_size [f\<lparr>fence_key := rec_key (hd recs)\<rparr>] \<le> MAX_INDEX_BYTES"
proof -
  have "hd recs \<in> set recs" using assms by (simp add: small_def)
  then have "length (rec_key (hd recs)) \<le> 100000"
    using length_recs_payload [of "hd recs" recs] assms by (simp add: small_def length_rec_bytes)
  then show ?thesis by (simp add: index_size_def MAX_INDEX_BYTES_def REF_BYTES_def)
qed

lemma small_flush:
  assumes "small E recs" and emit: "emit (small_page E recs) s = (Inr (), t)"
  shows "flush_page E emit 0 (small_state recs) s = (Inr (build_start\<lparr>b_leaves := (b_leaves build_start)[0 := [small_fence E recs]],
    b_previous := map_option rec_vkey (last_opt recs)\<rparr>), t)"
proof -
  have count: "word_of_nat (length recs) \<noteq> (0 :: u32)"
  proof
    assume "word_of_nat (length recs) = (0 :: u32)"
    then have "length recs mod 2 ^ 32 = 0" by (simp add: word_of_nat_eq_0_iff dvd_eq_mod_eq_0)
    moreover have "length recs < 2 ^ 32" using length_recs_le [of recs] assms(1) by (simp add: small_def length_page_payload)
    ultimately show False using assms(1) by (simp add: small_def)
  qed
  have fields: "b_counts (small_state recs) ! 0 = word_of_nat (length recs)"
    "b_pages (small_state recs) ! 0 = data_page_start @ concat (map rec_bytes recs)"
    "b_leaves (small_state recs) = b_leaves build_start" "b_leaves build_start ! 0 = []"
    by (simp_all add: small_state_def build_start_def PARTITIONS_def)
  have page: "take 5 (data_page_start @ concat (map rec_bytes recs)) @ u32_be (word_of_nat (length recs)) @
      drop 9 (data_page_start @ concat (map rec_bytes recs)) = page_payload recs"
    by (simp add: data_page_start_def page_payload_def)
  have bounds: "\<not> (length (page_payload recs) > MAX_PAGE_BYTES \<or> length (page_object_bytes (page_payload recs) (page_payload recs)) > MAX_PAGE_BYTES)"
    using assms(1) by (simp add: small_def length_page_object_bytes MAX_PAGE_BYTES_def)
  have object: "make_object E (page_object_bytes (page_payload recs) (page_payload recs)) = Inr (small_page E recs)"
    using small_page_length [OF assms(1)] by (simp add: small_page_def make_object_of)
  have "index_size [small_fence E recs] \<le> MAX_INDEX_BYTES"
    using small_index_size [OF assms(1), of "small_fence E recs"] by (simp add: small_fence_def)
  then have leaf: "append_leaf_fence E emit 0 (small_fence E recs) (small_state recs) t =
      (Inr ((small_state recs)\<lparr>b_leaves := (b_leaves build_start)[0 := [small_fence E recs]]\<rparr>), t)"
    by (simp add: append_leaf_fence_def fields)
  have "zstd_encode E (page_payload recs) = Inr (page_payload recs)" using assms(1) by (simp add: small_def)
  moreover have emit': "ctx_a msg (emit (small_page E recs)) s = (Inr (), t)" for msg using emit by simp
  ultimately show ?thesis
    unfolding flush_page_def Let_def fields if_not_P [OF count] page small_first [OF assms(1)] bind_a_ret
      page_object_bytes_def [symmetric]
    unfolding \<open>zstd_encode E (page_payload recs) = Inr (page_payload recs)\<close> bind_a_ret if_not_P [OF bounds] object
      bind_a_step(1) [where m = "ctx_a msg (emit (small_page E recs))" for msg, OF emit'] small_fence_def [symmetric]
      bind_a_step(1) [where m = "append_leaf_fence E emit 0 (small_fence E recs) (small_state recs)", OF leaf]
    by (simp add: small_state_def build_start_def PARTITIONS_def)
qed

lemma small_emit_leaf:
  assumes "small E recs" and emit: "emit (small_leaf E recs) s = (Inr (), t)"
  shows "emit_leaf E emit 0 (build_start\<lparr>b_leaves := (b_leaves build_start)[0 := [small_fence E recs]],
    b_previous := map_option rec_vkey (last_opt recs)\<rparr>) s = (Inr (small_end E recs), t)"
proof -
  have size: "index_size [small_fence E recs] \<le> MAX_INDEX_BYTES"
    using small_index_size [OF assms(1), of "small_fence E recs"] by (simp add: small_fence_def)
  then have "encode_index [small_fence E recs] INDEX_MAGIC = Inr (index_payload INDEX_MAGIC [small_fence E recs])"
    by (simp add: encode_index_iff)
  moreover have "make_object E (index_payload INDEX_MAGIC [small_fence E recs]) = Inr (small_leaf E recs)"
    using size bounds_u32(1) by (simp add: small_leaf_def make_object_of length_index_payload)
  moreover have "\<not> index_size [\<lparr>fence_key = rec_key (hd recs), fence_block = rec_block (hd recs), fence_data = obj_reference (small_leaf E recs)\<rparr>] > MAX_INDEX_BYTES"
    using small_index_size [OF assms(1), of "\<lparr>fence_key = [], fence_block = rec_block (hd recs), fence_data = obj_reference (small_leaf E recs)\<rparr>"] by simp
  ultimately show ?thesis
    using emit by (simp add: emit_leaf_def build_start_def PARTITIONS_def Let_def bind_a_step ctx_a_step last_opt_simps(1))
      (simp add: small_end_def small_fence_def build_start_def PARTITIONS_def)
qed

definition small_objects :: "'x ext_scheme \<Rightarrow> krecord list \<Rightarrow> (string \<times> bytes) list" where
  "small_objects E recs = map (\<lambda>ob. (object_key E (ref_digest (obj_reference ob)), obj_bytes ob))
     [small_page E recs, small_leaf E recs, small_root E recs]"

lemma small_build:
  assumes "small E recs"
  shows "build E (push_object E) recs [] = (Inr (obj_reference (small_root E recs)), small_objects E recs)"
proof -
  let ?kv = "\<lambda>ob. (object_key E (ref_digest (obj_reference ob)), obj_bytes ob)"
  let ?mid = "build_start\<lparr>b_leaves := (b_leaves build_start)[0 := [small_fence E recs]], b_previous := map_option rec_vkey (last_opt recs)\<rparr>"
  have records: "fold_a (build_record E (push_object E)) build_start recs [] = (Inr (small_state recs), [])"
    using assms by (intro small_records) (simp_all add: small_def)
  have "b_counts (small_state recs) ! 0 \<noteq> 0"
  proof
    assume "b_counts (small_state recs) ! 0 = 0"
    then have "length recs mod 2 ^ 32 = 0"
      by (simp add: small_state_def build_start_def PARTITIONS_def word_of_nat_eq_0_iff dvd_eq_mod_eq_0)
    moreover have "length recs < 2 ^ 32" using length_recs_le [of recs] assms by (simp add: small_def length_page_payload)
    ultimately show False using assms by (simp add: small_def)
  qed
  moreover have "flush_page E (push_object E) 0 (small_state recs) [] = (Inr ?mid, [?kv (small_page E recs)])"
    by (rule small_flush [OF assms]) (simp add: push_object_def)
  moreover have "emit_leaf E (push_object E) 0 ?mid [?kv (small_page E recs)] =
      (Inr (small_end E recs), [?kv (small_page E recs), ?kv (small_leaf E recs)])"
    by (rule small_emit_leaf [OF assms]) (simp add: push_object_def)
  moreover have "b_leaves ?mid ! 0 \<noteq> []" by (simp add: build_start_def PARTITIONS_def)
  ultimately have "build_finish E (push_object E) (small_state recs) 0 [] =
      (Inr (small_end E recs), [?kv (small_page E recs), ?kv (small_leaf E recs)])"
    by (simp add: build_finish_def)
  moreover have "[0..<PARTITIONS] = 0 # [1..<PARTITIONS]" by (simp add: PARTITIONS_def upt_conv_Cons)
  moreover have "fold_a (build_finish E (push_object E)) (small_end E recs) [1..<PARTITIONS] t = (Inr (small_end E recs), t)" for t
    by (rule build_finish_skips) (simp add: small_end_def build_start_def)
  ultimately have finish: "fold_a (build_finish E (push_object E)) (small_state recs) [0..<PARTITIONS] [] =
      (Inr (small_end E recs), [?kv (small_page E recs), ?kv (small_leaf E recs)])"
    by simp
  have parents: "b_parents (small_end E recs) = [\<lparr>fence_key = rec_key (hd recs), fence_block = rec_block (hd recs),
      fence_data = obj_reference (small_leaf E recs)\<rparr>] # replicate 15 []"
    by (simp add: small_end_def build_start_def PARTITIONS_def numeral_eq_Suc)
  have slots: "fold_a (build_root_slot E (push_object E)) (ROOT_MAGIC @ [VERSION]) (b_parents (small_end E recs)) t =
      (Inr (root_bytes (obj_reference (small_leaf E recs) # replicate 15 default_ref)), t)" for t
    unfolding parents fold_a.simps
    by (simp add: build_root_slot_def put_ref_def build_root_slots_absent root_bytes_def ref_bytes_def)
  have "make_object E (root_bytes (obj_reference (small_leaf E recs) # replicate 15 default_ref)) = Inr (small_root E recs)"
    unfolding small_root_def by (rule make_object_of) (simp add: root_bytes_def length_concat sum_list_replicate)
  then show ?thesis
    using records finish slots by (simp add: build_def push_object_def small_objects_def)
qed

section \<open>Writing one page\<close>

context archive_laws begin

text \<open>Uploads under distinct free keys succeed.\<close>

lemma put_all_fresh:
  assumes "distinct (map fst objects)" "\<forall>k\<in>fst ` set objects. contents s k = None"
  shows "outcome fails (\<lambda>_ s'. contents s' = contents s ++ map_of objects) (put_all S objects s)"
  using assms
proof (induction objects arbitrary: s)
  case Nil
  then show ?case by (simp add: put_all_def)
next
  case (Cons ob objects)
  obtain k b where ob: "ob = (k, b)" by (cases ob)
  have step: "outcome fails (\<lambda>_ t. contents t = (contents s)(k \<mapsto> b)) (st_put_immutable S k b s)"
    using Cons.prems ob by (intro put_fresh) simp
  have rest: "outcome fails (\<lambda>_ s'. contents s' = contents s ++ map_of (ob # objects)) (put_all S objects t)"
    if "contents t = (contents s)(k \<mapsto> b)" for t
  proof -
    have "outcome fails (\<lambda>_ s'. contents s' = contents t ++ map_of objects) (put_all S objects t)"
      using Cons.prems ob that by (intro Cons.IH) auto
    moreover have "(contents s)(k \<mapsto> b) ++ map_of objects = contents s ++ map_of (ob # objects)"
      using Cons.prems(1) ob by (force simp: fun_eq_iff map_add_def split: option.splits dest: map_of_SomeD)
    ultimately show ?thesis using that by (auto elim!: outcome_mono)
  qed
  show ?case unfolding put_all_def fold_a.simps ob prod.case outcome_bind
    by (rule outcome_mono [OF step]) (use rest in \<open>simp_all add: put_all_def ob\<close>)
qed

end

definition small_paths :: "'x ext_scheme \<Rightarrow> krecord list \<Rightarrow> string list" where
  "small_paths E recs = (let run = ref_digest (obj_reference (small_root E recs))
     in [shard_path E run 1 Address 0, shard_path E run 1 Spill 0])"

lemma summary_finish_single:
  assumes "summary_inv E b added" "sb_shards b = 1"
  shows "map fst (summary_finish E b run) = [shard_path E run 1 Address 0, shard_path E run 1 Spill 0]"
proof -
  have "summary_wf (summary_flush E b)" using summary_flush_inv [OF assms(1)] by (simp add: summary_inv_def)
  then have "length (sb_address (summary_flush E b)) = 1" "length (sb_spill (summary_flush E b)) = 1"
    using assms(2) by (simp_all add: summary_wf_def rows_wf_def summary_flush_fields)
  then obtain x y where "sb_address (summary_flush E b) = [x]" "sb_spill (summary_flush E b) = [y]"
    by (auto simp: length_Suc_conv)
  then show ?thesis using assms(2) by (simp add: summary_finish_def Let_def summary_flush_fields)
qed

lemma shard_count_small: "n \<le> 64 \<Longrightarrow> shard_count (word_of_nat n) = 1"
proof -
  assume "n \<le> 64"
  then have "unat (word_of_nat n :: u64) = n" by (simp add: unat_of_nat)
  then have "div_ceil (unat (word_of_nat n :: u64)) SHARD_KEYS \<le> 1" using \<open>n \<le> 64\<close> by (simp add: div_ceil_def SHARD_KEYS_def)
  then show ?thesis by (simp add: shard_count_def max_def next_power_of_two.simps)
qed

lemma small_write:
  assumes "small E recs" "length recs \<le> 64"
    and fresh: "distinct (map fst (small_objects E recs))"
      "\<forall>k\<in>set (map fst (small_objects E recs) @ small_paths E recs). mem_contents s k = None"
      "set (map fst (small_objects E recs)) \<inter> set (small_paths E recs) = {}"
  shows "\<exists>b s'. write_sorted E memory_store recs s = (Inr b, s') \<and> br_root b = obj_reference (small_root E recs) \<and>
    br_root_bytes b = obj_bytes (small_root E recs) \<and>
    dom (mem_contents s') = dom (mem_contents s) \<union> set (map fst (small_objects E recs) @ small_paths E recs)"
proof -
  let ?n = "word_of_nat (length (new_keys recs)) :: u64"
  let ?root = "obj_reference (small_root E recs)"
  have n: "length (new_keys recs) \<le> 64"
    using assms(2) length_filter_le [of _ "enumerate 0 recs"] by (auto simp: new_keys_def intro: order_trans)
  then have "\<exists>b0. summary_new ?n = Inr b0" by (intro summary_new_total) (simp add: unat_of_nat)
  then obtain b0 where b0: "summary_new ?n = Inr b0" ..
  then have one: "sb_shards b0 = 1" using summary_new_inv(2) shard_count_small [OF n] by simp
  let ?sum = "summary_adds E (new_keys recs) b0"
  let ?shards = "summary_finish E ?sum (ref_digest ?root)"
  have keys: "map fst ?shards = small_paths E recs"
    using summary_finish_single [OF summary_adds_inv [OF summary_new_inv(1) [OF b0]]] one by (simp add: small_paths_def Let_def)
  have "distinct (small_paths E recs)" by (simp add: small_paths_def Let_def shard_path_def)
  then have "distinct (map fst ?shards)" by (simp add: keys)
  obtain u t where t: "put_all memory_store (small_objects E recs) s = (Inr u, t)"
    "mem_contents t = mem_contents s ++ map_of (small_objects E recs)"
    using mem.put_all_fresh [OF fresh(1), of s, THEN outcome_total] fresh(2) by auto
  have "\<forall>k\<in>fst ` set ?shards. mem_contents t k = None"
    using fresh(2,3) by (auto simp: t(2) map_add_None map_of_eq_None_iff simp flip: set_map keys)
  from mem.put_all_fresh [OF \<open>distinct (map fst ?shards)\<close> this, THEN outcome_total]
  obtain u' s' where s': "put_all memory_store ?shards t = (Inr u', s')" "mem_contents s' = mem_contents t ++ map_of ?shards"
    by auto
  have "dom (mem_contents s') = dom (mem_contents s) \<union> set (map fst (small_objects E recs) @ small_paths E recs)"
    by (auto simp: s'(2) t(2) dom_map_of_conv_image_fst simp flip: keys)
  moreover have "snd (last (small_objects E recs)) = obj_bytes (small_root E recs)" by (simp add: small_objects_def)
  ultimately show ?thesis
    using t(1) s'(1) by (simp add: write_sorted_def b0 small_build [OF assms(1)] Let_def bind_a_step)
qed

section \<open>Concrete third-party operations\<close>

text \<open>A checksum of the length and of one byte: the last one, or for a root one of its first reference.\<close>

definition sample_sum :: "bytes \<Rightarrow> hash32" where
  "sample_sum bs = word_of_nat (length bs + 1024 * unat (if length bs = 581 then bs ! 35 else if bs = [] then 0 else last bs))"

text \<open>The hash of no code is the one of Keccak-256.\<close>

definition sample_keccak :: "bytes \<Rightarrow> hash32" where
  "sample_keccak bs = (if bs = [] then 0xc5d2460186f7233c927e7db2dcc703c0e500b653ca82273b7bfad8045d85a470 else sample_sum bs)"

definition sample_hex :: "bytes \<Rightarrow> string" where
  "sample_hex bs = concat (map (\<lambda>b. [hex_digit (unat b div 16), hex_digit (unat b mod 16)]) bs)"

definition hex_value :: "char \<Rightarrow> nat option" where
  "hex_value c = map_of (zip ''0123456789abcdef'' [0..<16]) c"

fun sample_unhex :: "string \<Rightarrow> bytes result" where
  "sample_unhex [] = Inr []"
| "sample_unhex (c # d # cs) =
     (case (hex_value c, hex_value d) of
        (Some x, Some y) \<Rightarrow> map_sum id (Cons (word_of_nat (16 * x + y))) (sample_unhex cs)
      | _ \<Rightarrow> bail ''invalid hex character'')"
| "sample_unhex [c] = bail ''odd number of digits''"

definition sample_ext :: ext where
  "sample_ext = \<lparr>sha256 = sample_sum, keccak256 = sample_keccak, zstd_encode = Inr, zstd_decode = (\<lambda>n bs. Inr bs),
     hex_encode = sample_hex, hex_decode = sample_unhex\<rparr>"

text \<open>The lemmas hold for every record of third-party operations that extends this one.\<close>

definition sample_like :: "'x ext_scheme \<Rightarrow> bool" where
  "sample_like E \<longleftrightarrow> ext.truncate E = sample_ext"

lemma sample_like_simps:
  assumes "sample_like E"
  shows "sha256 E = sample_sum" "keccak256 E = sample_keccak" "zstd_encode E = Inr" "zstd_decode E = (\<lambda>n bs. Inr bs)"
    "hex_encode E = sample_hex" "hex_decode E = sample_unhex"
  using assms by (simp_all add: sample_like_def ext.truncate_def sample_ext_def)

lemma sample_like_ext [simp]: "sample_like sample_ext"
  by (simp add: sample_like_def ext.truncate_def sample_ext_def)

lemma hex_value_digit: "n < 16 \<Longrightarrow> hex_value (hex_digit n) = Some n"
proof -
  assume "n < 16"
  then have "n \<in> set [0..<16]" by simp
  moreover have "\<forall>n\<in>set [0..<16]. hex_value (hex_digit n) = Some n" by code_simp
  ultimately show ?thesis by blast
qed

lemma sample_unhex_hex: "sample_unhex (sample_hex bs) = Inr bs"
proof (induction bs)
  case Nil
  then show ?case by (simp add: sample_hex_def)
next
  case (Cons b bs)
  have "unat b < 256" using unsigned_less [of b] by simp
  then have "unat b div 16 < 16" by simp
  with Cons show ?case by (simp add: sample_hex_def hex_value_digit)
qed

lemma sample_hex_inject: "sample_hex a = sample_hex b \<longleftrightarrow> a = b"
  by (metis sample_unhex_hex sum.inject(2))

lemma length_sample_hex: "length (sample_hex bs) = 2 * length bs"
  by (induction bs) (simp_all add: sample_hex_def)

lemma zstd_sample_like: "sample_like E \<Longrightarrow> zstd_roundtrip E"
  by (simp add: zstd_roundtrip_def sample_like_simps)

lemmas zstd_sample = zstd_sample_like [OF sample_like_ext]

lemma sample_object_key_inject:
  assumes like: "sample_like E"
  shows "object_key E d = object_key E d' \<longleftrightarrow> d = d'"
proof
  assume "object_key E d = object_key E d'"
  then have "sample_hex (h32_be d) = sample_hex (h32_be d')"
    by (simp add: object_key_def sample_like_simps [OF like] Let_def) (simp add: append_eq_append_conv length_sample_hex)
  then show "d = d'" by (simp add: sample_hex_inject)
qed simp

lemma to_be_nth: "i < n \<Longrightarrow> to_be n v ! i = word_of_nat (v div 256 ^ (n - 1 - i))"
proof (induction n arbitrary: v)
  case (Suc n)
  show ?case
  proof (cases "i = n")
    case False
    then have "n - i = Suc (n - 1 - i)" "i < n" using Suc.prems by simp_all
    then show ?thesis using Suc.IH [of "v div 256"] by (simp add: nth_append div_mult2_eq)
  qed (simp add: nth_append)
qed simp

lemma h32_be_nth: "i < 32 \<Longrightarrow> h32_be d ! i = word_of_nat (unat d div 256 ^ (31 - i))"
  by (simp add: h32_be_def to_be_nth)

lemma sample_partition:
  assumes like: "sample_like E" and "length key < 2 ^ 32"
  shows "run_partition E key = 0"
proof -
  note assms(2)
  moreover have "unat (b :: u8) < 256" for b using unsigned_less [of b] by simp
  ultimately have "length key + 1024 * unat (if length key = 581 then key ! 35 else if key = [] then 0 else last key) < 2 ^ 32 + 1024 * 256"
    by (intro add_strict_mono mult_strict_left_mono) simp_all
  moreover have "(2::nat) ^ 32 + 1024 * 256 < 256 ^ 31" by simp
  ultimately have "length key + 1024 * unat (if length key = 581 then key ! 35 else if key = [] then 0 else last key) < 256 ^ 31"
    by (rule less_trans)
  then have "unat (sample_sum key) div 256 ^ 31 = 0"
    unfolding sample_sum_def unat_of_nat by (intro div_less) (rule le_less_trans [OF mod_less_eq_dividend])
  then show ?thesis by (simp add: run_partition_def sample_like_simps [OF like] h32_be_nth)
qed

definition small_digests :: "'x ext_scheme \<Rightarrow> krecord list \<Rightarrow> hash32 list" where
  "small_digests E recs = map (\<lambda>ob. ref_digest (obj_reference ob)) [small_page E recs, small_leaf E recs, small_root E recs]"

lemma small_objects_keys: "map fst (small_objects E recs) = map (object_key E) (small_digests E recs)"
  by (simp add: small_objects_def small_digests_def)

lemma object_key_prefix: "object_key E d \<noteq> shard_path E run shards kind i" "shard_path E run shards kind i \<noteq> object_key E d"
  by (simp_all add: object_key_def shard_path_def Let_def)

text \<open>Writing into a memory store that has no object of these digests.\<close>

lemma sample_write:
  assumes like: "sample_like E" and small: "small E recs" "length recs \<le> 64" "distinct (0 # small_digests E recs)"
    and "\<forall>d\<in>set (0 # small_digests E recs). mem_contents s (object_key E d) = None"
    and "\<forall>k\<in>set (small_paths E recs). mem_contents s k = None"
  obtains b s' where "write_sorted E memory_store recs s = (Inr b, s')"
    "mem_contents s' (object_key E 0) = None"
    "dom (mem_contents s') = dom (mem_contents s) \<union> object_key E ` set (small_digests E recs) \<union> set (small_paths E recs)"
    "length (br_root_bytes b) = 581"
proof -
  have "distinct (map fst (small_objects E recs))"
    using assms(4) by (auto simp: small_objects_keys distinct_map inj_on_def sample_object_key_inject [OF like])
  moreover have "set (map fst (small_objects E recs)) \<inter> set (small_paths E recs) = {}"
    by (auto simp: small_objects_keys small_paths_def Let_def object_key_prefix)
  moreover have "\<forall>k\<in>set (map fst (small_objects E recs) @ small_paths E recs). mem_contents s k = None"
    using assms(5,6) by (auto simp: small_objects_keys)
  ultimately obtain b s' where *: "write_sorted E memory_store recs s = (Inr b, s')"
    "dom (mem_contents s') = dom (mem_contents s) \<union> set (map fst (small_objects E recs) @ small_paths E recs)"
    "br_root_bytes b = obj_bytes (small_root E recs)"
    using small_write [OF assms(2,3), of s] by blast
  have "object_key E 0 \<notin> dom (mem_contents s')"
    unfolding *(2) using assms(4,5) by (auto simp: small_objects_keys sample_object_key_inject [OF like] small_paths_def Let_def object_key_prefix)
  moreover have "length (br_root_bytes b) = 581"
    by (simp add: *(3) small_root_def object_of_def root_bytes_def length_concat sum_list_replicate)
  ultimately show thesis using * by (intro that [of b s']) (auto simp: small_objects_keys)
qed

lemma mem_empty_contents [simp]: "mem_contents mem_empty = Map.empty"
  by (rule ext) (simp add: mem_contents_def mem_empty_def)


lemma sample_small:
  assumes like: "sample_like E" and "recs \<noteq> []" "ssorted (map rec_vkey recs)" "length (page_payload recs) \<le> 100000" "\<forall>r\<in>set recs. rec_key r \<noteq> []"
  shows "small E recs"
proof -
  have "run_partition E (rec_key r) = 0" if "r \<in> set recs" for r
    using length_recs_payload [OF that] assms(4) by (intro sample_partition [OF like]) (simp add: length_rec_bytes)
  then show ?thesis using assms by (simp add: small_def sample_like_simps [OF like])
qed

text \<open>The digests of a small run, from the lengths of its page and of its first key and from the last byte.\<close>

lemma last_u32_be: "u32_be w \<noteq> []" "last (u32_be w) = word_of_nat (unat w)"
  using to_be.simps(2) [of 3 "unat w"] by (simp_all add: u32_be_def del: to_be.simps)

lemma sample_digests:
  fixes recs :: "krecord list"
  defines "lp \<equiv> 13 + length (page_payload recs)" and "ll \<equiv> 57 + length (rec_key (hd recs))"
  assumes like: "sample_like E" and "small E recs" "lp \<noteq> 581" "ll \<noteq> 581"
  shows "small_digests E recs = [word_of_nat (lp + 1024 * unat (last (page_payload recs))),
    word_of_nat (ll + 1024 * (lp mod 256)), word_of_nat (581 + 1024 * ((ll + 1024 * (lp mod 256)) div 256 mod 256))]"
proof -
  have "hd recs \<in> set recs" "length (page_payload recs) \<le> 100000" using assms(4) by (simp_all add: small_def)
  then have sizes: "lp \<le> 100013" "ll \<le> 100057"
    using length_recs_payload [of "hd recs" recs] by (simp_all add: lp_def ll_def length_rec_bytes)
  let ?page = "page_object_bytes (page_payload recs) (page_payload recs)"
  have "last ?page = last (page_payload recs)" "length ?page = lp" "?page \<noteq> []"
    by (simp_all add: page_object_bytes_def page_payload_def lp_def)
  then have page: "obj_reference (small_page E recs) =
      \<lparr>ref_digest = word_of_nat (lp + 1024 * unat (last (page_payload recs))), ref_length = word_of_nat lp\<rparr>"
    using assms(5) by (simp add: small_page_def object_of_def sample_like_simps [OF like] sample_sum_def)
  let ?leaf = "index_payload INDEX_MAGIC [small_fence E recs]"
  have "last ?leaf = word_of_nat lp"
    using sizes(1) by (simp add: index_payload_def fence_bytes_def small_fence_def page ref_bytes_def last_append last_u32_be unat_of_nat)
  moreover have "length ?leaf = ll" "?leaf \<noteq> []"
    by (simp_all add: index_payload_def length_fence_bytes small_fence_def ll_def)
  moreover define dl where "dl = ll + 1024 * (lp mod 256)"
  ultimately have leaf: "ref_digest (obj_reference (small_leaf E recs)) = word_of_nat dl"
    using assms(6) by (simp add: small_leaf_def object_of_def sample_like_simps [OF like] sample_sum_def unat_of_nat)
  let ?root = "root_bytes (obj_reference (small_leaf E recs) # replicate 15 default_ref)"
  have "?root ! 35 = h32_be (ref_digest (obj_reference (small_leaf E recs))) ! 30"
    by (simp add: root_bytes_def ref_bytes_def nth_append)
  moreover have "dl < 2 ^ 256" using sizes mod_less_divisor [of 256 lp] by (simp add: dl_def)
  ultimately have "?root ! 35 = word_of_nat (dl div 256)"
    by (simp add: leaf h32_be_nth unat_of_nat)
  moreover have "length ?root = 581" by (simp add: root_bytes_def length_concat sum_list_replicate)
  ultimately have "ref_digest (obj_reference (small_root E recs)) =
      word_of_nat (581 + 1024 * (dl div 256 mod 256))"
    by (simp add: small_root_def object_of_def sample_like_simps [OF like] sample_sum_def unat_of_nat)
  with page leaf show ?thesis unfolding dl_def by (simp add: small_digests_def)
qed

lemma sample_shard_path_inject:
  assumes like: "sample_like E"
  shows "shard_path E run n kind i = shard_path E run' n' kind' i' \<Longrightarrow> run = run'"
  by (simp add: shard_path_def sample_like_simps [OF like] append_eq_append_conv length_sample_hex sample_hex_inject)

text \<open>Two versions of one key, and later ones of the same key.\<close>

definition sample_recs :: "krecord list" where
  "sample_recs = [\<lparr>rec_key = [7], rec_block = 2, rec_value = [3]\<rparr>, \<lparr>rec_key = [7], rec_block = 5, rec_value = [4, 5]\<rparr>]"

definition sample_later :: "krecord list" where
  "sample_later = [\<lparr>rec_key = [7], rec_block = 9, rec_value = [6, 6, 6, 6]\<rparr>]"

lemma sample_recs_small: "small sample_ext sample_recs" "small sample_ext sample_later"
  by (rule sample_small [OF sample_like_ext]; simp add: length_page_payload length_rec_bytes sample_recs_def sample_later_def rec_vkey_def less_prod_def)+

lemma length_sample: "length sample_recs = 2" "length sample_later = 1"
  by (simp_all add: sample_recs_def sample_later_def)

lemma sample_recs_digests:
  "small_digests sample_ext sample_recs = [5179, 60474, 242245]"
  "small_digests sample_ext sample_later = [6187, 44090, 176709]"
  using sample_digests [OF sample_like_ext sample_recs_small(1)] sample_digests [OF sample_like_ext sample_recs_small(2)]
  by (simp_all add: sample_recs_def sample_later_def length_page_payload length_rec_bytes page_payload_def rec_bytes_def)

lemma sample_written:
  obtains b s where "write_sorted sample_ext memory_store sample_recs mem_empty = (Inr b, s)"
    "mem_contents s (object_key sample_ext 0) = None"
    "dom (mem_contents s) = object_key sample_ext ` {5179, 60474, 242245} \<union> set (small_paths sample_ext sample_recs)"
  by (rule sample_write [OF sample_like_ext sample_recs_small(1), of mem_empty]) (auto simp: sample_recs_digests length_sample)

text \<open>A store with two runs.\<close>

lemma sample_two_written:
  obtains b1 b2 s1 s2 where "write_sorted sample_ext memory_store sample_recs mem_empty = (Inr b1, s1)"
    "write_sorted sample_ext memory_store sample_later s1 = (Inr b2, s2)"
    "mem_contents s1 (object_key sample_ext 0) = None" "mem_contents s2 (object_key sample_ext 0) = None"
proof -
  obtain b1 s1 where w1: "write_sorted sample_ext memory_store sample_recs mem_empty = (Inr b1, s1)"
    "mem_contents s1 (object_key sample_ext 0) = None"
    "dom (mem_contents s1) = object_key sample_ext ` {5179, 60474, 242245} \<union> set (small_paths sample_ext sample_recs)"
    by (rule sample_written)
  have roots: "ref_digest (obj_reference (small_root sample_ext sample_recs)) = 242245"
    "ref_digest (obj_reference (small_root sample_ext sample_later)) = 176709"
    using sample_recs_digests by (simp_all add: small_digests_def)
  have digests: "object_key sample_ext d \<notin> dom (mem_contents s1)" if "d \<in> {0, 6187, 44090, 176709}" for d
    using that unfolding w1(3) by (auto simp: sample_object_key_inject [OF sample_like_ext] small_paths_def Let_def object_key_prefix)
  have paths: "k \<notin> dom (mem_contents s1)" if "k \<in> set (small_paths sample_ext sample_later)" for k
    using that unfolding w1(3)
    by (auto simp: small_paths_def Let_def object_key_prefix roots dest: sample_shard_path_inject [OF sample_like_ext])
  have "\<forall>d\<in>set (0 # small_digests sample_ext sample_later). mem_contents s1 (object_key sample_ext d) = None"
    using digests by (simp add: sample_recs_digests domIff)
  moreover have "\<forall>k\<in>set (small_paths sample_ext sample_later). mem_contents s1 k = None"
    using paths by (simp add: domIff)
  moreover have "distinct (0 # small_digests sample_ext sample_later)" "length sample_later \<le> 64"
    by (simp_all add: sample_recs_digests length_sample)
  ultimately obtain b2 s2 where w2: "write_sorted sample_ext memory_store sample_later s1 = (Inr b2, s2)"
    "mem_contents s2 (object_key sample_ext 0) = None"
    using sample_write [OF sample_like_ext sample_recs_small(2), of s1] by metis
  show thesis by (rule that [OF w1(1) w2(1) w1(2) w2(2)])
qed

end
