(* ===== verification/Small_Archive.thy ===== *)
theory Small_Archive
  imports Small_Run Compaction
begin

text \<open>
  A concrete archive: a self-delimiting byte encoding of heads in the place of JSON, a
  genesis package of one account, and the memory store after its publication. The hypotheses of
  the archive properties hold on it.
\<close>

section \<open>An encoding of heads\<close>

text \<open>A decoder returns the value and the bytes after it.\<close>

fun put_list :: "('a \<Rightarrow> bytes) \<Rightarrow> 'a list \<Rightarrow> bytes" where
  "put_list f [] = [0]"
| "put_list f (x # xs) = 1 # f x @ put_list f xs"

fun take_list :: "(bytes \<Rightarrow> 'a \<times> bytes) \<Rightarrow> nat \<Rightarrow> bytes \<Rightarrow> 'a list \<times> bytes" where
  "take_list g 0 bs = ([], bs)"
| "take_list g (Suc n) bs =
     (if bs = [] \<or> hd bs = 0 then ([], tl bs)
      else case g (tl bs) of (x, rest) \<Rightarrow> case take_list g n rest of (xs, rest) \<Rightarrow> (x # xs, rest))"

definition put_option :: "('a \<Rightarrow> bytes) \<Rightarrow> 'a option \<Rightarrow> bytes" where
  "put_option f v = (case v of None \<Rightarrow> [0] | Some x \<Rightarrow> 1 # f x)"

definition take_option :: "(bytes \<Rightarrow> 'a \<times> bytes) \<Rightarrow> bytes \<Rightarrow> 'a option \<times> bytes" where
  "take_option g bs = (if hd bs = 0 then (None, tl bs) else case g (tl bs) of (x, rest) \<Rightarrow> (Some x, rest))"

definition take_word :: "nat \<Rightarrow> bytes \<Rightarrow> ('n :: len) word \<times> bytes" where
  "take_word n bs = (of_be (take n bs), drop n bs)"

definition put_string :: "string \<Rightarrow> bytes" where
  "put_string = put_list (\<lambda>c. [word_of_nat (of_char c)])"

definition take_string :: "bytes \<Rightarrow> string \<times> bytes" where
  "take_string bs = take_list (\<lambda>bs. (char_of (unat (hd bs)), tl bs)) (length bs) bs"

definition put_obj_ref :: "obj_ref \<Rightarrow> bytes" where
  "put_obj_ref r = h32_be (ref_digest r) @ u32_be (ref_length r)"

definition take_obj_ref :: "bytes \<Rightarrow> obj_ref \<times> bytes" where
  "take_obj_ref bs = (case take_word 32 bs of (d, bs) \<Rightarrow> case take_word 4 bs of (n, bs) \<Rightarrow> (\<lparr>ref_digest = d, ref_length = n\<rparr>, bs))"

definition put_run :: "head_run \<Rightarrow> bytes" where
  "put_run r = u64_be (hr_start r) @ u64_be (hr_end r) @ u64_be (hr_weight r) @ u64_be (hr_keys r) @ u32_be (hr_shards r) @
     put_obj_ref (hr_root r) @ put_string (hr_root_bytes r)"

definition take_run :: "bytes \<Rightarrow> head_run \<times> bytes" where
  "take_run bs =
     (case take_word 8 bs of (a, bs) \<Rightarrow> case take_word 8 bs of (b, bs) \<Rightarrow> case take_word 8 bs of (w, bs) \<Rightarrow>
      case take_word 8 bs of (k, bs) \<Rightarrow> case take_word 4 bs of (n, bs) \<Rightarrow> case take_obj_ref bs of (r, bs) \<Rightarrow>
      case take_string bs of (x, bs) \<Rightarrow>
        (\<lparr>hr_start = a, hr_end = b, hr_weight = w, hr_keys = k, hr_shards = n, hr_root = r, hr_root_bytes = x\<rparr>, bs))"

definition put_head :: "head \<Rightarrow> bytes" where
  "put_head h = put_string (hd_magic h) @ u64_be (hd_chain_id h) @ h32_be (hd_genesis h) @ u64_be (hd_number h) @ h32_be (hd_hash h) @
     h32_be (hd_state_root h) @ h32_be (hd_input_sha256 h) @ put_option put_obj_ref (hd_parent h) @ put_list put_run (hd_l0 h) @
     put_list (put_option put_run) (hd_levels h)"

definition take_head :: "bytes \<Rightarrow> head" where
  "take_head bs =
     (case take_string bs of (magic, bs) \<Rightarrow> case take_word 8 bs of (c, bs) \<Rightarrow> case take_word 32 bs of (g, bs) \<Rightarrow>
      case take_word 8 bs of (n, bs) \<Rightarrow> case take_word 32 bs of (h, bs) \<Rightarrow> case take_word 32 bs of (r, bs) \<Rightarrow>
      case take_word 32 bs of (i, bs) \<Rightarrow> case take_option take_obj_ref bs of (p, bs) \<Rightarrow>
      case take_list take_run (length bs) bs of (l0, bs) \<Rightarrow> case take_list (take_option take_run) (length bs) bs of (ls, bs) \<Rightarrow>
        \<lparr>hd_magic = magic, hd_chain_id = c, hd_genesis = g, hd_number = n, hd_hash = h, hd_state_root = r, hd_input_sha256 = i,
         hd_parent = p, hd_l0 = l0, hd_levels = ls\<rparr>)"

lemma take_list_put:
  assumes "\<And>x rest. g (f x @ rest) = (x, rest)"
  shows "length xs < n \<Longrightarrow> take_list g n (put_list f xs @ rest) = (xs, rest)"
proof (induction xs arbitrary: n)
  case Nil
  then show ?case by (cases n) simp_all
next
  case (Cons x xs)
  then show ?case by (cases n) (simp_all add: assms)
qed

lemma length_put_list: "length xs < length (put_list f xs)"
  by (induction xs) simp_all

lemma take_list_put_all: "(\<And>x rest. g (f x @ rest) = (x, rest)) \<Longrightarrow>
    take_list g (length (put_list f xs @ rest)) (put_list f xs @ rest) = (xs, rest)"
  by (rule take_list_put) (use length_put_list [of xs f] in \<open>auto simp del: length_greater_0_conv\<close>)

lemma take_option_put: "(\<And>x rest. g (f x @ rest) = (x, rest)) \<Longrightarrow> take_option g (put_option f v @ rest) = (v, rest)"
  by (cases v) (simp_all add: put_option_def take_option_def)

lemma take_word_put [simp]:
  "take_word 8 (u64_be a @ rest) = (a, rest)" "take_word 4 (u32_be n @ rest) = (n, rest)" "take_word 32 (h32_be d @ rest) = (d, rest)"
  by (simp_all add: take_word_def)

lemma take_string_put [simp]: "take_string (put_string x @ rest) = (x, rest)"
  unfolding take_string_def put_string_def by (rule take_list_put_all) (simp add: unat_of_nat)

lemma take_obj_ref_put [simp]: "take_obj_ref (put_obj_ref r @ rest) = (r, rest)"
  by (simp add: take_obj_ref_def put_obj_ref_def)

lemma take_run_put [simp]: "take_run (put_run r @ rest) = (r, rest)"
  by (simp add: take_run_def put_run_def)

lemma take_head_put: "take_head (put_head h) = h"
proof -
  have "take_list (take_option take_run) (length (put_list (put_option put_run) (hd_levels h))) (put_list (put_option put_run) (hd_levels h)) =
      (hd_levels h, [])"
    using take_list_put_all [of "take_option take_run" "put_option put_run" "hd_levels h" "[]"] by (simp add: take_option_put)
  then show ?thesis
    by (simp add: take_head_def put_head_def take_list_put_all take_option_put del: length_append)
qed

lemma length_put:
  "length (put_string x) = 2 * length x + 1" "length (put_obj_ref r) = 36"
  "length (put_run q) = 73 + 2 * length (hr_root_bytes q)"
proof -
  show string: "length (put_string x) = 2 * length x + 1" for x
    by (induction x) (simp_all add: put_string_def)
  then show "length (put_run q) = 73 + 2 * length (hr_root_bytes q)" by (simp add: put_run_def put_obj_ref_def)
qed (simp add: put_obj_ref_def)

section \<open>The third-party operations\<close>

definition sample_head_ext :: ext_head where
  "sample_head_ext = ext.extend sample_ext (ext_head.fields (\<lambda>h. Inr (put_head h)) (\<lambda>bs. Inr (take_head bs)))"

definition sample_head_like :: "'x ext_head_scheme \<Rightarrow> bool" where
  "sample_head_like E \<longleftrightarrow> sample_like E \<and> head_to_json E = (\<lambda>h. Inr (put_head h)) \<and> head_from_json E = (\<lambda>bs. Inr (take_head bs))"

lemma sample_head_like_ext [simp]: "sample_head_like sample_head_ext"
  by (simp add: sample_head_like_def sample_head_ext_def sample_like_def sample_ext_def ext.defs ext_head.defs)

lemma sample_head_simps:
  assumes "sample_head_like E"
  shows "sample_like E" "head_to_json E h = Inr (put_head h)" "head_from_json E bs = Inr (take_head bs)"
  using assms by (simp_all add: sample_head_like_def)

lemma hex_sample: "sample_like E \<Longrightarrow> hex_roundtrip E"
  using sample_unhex_hex by (simp add: hex_roundtrip_def sample_like_simps sample_hex_def byte_hex_def [abs_def])

lemma json_sample: "sample_head_like E \<Longrightarrow> json_roundtrip E"
  by (simp add: json_roundtrip_def sample_head_simps take_head_put)

section \<open>A published genesis\<close>

definition sample_account :: account_event where
  "sample_account = \<lparr>ae_block = 0, ae_address = 7, ae_exists = True, ae_incarnation = 0, ae_nonce = 1, ae_balance = 5, ae_code_hash = sample_keccak []\<rparr>"

definition sample_block :: block_meta where
  "sample_block = \<lparr>bm_number = 0, bm_hash = 3, bm_parent_hash = 0, bm_state_root = 4, bm_timestamp = 0\<rparr>"

definition sample_package :: package where
  "sample_package = \<lparr>pk_mode = Anchor, pk_preceding_number = None, pk_preceding_hash = None, pk_input_sha256 = 9,
     pk_segment = \<lparr>sg_schema = ''fossil-segment/1'', sg_chain_id = 1, sg_genesis_hash = 3, sg_start_block = 0, sg_end_block = 0,
       sg_blocks = [sample_block], sg_accounts = [sample_account], sg_storage = [], sg_code = []\<rparr>\<rparr>"

definition sample_genesis :: "krecord list" where
  "sample_genesis = [account_record sample_account]"

lemma sample_package_records: "package_records E sample_package = Inr sample_genesis"
  by (simp add: package_records_def sample_package_def sample_block_def sample_account_def sample_genesis_def account_record_def
      add_record_def Let_def MAX_STAGED_def account_key_def account_value_def account_encode_def)

lemma sample_genesis_small: "sample_like E \<Longrightarrow> small E sample_genesis"
  by (rule sample_small) (simp_all add: length_page_payload length_rec_bytes sample_genesis_def account_record_def account_key_def
      account_value_def account_encode_def rec_vkey_def)

lemma sample_genesis_page:
  assumes "sample_like E"
  obtains d where "small_digests E sample_genesis = [d, 143438, 49733]" "unat d mod 1024 = 140"
proof -
  have "length (page_payload sample_genesis) = 127" "length (rec_key (hd sample_genesis)) = 21"
    by (simp_all add: length_page_payload length_rec_bytes sample_genesis_def account_record_def account_key_def account_value_def account_encode_def)
  moreover define b where "b = unat (last (page_payload sample_genesis))"
  ultimately have digests: "small_digests E sample_genesis = [word_of_nat (140 + 1024 * b), 143438, 49733]"
    using sample_digests [OF assms sample_genesis_small [OF assms]] by simp
  have "b < 256" using unsigned_less [of "last (page_payload sample_genesis)", where ?'a = nat] by (simp add: b_def)
  moreover have "(2 :: nat) ^ 18 + 140 < 2 ^ 256" by simp
  ultimately have "140 + 1024 * b < 2 ^ 256" by simp
  then have "unat (word_of_nat (140 + 1024 * b) :: hash32) = 140 + 1024 * b" unfolding unat_of_nat by (intro mod_less) simp
  then have "unat (word_of_nat (140 + 1024 * b) :: hash32) mod 1024 = 140" by (simp only: mod_mult_self2) simp
  with digests show thesis by (rule that)
qed

lemma sample_genesis_digests:
  assumes "sample_like E"
  shows "distinct (0 # small_digests E sample_genesis)"
proof -
  obtain d where d: "small_digests E sample_genesis = [d, 143438, 49733]" "unat d mod 1024 = 140"
    by (rule sample_genesis_page [OF assms])
  from d(2) have "d \<notin> {0, 143438, 49733}" by auto
  then show ?thesis by (auto simp: d(1))
qed

text \<open>Publishing the package into the empty store succeeds.\<close>

text \<open>In a store that was filled by immutable puts only, the version counter is the number of objects.\<close>

definition counted :: "mem_state \<Rightarrow> bool" where
  "counted s \<longleftrightarrow> m_next_version s = word_of_nat (card (dom (mem_contents s)))"

lemma mem_dom_finite: "finite (dom (mem_contents s))"
proof -
  have "dom (mem_contents s) = dom (map_of (m_entries s))" by (auto simp: mem_contents_def dom_def)
  then show ?thesis by (simp add: finite_dom_map_of)
qed

lemma counted_keep: "store_keeps memory_store counted"
  unfolding store_keeps_def
proof (intro conjI allI impI keepsI)
  fix k bs s x s' assume "st_put_immutable memory_store k bs s = (x, s')"
  then have "s' = s \<or> mem_contents s k = None \<and> s' = mem_insert k bs s"
    by (auto simp: memory_store_def mem_put_immutable_def mem_contents_def split: option.splits if_splits)
  moreover have "counted (mem_insert k bs s)" if "counted s" "mem_contents s k = None"
    using that mem_dom_finite [of s] by (simp add: counted_def domIff) (simp add: mem_insert_def Let_def)
  ultimately show "counted s \<le> counted s'" by auto
next
  fix k n s x s' assume "st_get_bounded memory_store k n s = (x, s')"
  then have "s' = s" by (auto simp: memory_store_def mem_get_bounded_def split: option.splits if_splits)
  then show "counted s \<le> counted s'" by simp
qed

lemma sample_steps:
  fixes E :: "'x ext_head_scheme"
  assumes head: "sample_head_like E"
  obtains s t run where "publish_start E memory_store sample_package (Finalized 0 3) mem_empty = (Inr (Some (run, None)), t)"
    "publish_swap E memory_store sample_package run None t = (Inr (), s)" "m_next_version t \<le> m_next_version s"
    "mem_contents s (object_key E 0) = None" "mem_contents s (head_key 1) = Some (put_head (publish_next sample_package run None))"
    "dom (mem_contents s) = insert (head_key 1) (object_key E ` set (small_digests E sample_genesis) \<union> set (small_paths E sample_genesis))"
    "length (hr_root_bytes run) = 1162"
proof -
  note like = sample_head_simps(1) [OF head]
  obtain b t where w: "write_sorted E memory_store sample_genesis mem_empty = (Inr b, t)" "mem_contents t (object_key E 0) = None"
    "dom (mem_contents t) = object_key E ` set (small_digests E sample_genesis) \<union> set (small_paths E sample_genesis)"
    "length (br_root_bytes b) = 581"
    by (rule sample_write [OF like sample_genesis_small [OF like] _ sample_genesis_digests [OF like], of mem_empty])
      (auto simp: sample_genesis_def)
  define run where "run = new_run E 0 0 1 b"
  have "head_key 1 \<notin> dom (mem_contents t)" unfolding w(3) by (auto simp: small_paths_def Let_def)
  then have none: "map_of (m_entries t) (head_key 1) = None" by (simp add: domIff mem_contents_def)
  have read: "read_head E memory_store 1 mem_empty = (Inr None, mem_empty)"
    by (simp add: read_head_def memory_store_def mem_read_mutable_bounded_def mem_empty_def bind_a_def)
  have start: "publish_start E memory_store sample_package (Finalized 0 3) mem_empty = (Inr (Some (run, None)), t)"
    using read w(1) sample_package_records [of E]
    by (simp add: publish_start_def Let_def bind_a_step interval_ok_def transition_ok_def validate_lifecycle_def run_def
        sample_package_def sample_block_def sample_account_def sample_like_simps [OF like])
  define s where "s = mem_insert (head_key 1) (put_head (publish_next sample_package run None)) t"
  moreover have "length (put_head (publish_next sample_package run None)) \<le> MAX_HEAD"
    by (simp add: put_head_def publish_next_def Let_def put_option_def length_put run_def new_run_def w(4)
        sample_like_simps [OF like] length_sample_hex MAX_HEAD_def)
  moreover have "hd_chain_id (publish_next sample_package run None) = 1" "(publish_next sample_package run None)\<lparr>hd_parent := None\<rparr> = publish_next sample_package run None"
    by (simp_all add: publish_next_def Let_def sample_package_def)
  ultimately have "publish_swap E memory_store sample_package run None t = (Inr (), s)"
    using none by (simp add: sample_head_simps [OF head] publish_swap_def swap_def memory_store_def mem_compare_and_swap_def not_less)
  moreover have "m_next_version t \<le> m_next_version s"
  proof -
    have "mem_contents mem_empty = Map.empty" by (simp add: fun_eq_iff mem_empty_def mem_contents_def)
    then have "counted mem_empty" by (simp add: counted_def) (simp add: mem_empty_def)
    then have "counted t" using keepsD [OF write_sorted_keep [OF counted_keep] w(1)] by simp
    moreover have "card (dom (mem_contents t)) \<le> 5"
      unfolding w(3) using card_Un_le [of "object_key E ` set (small_digests E sample_genesis)" "set (small_paths E sample_genesis)"]
        card_image_le [of "set (small_digests E sample_genesis)" "object_key E"] card_length [of "small_digests E sample_genesis"]
        card_length [of "small_paths E sample_genesis"] by (simp add: small_digests_def small_paths_def Let_def)
    ultimately have "m_next_version t \<le> 5"
      by (simp add: counted_def word_le_nat_alt unat_of_nat)
    moreover have "\<not> (-1 :: u64) \<le> 5" by code_simp
    ultimately have "m_next_version t \<noteq> -1" by auto
    then have "m_next_version t < m_next_version t + 1" using plus_one_le(1) [of "m_next_version t" "m_next_version t + 1"] by simp
    then show ?thesis by (simp add: s_def mem_insert_def Let_def)
  qed
  moreover have "mem_contents s (object_key E 0) = None" using w(2) by (simp add: s_def)
  moreover have "mem_contents s (head_key 1) = Some (put_head (publish_next sample_package run None))" by (simp add: s_def)
  moreover have "dom (mem_contents s) = insert (head_key 1) (object_key E ` set (small_digests E sample_genesis) \<union> set (small_paths E sample_genesis))"
    using w(3) by (simp add: s_def)
  moreover have "length (hr_root_bytes run) = 1162"
    by (simp add: run_def new_run_def w(4) sample_like_simps [OF like] length_sample_hex)
  ultimately show thesis using start that by blast
qed

lemma sample_loop:
  assumes "publish_start E memory_store p gate s = (Inr (Some (run, previous)), t)" "publish_swap E memory_store p run previous t = (Inr (), s')"
  shows "publish E memory_store p gate s = (Inr (), s')"
proof -
  have cas: "CAS_ATTEMPTS = Suc 31" by (simp add: CAS_ATTEMPTS_def)
  have "publish_loop E memory_store p run CAS_ATTEMPTS previous t = (Inr (), s')"
    using assms(2) unfolding cas publish_loop.simps by (simp only: prod.case sum.case)
  with assms(1) show ?thesis by (simp add: publish_def bind_a_step)
qed

lemma sample_published_head:
  fixes E :: "'x ext_head_scheme"
  assumes head: "sample_head_like E"
  obtains s run where "publish E memory_store sample_package (Finalized 0 3) mem_empty = (Inr (), s)"
    "mem_contents s (object_key E 0) = None" "mem_contents s (head_key 1) = Some (put_head (publish_next sample_package run None))"
proof -
  obtain s t run where *: "publish_start E memory_store sample_package (Finalized 0 3) mem_empty = (Inr (Some (run, None)), t)"
    "publish_swap E memory_store sample_package run None t = (Inr (), s)"
    "mem_contents s (object_key E 0) = None" "mem_contents s (head_key 1) = Some (put_head (publish_next sample_package run None))"
    using sample_steps [OF head] .
  have "publish E memory_store sample_package (Finalized 0 3) mem_empty = (Inr (), s)" by (rule sample_loop [OF *(1,2)])
  from that [OF this *(3,4)] show thesis .
qed

lemma sample_published:
  fixes E :: "'x ext_head_scheme"
  assumes head: "sample_head_like E"
  obtains s where "publish E memory_store sample_package (Finalized 0 3) mem_empty = (Inr (), s)"
    "mem_contents s (object_key E 0) = None"
  by (rule sample_published_head [OF head]) (rule that)

lemma sample_archive_none: "archive_rep E (mem_contents mem_empty) n None"
  by (simp add: archive_rep_def)

lemma sample_chain: "sg_chain_id (pk_segment sample_package) = 1" "last_block sample_package \<noteq> -1"
  by (simp_all add: sample_package_def last_block_def sample_block_def)

lemma sample_hyps:
  assumes "sample_head_like E"
  shows "zstd_roundtrip E" "hex_roundtrip E" "json_roundtrip E"
  using zstd_sample_like hex_sample json_sample sample_head_simps(1) [OF assms] assms by blast+

text \<open>The store after the genesis.\<close>

lemma sample_genesis_rep:
  assumes head: "sample_head_like E" and "publish E memory_store sample_package (Finalized 0 3) mem_empty = (Inr (), s)"
    "mem_contents s (object_key E 0) = None" "mem_contents s (head_key 1) = Some (put_head (publish_next sample_package run None))"
  shows "archive_rep E (mem_contents s) 1 (Some (publish_next sample_package run None, versions sample_genesis))"
    "is_published (publish_next sample_package run None) sample_package"
proof -
  from mem.publish_correct [OF assms(2) sample_archive_none sample_hyps [OF head] nonzero_mem [OF assms(3)] sample_chain(2)]
  obtain h where h: "archive_rep E (mem_contents s) 1 (Some (h, versions sample_genesis))" "is_published h sample_package"
    by (auto simp: sample_package_records sample_chain published_history_def)
  moreover have "h = publish_next sample_package run None"
    using h(1) assms(4) by (auto simp: archive_rep_def sample_head_simps [OF head] take_head_put)
  ultimately show "archive_rep E (mem_contents s) 1 (Some (publish_next sample_package run None, versions sample_genesis))"
    "is_published (publish_next sample_package run None) sample_package" by simp_all
qed

lemma sample_archive_head:
  fixes E :: "'x ext_head_scheme"
  assumes head: "sample_head_like E"
  obtains s h run where "archive_rep E (mem_contents s) 1 (Some (h, versions sample_genesis))"
    "mem_contents s (object_key E 0) = None" "is_published h sample_package" "head_runs h = [run]"
proof -
  obtain s run where s: "publish E memory_store sample_package (Finalized 0 3) mem_empty = (Inr (), s)"
    "mem_contents s (object_key E 0) = None" "mem_contents s (head_key 1) = Some (put_head (publish_next sample_package run None))"
    by (rule sample_published_head [OF head])
  have "head_runs (publish_next sample_package run None) = [run]" by (simp add: publish_next_def Let_def head_runs_def)
  with that sample_genesis_rep [OF head s] s(2) show thesis by blast
qed

lemma sample_archive:
  fixes E :: "'x ext_head_scheme"
  assumes head: "sample_head_like E"
  obtains s h where "archive_rep E (mem_contents s) 1 (Some (h, versions sample_genesis))"
    "mem_contents s (object_key E 0) = None" "is_published h sample_package"
  by (rule sample_archive_head [OF head]) (rule that)

end
