(* ===== verification/Run_Properties.thy ===== *)
theory Run_Properties
  imports Small_Run Merge
begin

text \<open>
  The properties of run files as a client of \<^verbatim>\<open>src/compact.rs\<close> sees them on the memory store: what
  is written is what lookups, scans and summaries answer from, which objects a run needs, what a
  lookup may cost, and what a merge of runs returns.
\<close>

section \<open>Written runs\<close>

text \<open>C17. A run written by \<^verbatim>\<open>write_sorted\<close> into the memory store answers every lookup, fetched from that
  store, with the newest version of the key at or before the block among the records written:
  the root bytes it returned decode, and no lookup fails.\<close>

theorem write_sorted_lookup:
  assumes "write_sorted E memory_store recs s = (Inr b, s')" "zstd_roundtrip E"
    and "mem_contents s' (object_key E 0) = None"
  shows "\<exists>rr. decode_root E (br_root b) (br_root_bytes b) = Inr rr \<and>
    (\<forall>key block. key \<noteq> [] \<longrightarrow>
      (\<exists>s''. lookup E rr key block (fetch E memory_store) s' = (Inr (version_at recs key block), s'')))"
proof -
  note nz = nonzero_mem [OF assms(3)]
  obtain rr where rr: "decode_root E (br_root b) (br_root_bytes b) = Inr rr" "reader_rep E (stored E (mem_contents s')) rr recs"
    using built_reader [OF mem.write_sorted_correct [OF assms(1,2) nz] nz] .
  show ?thesis
  proof (intro exI [of _ rr] conjI allI impI rr(1))
    fix key :: bytes and block assume "key \<noteq> []"
    with mem.source.lookup_correct [OF rr(2), of key block, THEN outcome_total]
    show "\<exists>s''. lookup E rr key block (fetch E memory_store) s' = (Inr (version_at recs key block), s'')" by auto
  qed
qed

theorem write_sorted_lookup_witness:
  "\<exists>b s' rr s''. write_sorted sample_ext memory_store sample_recs mem_empty = (Inr b, s') \<and>
    decode_root sample_ext (br_root b) (br_root_bytes b) = Inr rr \<and>
    lookup sample_ext rr [7] 4 (fetch sample_ext memory_store) s' = (Inr (Some [3]), s'')"
proof -
  obtain b s' where w: "write_sorted sample_ext memory_store sample_recs mem_empty = (Inr b, s')"
    "mem_contents s' (object_key sample_ext 0) = None" by (rule sample_written)
  moreover have "version_at sample_recs [7] 4 = Some [3]" by (simp add: version_at_def sample_recs_def)
  ultimately show ?thesis using write_sorted_lookup [OF w(1) zstd_sample w(2)] by (metis not_Cons_self2)
qed

text \<open>C19. Scanning a written run returns exactly its records, in order, and then ends.\<close>

theorem write_sorted_scan:
  assumes "write_sorted E memory_store recs s = (Inr b, s')" "zstd_roundtrip E"
    and "mem_contents s' (object_key E 0) = None"
  shows "\<exists>rr t. decode_root E (br_root b) (br_root_bytes b) = Inr rr \<and>
    map_a (\<lambda>_. scan_next E (fetch E memory_store)) [0..<length recs + 1] (scanner rr, s') = (Inr (map Some recs @ [None]), t)"
proof -
  note nz = nonzero_mem [OF assms(3)]
  obtain rr where rr: "decode_root E (br_root b) (br_root_bytes b) = Inr rr" "reader_rep E (stored E (mem_contents s')) rr recs"
    using built_reader [OF mem.write_sorted_correct [OF assms(1,2) nz] nz] .
  have "\<exists>t. map_a (\<lambda>_. scan_next E (fetch E memory_store)) ns (sc, t0) = (Inr (map Some rest @ [None]), t)"
    if "scan_rep E (stored E (mem_contents t0)) sc rest" "length ns = length rest + 1" for ns :: "nat list" and sc t0 rest
    using that
  proof (induction rest arbitrary: ns sc t0)
    case Nil
    then obtain n where "ns = [n]" by (auto simp: length_Suc_conv)
    with mem.source.scan_next_correct [OF Nil.prems(1), THEN outcome_total] show ?case by auto
  next
    case (Cons r rest)
    then obtain n ns' where ns: "ns = n # ns'" "length ns' = length rest + 1" by (auto simp: length_Suc_conv)
    from mem.source.scan_next_correct [OF Cons.prems(1), THEN outcome_total]
    obtain sc' t1 where next': "scan_next E (fetch E memory_store) (sc, t0) = (Inr (Some r), (sc', t1))"
      "scan_rep E (stored E (mem_contents t1)) sc' rest" by auto
    from Cons.IH [OF next'(2) ns(2)] obtain t where "map_a (\<lambda>_. scan_next E (fetch E memory_store)) ns' (sc', t1) = (Inr (map Some rest @ [None]), t)" ..
    with next'(1) show ?case by (simp add: ns(1) bind_a_step)
  qed
  from this [OF scanner_rep [OF rr(2)], of "[0..<length recs + 1]"] rr(1) show ?thesis by auto
qed

theorem write_sorted_scan_witness:
  "\<exists>b s' rr t. write_sorted sample_ext memory_store sample_recs mem_empty = (Inr b, s') \<and>
    decode_root sample_ext (br_root b) (br_root_bytes b) = Inr rr \<and>
    map_a (\<lambda>_. scan_next sample_ext (fetch sample_ext memory_store)) [0..<3] (scanner rr, s') = (Inr (map Some sample_recs @ [None]), t)"
proof -
  obtain b s' where w: "write_sorted sample_ext memory_store sample_recs mem_empty = (Inr b, s')"
    "mem_contents s' (object_key sample_ext 0) = None" by (rule sample_written)
  moreover have "length sample_recs + 1 = 3" by (simp add: sample_recs_def)
  ultimately show ?thesis using write_sorted_scan [OF w(1) zstd_sample w(2)] by metis
qed

text \<open>C20. The summary shards stored beside a written run answer ``maybe'' for every key of the run.\<close>

theorem write_sorted_summary:
  assumes "write_sorted E memory_store recs s = (Inr b, s')" "zstd_roundtrip E"
    and "mem_contents s' (object_key E 0) = None" "r \<in> set recs"
  shows "answers E (mem_contents s') (ref_digest (br_root b)) (br_shards b) (rec_key r)"
  using mem.write_sorted_correct [OF assms(1,2) nonzero_mem [OF assms(3)]] assms(4) by (simp add: built_rep_def)

theorem write_sorted_summary_witness:
  "\<exists>b s'. write_sorted sample_ext memory_store sample_recs mem_empty = (Inr b, s') \<and>
    answers sample_ext (mem_contents s') (ref_digest (br_root b)) (br_shards b) [7]"
proof -
  obtain b s' where w: "write_sorted sample_ext memory_store sample_recs mem_empty = (Inr b, s')"
    "mem_contents s' (object_key sample_ext 0) = None" by (rule sample_written)
  have "hd sample_recs \<in> set sample_recs" "rec_key (hd sample_recs) = [7]" by (simp_all add: sample_recs_def)
  with write_sorted_summary [OF w(1) zstd_sample w(2)] w(1) show ?thesis by metis
qed

text \<open>C21. The references that \<^verbatim>\<open>object_refs\<close> lists are all a run needs besides its root bytes: in any
  store that agrees with the original one on these objects, every lookup answers the same.\<close>

theorem object_refs_suffice:
  assumes "write_sorted E memory_store recs s = (Inr b, s')" "zstd_roundtrip E"
    and "mem_contents s' (object_key E 0) = None"
  shows "\<exists>rr refs s''. decode_root E (br_root b) (br_root_bytes b) = Inr rr \<and>
    object_refs E rr (fetch E memory_store) s' = (Inr refs, s'') \<and>
    (\<forall>t. (\<forall>r\<in>set refs. mem_contents t (object_key E (ref_digest r)) = mem_contents s' (object_key E (ref_digest r))) \<longrightarrow>
      (\<forall>key block. key \<noteq> [] \<longrightarrow> (\<exists>t'. lookup E rr key block (fetch E memory_store) t = (Inr (version_at recs key block), t'))))"
proof -
  note nz = nonzero_mem [OF assms(3)]
  obtain rr where rr: "decode_root E (br_root b) (br_root_bytes b) = Inr rr" "reader_rep E (stored E (mem_contents s')) rr recs"
    using built_reader [OF mem.write_sorted_correct [OF assms(1,2) nz] nz] .
  from mem.source.walk_correct [OF rr(2), THEN outcome_total]
  obtain refs pages s'' where walk: "walk E rr (fetch E memory_store) s' = (Inr (refs, pages), s'')"
    "reader_rep E (restrict_to (stored E (mem_contents s')) (set refs \<union> set (concat pages))) rr recs" by auto
  have "\<exists>t'. lookup E rr key block (fetch E memory_store) t = (Inr (version_at recs key block), t')"
    if t: "\<forall>r\<in>set (refs @ concat pages). mem_contents t (object_key E (ref_digest r)) = mem_contents s' (object_key E (ref_digest r))"
      and key: "key \<noteq> []" for t key block
  proof -
    have "restrict_to (stored E (mem_contents s')) (set refs \<union> set (concat pages)) \<le> stored E (mem_contents t)"
      using t by (force simp: restrict_to_def stored_def store_holds_def simp del: set_concat)
    from mem.source.lookup_correct [OF reader_rep_mono [OF walk(2) this], of key block, THEN outcome_total] key
    show ?thesis by auto
  qed
  moreover have "object_refs E rr (fetch E memory_store) s' = (Inr (refs @ concat pages), s'')"
    using walk(1) by (simp add: object_refs_def)
  ultimately show ?thesis using rr(1) by blast
qed

theorem object_refs_suffice_witness:
  "\<exists>b s' rr refs s'' t'. write_sorted sample_ext memory_store sample_recs mem_empty = (Inr b, s') \<and>
    object_refs sample_ext rr (fetch sample_ext memory_store) s' = (Inr refs, s'') \<and>
    lookup sample_ext rr [7] 9 (fetch sample_ext memory_store) s' = (Inr (Some [4, 5]), t')"
proof -
  obtain b s' where w: "write_sorted sample_ext memory_store sample_recs mem_empty = (Inr b, s')"
    "mem_contents s' (object_key sample_ext 0) = None" by (rule sample_written)
  moreover have "version_at sample_recs [7] 9 = Some [4, 5]" by (simp add: version_at_def sample_recs_def)
  ultimately show ?thesis using object_refs_suffice [OF w(1) zstd_sample w(2)] by (metis not_Cons_self2)
qed

section \<open>Costs\<close>

lemma counted_fetch:
  fixes E :: "'x ext_scheme"
  assumes "unat (ref_length r) \<le> n"
  shows "spends (\<lambda>(c, s). unat (ct_gets c)) 1 (fetch E (counting_store memory_store) r)"
    and "spends (\<lambda>(c, s). unat (ct_bytes c)) n (fetch E (counting_store memory_store) r)"
proof -
  let ?get = "st_get_bounded (counting_store memory_store) (object_key E (ref_digest r)) (unat (ref_length r))"
  have state: "snd (fetch E (counting_store memory_store) r cs) \<in> {cs, snd (?get cs)}" for cs
    by (auto simp: fetch_def Let_def bind_a_def split: prod.splits sum.splits)
  have get: "\<exists>k\<le>n. snd (?get cs) = (\<lparr>ct_gets = ct_gets (fst cs) + 1, ct_bytes = ct_bytes (fst cs) + word_of_nat k\<rparr>, snd cs)" for cs
  proof (cases "st_get_bounded memory_store (object_key E (ref_digest r)) (unat (ref_length r)) (snd cs)")
    case (Pair res s)
    then have "s = snd cs" "(case res of Inl e \<Rightarrow> 0 | Inr bs \<Rightarrow> length bs) \<le> n"
      using assms by (auto simp: memory_store_def mem_get_bounded_def bail_def split: option.splits if_splits)
    with Pair show ?thesis
      by (intro exI [of _ "case res of Inl e \<Rightarrow> 0 | Inr bs \<Rightarrow> length bs"])
        (simp add: counting_store_def counting_get_bounded_def count_def case_prod_beta)
  qed
  show "spends (\<lambda>(c, s). unat (ct_gets c)) 1 (fetch E (counting_store memory_store) r)"
    unfolding spends_def
  proof
    fix cs :: "counters \<times> mem_state"
    from get [of cs] state [of cs] unat_plus_le [of "ct_gets (fst cs)" 1]
    show "(case snd (fetch E (counting_store memory_store) r cs) of (c, s) \<Rightarrow> unat (ct_gets c)) \<le> (case cs of (c, s) \<Rightarrow> unat (ct_gets c)) + 1"
      by (auto simp: case_prod_beta)
  qed
  show "spends (\<lambda>(c, s). unat (ct_bytes c)) n (fetch E (counting_store memory_store) r)"
    unfolding spends_def
  proof
    fix cs :: "counters \<times> mem_state"
    from get [of cs] obtain k where k: "k \<le> n"
      "snd (?get cs) = (\<lparr>ct_gets = ct_gets (fst cs) + 1, ct_bytes = ct_bytes (fst cs) + word_of_nat k\<rparr>, snd cs)" by blast
    have "unat (ct_bytes (fst cs) + word_of_nat k) \<le> unat (ct_bytes (fst cs)) + n"
      using unat_plus_le [of "ct_bytes (fst cs)" k] k(1) by linarith
    with state [of cs] k(2)
    show "(case snd (fetch E (counting_store memory_store) r cs) of (c, s) \<Rightarrow> unat (ct_bytes c)) \<le> (case cs of (c, s) \<Rightarrow> unat (ct_bytes c)) + n"
      by (auto simp: case_prod_beta)
  qed
qed

text \<open>C22. One lookup in a run makes at most three requests and reads at most 2 MiB, whatever bytes the
  store returns and whether or not it fails.\<close>

theorem lookup_cost:
  "case lookup E rr key block (fetch E (counting_store memory_store)) (\<lparr>ct_gets = 0, ct_bytes = 0\<rparr>, s) of
     (_, (c, _)) \<Rightarrow> ct_gets c \<le> 3 \<and> ct_bytes c \<le> 2 * 1024 * 1024"
proof -
  let ?fetch = "fetch E (counting_store memory_store)"
  obtain x c s' where run: "lookup E rr key block ?fetch (\<lparr>ct_gets = 0, ct_bytes = 0\<rparr>, s) = (x, (c, s'))" by (metis prod.collapse)
  have gets: "spends (\<lambda>(c, s). unat (ct_gets c)) (2 * 1 + 1) (lookup E rr key block ?fetch)"
    by (intro lookup_spends counted_fetch(1) [of _ MAX_PAGE_BYTES]) (auto simp: validate_ref_iff MAX_INDEX_BYTES_def MAX_PAGE_BYTES_def)
  then have "unat (ct_gets c) \<le> 3" using spendsD [OF gets run] by simp
  moreover have bytes: "spends (\<lambda>(c, s). unat (ct_bytes c)) (2 * MAX_INDEX_BYTES + MAX_PAGE_BYTES) (lookup E rr key block ?fetch)"
    by (intro lookup_spends counted_fetch(2)) (auto simp: validate_ref_iff)
  then have "unat (ct_bytes c) \<le> 2 * 1024 * 1024"
    using spendsD [OF bytes run] by (simp add: MAX_INDEX_BYTES_def MAX_PAGE_BYTES_def)
  ultimately show ?thesis using run by (simp add: word_le_nat_alt)
qed

section \<open>Merged runs\<close>

lemma built_inputs:
  assumes "list_all2 (built_rep E c) bs inputs" "nonzero (store_holds E c)"
  shows "list_all2 (\<lambda>(r, bytes) recs. \<exists>rr. decode_root E r bytes = Inr rr \<and> reader_rep E (stored E c) rr recs)
    (map (\<lambda>b. (br_root b, br_root_bytes b)) bs) inputs"
  unfolding list.rel_map using assms(1) by (rule list_all2_mono) (auto elim: built_reader [OF _ assms(2)])

text \<open>C18. Merging stored runs always returns. When it succeeds, the new run represents exactly the
  records of the inputs, sorted by key and block (so their versions were distinct), its root
  and summaries are stored, and no object the store held was changed.\<close>

theorem merge_runs_represents:
  assumes "list_all2 (built_rep E (mem_contents s)) bs inputs" "zstd_roundtrip E" "mem_contents s (object_key E 0) = None"
  shows "\<exists>res s'. merge_runs E memory_store (map (\<lambda>b. (br_root b, br_root_bytes b)) bs) n s = Some (res, s') \<and>
    mem_contents s \<subseteq>\<^sub>m mem_contents s' \<and>
    (\<forall>b. res = Inr b \<longrightarrow> mem_contents s' (object_key E 0) = None \<longrightarrow>
      (\<exists>recs. ssorted (map rec_vkey recs) \<and> mset recs = mset (concat inputs) \<and> built_rep E (mem_contents s') b recs))"
proof -
  from mem.merge_runs_correct [OF built_inputs [OF assms(1) nonzero_mem [OF assms(3)]], of n]
  obtain res s' where "merge_runs E memory_store (map (\<lambda>b. (br_root b, br_root_bytes b)) bs) n s = Some (res, s')"
    "mem_contents s \<subseteq>\<^sub>m mem_contents s'" "\<forall>b. res = Inr b \<longrightarrow> merged E inputs (mem_contents s') b" by blast
  with assms(2) show ?thesis
    by (intro exI [of _ res] exI [of _ s']) (auto simp: merged_def dest: nonzero_mem)
qed

theorem merge_runs_represents_witness:
  "\<exists>b1 b2 s res s'. list_all2 (built_rep sample_ext (mem_contents s)) [b1, b2] [sample_recs, sample_later] \<and>
    merge_runs sample_ext memory_store [(br_root b1, br_root_bytes b1), (br_root b2, br_root_bytes b2)] 2 s = Some (res, s') \<and>
    mem_contents s \<subseteq>\<^sub>m mem_contents s'"
proof -
  obtain b1 b2 s1 s2 where w: "write_sorted sample_ext memory_store sample_recs mem_empty = (Inr b1, s1)"
    "write_sorted sample_ext memory_store sample_later s1 = (Inr b2, s2)"
    "mem_contents s1 (object_key sample_ext 0) = None" "mem_contents s2 (object_key sample_ext 0) = None"
    by (rule sample_two_written)
  have "built_rep sample_ext (mem_contents s2) b1 sample_recs"
    using mem.write_sorted_correct [OF w(1) zstd_sample nonzero_mem [OF w(3)]] mem.write_sorted_mono [OF w(2)] by (rule built_rep_mono)
  moreover have "built_rep sample_ext (mem_contents s2) b2 sample_later"
    using mem.write_sorted_correct [OF w(2) zstd_sample nonzero_mem [OF w(4)]] .
  ultimately have "list_all2 (built_rep sample_ext (mem_contents s2)) [b1, b2] [sample_recs, sample_later]" by simp
  from this merge_runs_represents [OF this zstd_sample w(4), of 2] show ?thesis
    by (intro exI [of _ b1] exI [of _ b2] exI [of _ s2]) auto
qed

end
