(* ===== verification/Archive_Properties.thy ===== *)
theory Archive_Properties
  imports Small_Archive Run_Properties
begin

text \<open>
  The properties of the tiered archive on the memory store: what publication and compaction do
  to the histories a store represents, which heads are accepted, when compaction can be planned,
  and the text and byte forms.
\<close>

section \<open>Publication and compaction\<close>

text \<open>C11. Publishing a package into a store that represents an archive: on success the
  package was already the head's, or the store now represents the old histories followed by the records of the
  package, under a head that names it; on failure the archive represented is unchanged.\<close>

theorem publish_appends:
  assumes "publish E memory_store p gate s = (res, s')" "archive_rep E (mem_contents s) (sg_chain_id (pk_segment p)) st"
    and "zstd_roundtrip E" "hex_roundtrip E" "json_roundtrip E" "mem_contents s' (object_key E 0) = None" "last_block p \<noteq> -1"
  shows "case res of
      Inl e \<Rightarrow> archive_rep E (mem_contents s') (sg_chain_id (pk_segment p)) st
    | Inr _ \<Rightarrow>
        (\<exists>h hist. st = Some (h, hist) \<and> is_published h p \<and> mem_contents s' = mem_contents s) \<or>
        (\<exists>h recs. package_records E p = Inr recs \<and> is_published h p \<and>
           archive_rep E (mem_contents s') (sg_chain_id (pk_segment p)) (Some (h, published_history st recs)))"
  using mem.publish_correct [OF assms(1-5) nonzero_mem [OF assms(6)] assms(7)] .

theorem publish_appends_witness:
  "\<exists>s h. publish sample_head_ext memory_store sample_package (Finalized 0 3) mem_empty = (Inr (), s) \<and>
    is_published h sample_package \<and> archive_rep sample_head_ext (mem_contents s) 1 (Some (h, versions sample_genesis))"
proof -
  obtain s where s: "publish sample_head_ext memory_store sample_package (Finalized 0 3) mem_empty = (Inr (), s)"
    "mem_contents s (object_key sample_head_ext 0) = None" by (rule sample_published [OF sample_head_like_ext])
  from publish_appends [OF s(1) sample_archive_none sample_hyps [OF sample_head_like_ext] s(2) sample_chain(2)] s(1)
  show ?thesis by (auto simp: sample_package_records sample_chain published_history_def)
qed

text \<open>C12. A compaction pass always returns, and whatever it returns the store represents the same
  histories up to the same block afterwards; unless it returned true the head is the same as well.\<close>

theorem compact_once_keeps_histories:
  assumes "archive_rep E (mem_contents s) chain_id st" "zstd_roundtrip E" "hex_roundtrip E" "json_roundtrip E"
    and "mem_contents s (object_key E 0) = None"
  shows "\<exists>res s'. compact_once E memory_store chain_id elapsed s = Some (res, s') \<and>
    (mem_contents s' (object_key E 0) = None \<longrightarrow>
      (\<exists>st'. archive_rep E (mem_contents s') chain_id st' \<and> map_option snd st' = map_option snd st \<and>
         map_option (hd_number \<circ> fst) st' = map_option (hd_number \<circ> fst) st \<and> (res \<noteq> Inr True \<longrightarrow> st' = st)))"
  using mem.compact_once_correct [OF assms(1-4) nonzero_mem [OF assms(5)]] nonzero_mem by metis

theorem compact_once_keeps_histories_witness:
  "\<exists>s h res s'. archive_rep sample_head_ext (mem_contents s) 1 (Some (h, versions sample_genesis)) \<and>
    compact_once sample_head_ext memory_store 1 0 s = Some (res, s') \<and>
    (mem_contents s' (object_key sample_head_ext 0) = None \<longrightarrow>
      (\<exists>h'. archive_rep sample_head_ext (mem_contents s') 1 (Some (h', versions sample_genesis))))"
proof -
  obtain s h where s: "archive_rep sample_head_ext (mem_contents s) 1 (Some (h, versions sample_genesis))"
    "mem_contents s (object_key sample_head_ext 0) = None" by (rule sample_archive [OF sample_head_like_ext])
  from compact_once_keeps_histories [OF s(1) sample_hyps [OF sample_head_like_ext] s(2), of 0] s(1)
  show ?thesis by (fastforce simp: map_option_eq_Some)
qed


text \<open>An accepted head with four level-0 runs over a level of weight 4.\<close>

definition sample_run :: "u64 \<Rightarrow> u64 \<Rightarrow> u64 \<Rightarrow> head_run" where
  "sample_run a b w = \<lparr>hr_start = a, hr_end = b, hr_weight = w, hr_keys = 0, hr_shards = 1,
     hr_root = \<lparr>ref_digest = 0, ref_length = 0\<rparr>, hr_root_bytes = ''''\<rparr>"

definition sample_tiers :: head where
  "sample_tiers = \<lparr>hd_magic = ''FTVH1'', hd_chain_id = 1, hd_genesis = 3, hd_number = 7, hd_hash = 3, hd_state_root = 4, hd_input_sha256 = 9,
     hd_parent = None, hd_l0 = map (\<lambda>i. sample_run i i 1) [4, 5, 6, 7], hd_levels = [Some (sample_run 0 3 4)]\<rparr>"

lemma sample_tiers_decode: "head_decode sample_head_ext (put_head sample_tiers) = Inr sample_tiers" "bounded_runs (head_runs sample_tiers)"
proof -
  have "head_wf sample_head_ext sample_tiers"
    by (auto simp: head_wf_def sample_tiers_def sample_run_def head_runs_def levels_ok_def level_ok_def level_unit_def L0_TRIGGER_def
        MAX_L0_BACKLOG_def MAX_LEVELS_def FANOUT_def run_ok_def sample_like_simps [OF sample_head_simps(1) [OF sample_head_like_ext]] sample_sum_def is_power_of_two_def)
  then show "head_decode sample_head_ext (put_head sample_tiers) = Inr sample_tiers" by (simp add: head_decode_iff take_head_put sample_head_simps)
  show "bounded_runs (head_runs sample_tiers)" by (simp add: sample_tiers_def sample_run_def head_runs_def)
qed


section \<open>Heads\<close>

text \<open>C28. \<^verbatim>\<open>Head::decode\<close> accepts what its documentation says, for heads without a run that ends at the last 64-bit block: the
  magic, at most 16 level-0 runs and 8 levels, weight 1 in level 0 and, in level \<open>i\<close>, a positive multiple of \<open>4 * 8^i\<close> below
  \<open>4 * 8^(i+1)\<close>, for every run a power of two of shards and root bytes of the named length and digest, and runs in block order,
  without overlap, whose blocks are exactly those from 0 to the number of the head.\<close>

theorem head_decode_exact:
  assumes "bounded_runs (head_runs h)"
  shows "head_decode E bs = Inr h \<longleftrightarrow> head_from_json E bs = Inr h \<and> hd_magic h = ''FTVH1'' \<and> length (hd_l0 h) \<le> 16 \<and> length (hd_levels h) \<le> 8 \<and>
    (\<forall>r\<in>set (hd_l0 h). hr_weight r = 1) \<and>
    (\<forall>i r. i < length (hd_levels h) \<and> hd_levels h ! i = Some r \<longrightarrow>
       0 < unat (hr_weight r) \<and> 4 * 8 ^ i dvd unat (hr_weight r) \<and> unat (hr_weight r) < 4 * 8 ^ (i + 1)) \<and>
    (\<forall>r\<in>set (head_runs h). is_power_of_two (hr_shards r) \<and> (\<exists>root. hex_decode E (hr_root_bytes r) = Inr root \<and>
       length root = unat (ref_length (hr_root r)) \<and> sha256 E root = ref_digest (hr_root r))) \<and>
    covers 0 (head_runs h) (hd_number h)"
proof -
  have "levels_ok (hd_levels h) \<longleftrightarrow> length (hd_levels h) \<le> 8 \<and> (\<forall>i r. i < length (hd_levels h) \<and> hd_levels h ! i = Some r \<longrightarrow>
       0 < unat (hr_weight r) \<and> 4 * 8 ^ i dvd unat (hr_weight r) \<and> unat (hr_weight r) < 4 * 8 ^ (i + 1))"
  proof (cases "length (hd_levels h) \<le> 8")
    case True
    then have "level_ok i w \<longleftrightarrow> 0 < unat w \<and> 4 * 8 ^ i dvd unat w \<and> unat w < 4 * 8 ^ (i + 1)" if "i < length (hd_levels h)" for i w
      using level_weight_nat [of i w] that by (simp add: MAX_LEVELS_def)
    with True show ?thesis unfolding levels_ok_def MAX_LEVELS_def by metis
  qed (simp add: levels_ok_def MAX_LEVELS_def)
  moreover have "head_runs h \<noteq> [] \<and> contiguous 0 (head_runs h) (hd_number h + 1) \<longleftrightarrow> covers 0 (head_runs h) (hd_number h)"
  proof (cases "head_runs h = []")
    case True
    then show ?thesis by (auto simp: covers_def)
  qed (simp add: covers_contiguous [OF assms])
  ultimately show ?thesis unfolding head_decode_iff head_wf_def run_ok_def MAX_L0_BACKLOG_def by argo
qed

theorem head_decode_exact_witness:
  "head_decode sample_head_ext (put_head sample_tiers) = Inr sample_tiers \<and> covers 0 (head_runs sample_tiers) 7 \<and> \<not> covers 0 (head_runs sample_tiers) 6"
proof -
  have "hd_number sample_tiers = 7" by (simp add: sample_tiers_def)
  with head_decode_exact [OF sample_tiers_decode(2), of sample_head_ext "put_head sample_tiers"] sample_tiers_decode(1)
  have seven: "covers 0 (head_runs sample_tiers) 7" by simp
  have "\<exists>r\<in>set (head_runs sample_tiers). hr_start r \<le> 7 \<and> 7 \<le> hr_end r" by (simp add: sample_tiers_def sample_run_def head_runs_def)
  moreover have "\<not> (7 :: u64) \<le> 6" by simp
  ultimately have "\<not> covers 0 (head_runs sample_tiers) 6" unfolding covers_def by blast
  with seven show ?thesis using sample_tiers_decode(1) by blast
qed

text \<open>C27. In an accepted head without a run that ends at the last 64-bit block, every block up to the head lies in the interval of
  exactly one run, and a later block lies in none.\<close>

theorem head_runs_partition:
  assumes "head_decode E bs = Inr h" "\<forall>r\<in>set (head_runs h). hr_end r \<noteq> -1"
  shows "(b \<le> hd_number h \<longrightarrow> (\<exists>!i. i < length (head_runs h) \<and> hr_start (head_runs h ! i) \<le> b \<and> b \<le> hr_end (head_runs h ! i))) \<and>
    (hd_number h < b \<longrightarrow> \<not> (\<exists>r\<in>set (head_runs h). hr_start r \<le> b \<and> b \<le> hr_end r))"
proof -
  have "covers 0 (head_runs h) (hd_number h)"
    using assms covers_contiguous [of "head_runs h" 0 "hd_number h"] by (simp add: head_decode_iff head_wf_def bounded_runs_def)
  from covers_unique [OF this, of b] this show ?thesis by (auto simp: covers_def)
qed

theorem head_runs_partition_witness:
  "(\<exists>!i. i < length (head_runs sample_tiers) \<and> hr_start (head_runs sample_tiers ! i) \<le> 5 \<and> 5 \<le> hr_end (head_runs sample_tiers ! i)) \<and>
   \<not> (\<exists>r\<in>set (head_runs sample_tiers). hr_start r \<le> 8 \<and> 8 \<le> hr_end r)"
proof -
  have "hd_number sample_tiers = 7" by (simp add: sample_tiers_def)
  then show ?thesis
    using head_runs_partition [OF sample_tiers_decode(1), of 5] head_runs_partition [OF sample_tiers_decode(1), of 8] sample_tiers_decode(2)
    by (simp add: bounded_runs_def)
qed

section \<open>Byte and text forms\<close>

text \<open>C29. \<^verbatim>\<open>AccountState::decode\<close> accepts exactly the encodings of account states in which a deleted account has no nonce,
  balance or code, and returns the state that was encoded.\<close>

theorem account_codec_exact:
  "account_decode v = Inr a \<longleftrightarrow> v = account_encode a \<and>
     (as_exists a \<or> as_nonce a = 0 \<and> as_balance a = 0 \<and> as_code_hash a = 0)"
  by (rule account_decode_eq)

text \<open>C30. Account, storage and code keys are unambiguous: keys of different kinds are different, and equal keys have equal parts.\<close>

theorem keys_unambiguous:
  "(account_key a = account_key a' \<longleftrightarrow> a = a') \<and> (storage_key a i s = storage_key a' i' s' \<longleftrightarrow> a = a' \<and> i = i' \<and> s = s') \<and>
   (code_key c = code_key c' \<longleftrightarrow> c = c') \<and> account_key a \<noteq> storage_key a' i s \<and> account_key a \<noteq> code_key c \<and>
   storage_key a i s \<noteq> code_key c"
  by simp

text \<open>C31. Parsing inverts printing for digests, byte strings, addresses and 256-bit quantities.\<close>

theorem text_forms_roundtrip:
  assumes "hex_roundtrip E"
  shows "hash32_parse E (hash32_string E h) = Inr h \<and> parse_data E (''0x'' @ hex_encode E bs) = Inr bs \<and>
    address_parse E (address_string E a) = Inr a \<and> parse_u256 E (quantity_u256 E v) = Inr v"
  by (intro conjI hash32_parse_string parse_data_hex address_parse_string parse_u256_print assms)

theorem text_forms_roundtrip_witness:
  "hash32_parse sample_ext (hash32_string sample_ext 5) = Inr 5 \<and> parse_u256 sample_ext (quantity_u256 sample_ext 300) = Inr 300"
  using text_forms_roundtrip [OF hex_sample [OF sample_like_ext], of 5 "[]" 0 300] by simp

text \<open>C32. A quantity is parsed back from its printed form, and every text that is parsed is the printed form of its value or
  has a plus sign after the prefix.\<close>

theorem quantity_canonical:
  "parse_quantity (quantity n) = Inr n \<and> (parse_quantity s = Inr m \<longrightarrow> s = quantity m \<or> s ! 2 = CHR ''+'')"
  using parse_quantity_print parse_quantity_canonical by blast

theorem quantity_canonical_witness: "quantity 31 = ''0x1f'' \<and> parse_quantity ''0x1f'' = Inr 31 \<and> parse_quantity ''0x+5'' = Inr 5"
proof -
  have q: "quantity 31 = ''0x1f''" by (simp add: quantity_def hex_nat.simps hex_digit_def)
  moreover have "parse_quantity ''0x1f'' = Inr 31" using quantity_canonical [of 31] by (simp add: q)
  moreover have "radix_digit CHR ''5'' = Some 5" using radix_hex_digit [of 5] by (simp add: hex_digit_def)
  then have "parse_quantity ''0x+5'' = Inr 5"
    by (simp add: parse_quantity_def strip_prefix_def is_ascii_uppercase_def from_str_radix16_def)
  ultimately show ?thesis by simp
qed

end
