(* ===== verification/Small_Chain.thy ===== *)
theory Small_Chain
  imports Small_Archive
begin

text \<open>
  A second block on the concrete archive of \<open>Small_Archive\<close>: a package that changes the account,
  gives it code and writes one of its slots. Publishing it succeeds, so that there is an archive with
  two runs and a store in which a writer has advanced the head.
\<close>

section \<open>The package\<close>

definition next_code :: code_blob where
  "next_code = \<lparr>cb_first_seen_block = 1, cb_code_hash = sample_keccak [96, 1], cb_bytes = [96, 1]\<rparr>"

definition next_account :: account_event where
  "next_account = \<lparr>ae_block = 1, ae_address = 7, ae_exists = True, ae_incarnation = 0, ae_nonce = 2, ae_balance = 6,
     ae_code_hash = sample_keccak [96, 1]\<rparr>"

definition next_storage :: storage_event where
  "next_storage = \<lparr>se_block = 1, se_address = 7, se_incarnation = 0, se_slot = 4, se_value = 9\<rparr>"

definition next_block :: block_meta where
  "next_block = \<lparr>bm_number = 1, bm_hash = 5, bm_parent_hash = 3, bm_state_root = 4, bm_timestamp = 1\<rparr>"

definition next_package :: package where
  "next_package = \<lparr>pk_mode = Delta, pk_preceding_number = Some 0, pk_preceding_hash = Some 3, pk_input_sha256 = 10,
     pk_segment = \<lparr>sg_schema = ''fossil-segment/1'', sg_chain_id = 1, sg_genesis_hash = 3, sg_start_block = 1, sg_end_block = 1,
       sg_blocks = [next_block], sg_accounts = [next_account], sg_storage = [next_storage], sg_code = [next_code]\<rparr>\<rparr>"

definition next_records :: "krecord list" where
  "next_records = [account_record next_account, storage_record next_storage, code_record next_code]"

lemmas next_defs = next_account_def next_storage_def next_code_def account_record_def storage_record_def code_record_def
  account_key_def storage_key_def code_key_def

lemma next_records_sorted: "ssorted (map rec_vkey next_records)"
  by (simp add: next_records_def next_defs rec_vkey_def less_prod_def)

lemma next_package_records: "sample_like E \<Longrightarrow> package_records E next_package = Inr next_records"
proof -
  assume like: "sample_like E"
  have "sorted (map rec_vkey next_records)" using next_records_sorted by (auto simp: next_records_def intro: less_imp_le)
  then have "sort_key rec_vkey next_records = next_records" by (rule sort_key_id_if_sorted)
  then show ?thesis
    by (simp add: package_records_def next_package_def next_block_def add_record_def Let_def MAX_STAGED_def MAX_CODE_def
        sample_like_simps [OF like] next_records_def next_defs account_value_def account_encode_def)
qed

lemma next_lengths: "length (page_payload next_records) = 287" "length (rec_key (hd next_records)) = 21" "last (page_payload next_records) = 1"
    "length next_records = 3"
  by (simp_all add: length_page_payload length_rec_bytes next_records_def next_defs account_value_def account_encode_def
      page_payload_def rec_bytes_def)

lemma next_small: "sample_like E \<Longrightarrow> small E next_records"
  by (rule sample_small) (simp_all add: next_lengths next_records_sorted, simp_all add: next_records_def next_defs)

lemma next_digests: "sample_like E \<Longrightarrow> small_digests E next_records = [1324, 45134, 180805]"
  using sample_digests [OF _ next_small] by (simp add: next_lengths)

section \<open>Its publication\<close>

text \<open>The key of the copy of the genesis head, and the objects of the second run, are new in the store.\<close>

lemma next_fresh:
  assumes like: "sample_like E"
    and dom: "dom (mem_contents s) = insert (head_key 1) (object_key E ` set (small_digests E sample_genesis) \<union> set (small_paths E sample_genesis))"
  shows "d \<in> {0, 2556, 1324, 45134, 180805} \<Longrightarrow> mem_contents s (object_key E d) = None"
    and "k \<in> set (small_paths E next_records) \<Longrightarrow> mem_contents s k = None"
proof -
  obtain g where g: "small_digests E sample_genesis = [g, 143438, 49733]" "unat g mod 1024 = 140"
    by (rule sample_genesis_page [OF like])
  have "g \<notin> {0, 2556, 1324, 45134, 180805}" using g(2) by auto
  then have "object_key E d \<notin> dom (mem_contents s)" if "d \<in> {0, 2556, 1324, 45134, 180805}" for d
    using that unfolding dom g(1) by (auto simp: sample_object_key_inject [OF like] small_paths_def Let_def object_key_prefix)
  then show "d \<in> {0, 2556, 1324, 45134, 180805} \<Longrightarrow> mem_contents s (object_key E d) = None" by (simp only: domIff not_not)
  have roots: "ref_digest (obj_reference (small_root E sample_genesis)) = 49733" "ref_digest (obj_reference (small_root E next_records)) = 180805"
    using g(1) next_digests [OF like] by (simp_all add: small_digests_def)
  have "shard_path E d n kind i \<noteq> head_key m" for d n kind i m by (simp add: shard_path_def head_key_def)
  then have "k \<notin> dom (mem_contents s)" if "k \<in> set (small_paths E next_records)"
    using that unfolding dom
    by (auto simp: small_paths_def Let_def object_key_prefix roots dest: sample_shard_path_inject [OF like])
  then show "k \<in> set (small_paths E next_records) \<Longrightarrow> mem_contents s k = None" by (simp only: domIff not_not)
qed

lemma next_checks:
  "first_opt (sg_blocks (pk_segment next_package)) = Some next_block" "last (sg_blocks (pk_segment next_package)) = next_block"
  "interval_ok (pk_segment next_package) next_block next_block" "gate_ok (Finalized 1 5) next_block" "sg_chain_id (pk_segment next_package) = 1"
  "bm_number next_block = 1" "bm_hash next_block = 5" "validate_lifecycle E next_package = Inr ()"
  by (simp_all add: next_package_def next_block_def interval_ok_def validate_lifecycle_def storage_matches_def account_before_def
      next_account_def next_storage_def)

text \<open>A swap on the memory store against the current version of the head.\<close>

lemma mem_swap:
  assumes copy: "copy = \<lparr>ref_digest = sha256 E (v_bytes v), ref_length = word_of_nat (length (v_bytes v))\<rparr>"
    and "mem_version t (head_key (hd_chain_id next')) = Some (v_version v)" "mem_contents t (object_key E (sha256 E (v_bytes v))) = None"
    and "head_to_json E (next'\<lparr>hd_parent := Some copy\<rparr>) = Inr bytes" "length bytes \<le> MAX_HEAD" "length (v_bytes v) \<le> MAX_HEAD"
  shows "swap E memory_store (Some v) next' t =
    (Inr (), mem_insert (head_key (hd_chain_id next')) bytes (mem_insert (object_key E (sha256 E (v_bytes v))) (v_bytes v) t))"
proof -
  let ?t = "mem_insert (object_key E (sha256 E (v_bytes v))) (v_bytes v) t"
  have put: "st_put_immutable memory_store (object_key E (sha256 E (v_bytes v))) (v_bytes v) t = (Inr (), ?t)"
    using assms(3) by (simp add: memory_store_def mem_put_immutable_def mem_contents_def)
  have "mem_version ?t (head_key (hd_chain_id next')) = Some (v_version v)" using assms(2) by (subst mem_insert_version) simp_all
  then have cas: "st_compare_and_swap memory_store (head_key (hd_chain_id next')) (Some v) bytes ?t =
      (Inr (), mem_insert (head_key (hd_chain_id next')) bytes ?t)"
    by (auto simp: memory_store_def mem_compare_and_swap_def mem_version_def)
  have "u32_try_from msg (length (v_bytes v)) = Inr (word_of_nat (length (v_bytes v)))" for msg
    using assms(6) by (simp add: u32_try_from_def MAX_HEAD_def)
  with put cas assms(4,5) show ?thesis by (simp add: swap_def stage_def bind_a_step copy)
qed

lemma genesis_head:
  "hd_l0 (publish_next sample_package run None) = [run]" "hd_levels (publish_next sample_package run None) = []"
  "hd_number (publish_next sample_package run None) = 0" "hd_hash (publish_next sample_package run None) = 3"
  "hd_genesis (publish_next sample_package run None) = 3" "hd_chain_id (publish_next sample_package run None) = 1"
  by (simp_all add: publish_next_def sample_package_def sample_block_def)

lemma genesis_head_bytes:
  assumes "length (hr_root_bytes run) = 1162"
  shows "length (put_head (publish_next sample_package run None)) = 2556" "sample_sum (put_head (publish_next sample_package run None)) = 2556"
proof -
  let ?bs = "put_head (publish_next sample_package run None)"
  show len: "length ?bs = 2556"
    using assms by (simp add: put_head_def publish_next_def put_option_def length_put sample_package_def)
  have "?bs \<noteq> []" "last ?bs = 0" by (simp_all add: put_head_def genesis_head last_append)
  with len show "sample_sum ?bs = 2556" by (simp add: sample_sum_def)
qed

lemma next_chain:
  fixes E :: "'x ext_head_scheme"
  assumes head: "sample_head_like E"
  obtains s h run s' h' run' where "archive_rep E (mem_contents s) 1 (Some (h, versions sample_genesis))"
    "mem_contents s (object_key E 0) = None" "is_published h sample_package" "head_runs h = [run]"
    "publish E memory_store next_package (Finalized 1 5) s = (Inr (), s')"
    "archive_rep E (mem_contents s') 1 (Some (h', versions (sample_genesis @ next_records)))"
    "mem_contents s' (object_key E 0) = None" "is_published h' next_package" "head_runs h' = [run, run']"
proof -
  note like = sample_head_simps(1) [OF head] and hyps = sample_hyps [OF head]
  obtain s t0 run where s: "publish_start E memory_store sample_package (Finalized 0 3) mem_empty = (Inr (Some (run, None)), t0)"
    "publish_swap E memory_store sample_package run None t0 = (Inr (), s)"
    "mem_contents s (object_key E 0) = None" "mem_contents s (head_key 1) = Some (put_head (publish_next sample_package run None))"
    "dom (mem_contents s) = insert (head_key 1) (object_key E ` set (small_digests E sample_genesis) \<union> set (small_paths E sample_genesis))"
    "length (hr_root_bytes run) = 1162"
    using sample_steps [OF head] .
  define h where "h = publish_next sample_package run None"
  note bytes = genesis_head_bytes [OF s(6), folded h_def] and fields = genesis_head [of run, folded h_def]
  have rep: "archive_rep E (mem_contents s) 1 (Some (h, versions sample_genesis))" "is_published h sample_package"
    using sample_genesis_rep [OF head sample_loop [OF s(1,2)] s(3,4)] by (simp_all add: h_def)
  from mem.read_head_total [OF rep(1), THEN outcome_total] obtain v t1 where read: "read_head E memory_store 1 s = (Inr (Some (v, h)), t1)"
    by blast
  from mem.read_head_sound [OF read] have t1: "mem_contents t1 = mem_contents s" "mem_version t1 = mem_version s" "v_bytes v = put_head h"
    "mem_version s (head_key 1) = Some (v_version v)" using s(4) by (simp_all add: h_def)
  note fresh = next_fresh [OF like s(5)]
  obtain b t where w: "write_sorted E memory_store next_records t1 = (Inr b, t)" "mem_contents t (object_key E 0) = None"
    "dom (mem_contents t) = dom (mem_contents t1) \<union> object_key E ` set (small_digests E next_records) \<union> set (small_paths E next_records)"
    "length (br_root_bytes b) = 581"
    by (rule sample_write [OF like next_small [OF like], of t1]) (use fresh in \<open>auto simp: next_digests [OF like] t1 next_lengths\<close>)
  define run' where "run' = new_run E 1 1 1 b"
  have unpublished: "\<not> is_published h next_package" by (simp add: is_published_def next_package_def next_block_def last_opt_def fields)
  have transition: "transition_ok next_package next_block (Some h)"
    by (simp add: transition_ok_def next_package_def next_block_def fields checked_succ_def)
  have start: "publish_start E memory_store next_package (Finalized 1 5) s = (Inr (Some (run', Some (v, h))), t)"
    using read w(1) next_package_records [OF like] unpublished transition
    by (simp add: publish_start_def Let_def bind_a_step next_checks run'_def fields MAX_L0_BACKLOG_def)
  have version: "mem_version t (head_key 1) = Some (v_version v)"
  proof -
    have "mem.outside t = mem.outside s" by (rule mem.publish_start_keep(2) [OF start])
    then have "\<forall>k. k \<in> immutable_keys \<or> mem_version t k = mem_version s k"
      by (auto simp: mem.outside_def restrict_map_def fun_eq_iff split: if_splits)
    from this [rule_format, of "head_key 1"] show ?thesis using t1(4) by simp
  qed
  define h' where "h' = (publish_next next_package run' (Some h))\<lparr>hd_parent := Some \<lparr>ref_digest = 2556, ref_length = 2556\<rparr>\<rparr>"
  define s' where "s' = mem_insert (head_key 1) (put_head h') (mem_insert (object_key E 2556) (put_head h) t)"
  have "mem_contents t (object_key E 2556) = None"
  proof -
    have "object_key E 2556 \<notin> dom (mem_contents t)"
      unfolding w(3) t1(1) using fresh(1) [of 2556]
      by (auto simp: next_digests [OF like] sample_object_key_inject [OF like] small_paths_def Let_def object_key_prefix)
    then show ?thesis by (simp add: domIff)
  qed
  moreover have "length (put_head h') \<le> MAX_HEAD"
    using s(6) w(4) by (simp add: h'_def h_def put_head_def publish_next_def put_option_def length_put run'_def new_run_def next_package_def
        sample_package_def sample_like_simps [OF like] length_sample_hex MAX_HEAD_def)
  moreover have chain: "hd_chain_id (publish_next next_package run' (Some h)) = 1" by (simp add: publish_next_def Let_def fields)
  ultimately have "publish_swap E memory_store next_package run' (Some (v, h)) t = (Inr (), s')"
    unfolding publish_swap_def s'_def h'_def
    using mem_swap [OF refl, of t "publish_next next_package run' (Some h)" v E "put_head h'"] version bytes t1(3)
    by (simp add: sample_head_simps [OF head] sample_like_simps [OF like] h'_def MAX_HEAD_def)
  from sample_loop [OF start this] have publish: "publish E memory_store next_package (Finalized 1 5) s = (Inr (), s')" .
  have zero: "mem_contents s' (object_key E 0) = None" using w(2) by (simp add: s'_def sample_object_key_inject [OF like])
  have "last_block next_package \<noteq> -1" by (simp add: last_block_def next_package_def next_block_def)
  have hist: "published_history (Some (h, versions sample_genesis)) next_records = versions (sample_genesis @ next_records)"
    by (rule ext) (simp add: published_history_def)
  from \<open>last_block next_package \<noteq> -1\<close> mem.publish_correct [OF publish _ hyps nonzero_mem [OF zero], unfolded next_checks, OF rep(1)] unpublished
  obtain h'' where h'': "archive_rep E (mem_contents s') 1 (Some (h'', versions (sample_genesis @ next_records)))" "is_published h'' next_package"
    by (auto simp: next_package_records [OF like] hist)
  have "h'' = h'" using h''(1) by (auto simp: archive_rep_def s'_def sample_head_simps [OF head] take_head_put)
  moreover have "head_runs h = [run]" "head_runs h' = [run, run']" by (simp_all add: head_runs_def h'_def publish_next_def Let_def fields)
  ultimately show thesis using that rep s(3) publish zero h'' by blast
qed

end
