(* ===== verification/Writers.thy ===== *)
theory Writers
  imports Compaction
begin

text \<open>
  Concurrent writers. Publishers and compactors of one chain run against one memory store, in any interleaving
  of the requests at which \<^verbatim>\<open>publish\<close> and \<^verbatim>\<open>compact_once\<close> of \<^verbatim>\<open>src/tiered.rs\<close> can be
  interrupted: the swap and the re-read of each CAS attempt are steps of their own. Writing the objects of a
  run is one step, since immutable puts under digests do not interfere. A writer may stop at any
  moment, which also covers running out of attempts. The log of a state is
  the list of packages in the order of their commits; the theorem says that
  the archive is always exactly what the log says, so no commit is lost or duplicated.
\<close>

section \<open>The step relation\<close>

datatype task =
    Publishing package head_run "(versioned_bytes \<times> head) option"
  | Retrying package head_run "(versioned_bytes \<times> head) option" error
  | Compacting head "head_run option list"
  | Folding head "head_run option list" versioned_bytes head

record writers =
  w_store :: mem_state
  w_tasks :: "task list"
  w_log :: "package list"

inductive wstep :: "'x ext_head_scheme \<Rightarrow> u64 \<Rightarrow> writers \<Rightarrow> writers \<Rightarrow> bool" for E :: "'x ext_head_scheme" and chain_id :: u64 where
  begin_publish: "wstep E chain_id \<lparr>w_store = s, w_tasks = T, w_log = L\<rparr> \<lparr>w_store = s', w_tasks = Publishing p run previous # T, w_log = L\<rparr>"
    if "publish_start E memory_store p gate s = (Inr (Some (run, previous)), s')" "sg_chain_id (pk_segment p) = chain_id" "last_block p \<noteq> -1"
| refuse_publish: "wstep E chain_id \<lparr>w_store = s, w_tasks = T, w_log = L\<rparr> \<lparr>w_store = s', w_tasks = T, w_log = L\<rparr>"
    if "publish_start E memory_store p gate s = (r, s')" "\<forall>job. r \<noteq> Inr (Some job)"
| commit_publish: "wstep E chain_id \<lparr>w_store = s, w_tasks = Publishing p run previous # T, w_log = L\<rparr> \<lparr>w_store = s', w_tasks = T, w_log = L @ [p]\<rparr>"
    if "publish_swap E memory_store p run previous s = (Inr u, s')"
| lose_publish: "wstep E chain_id \<lparr>w_store = s, w_tasks = Publishing p run previous # T, w_log = L\<rparr>
      \<lparr>w_store = s', w_tasks = Retrying p run previous e # T, w_log = L\<rparr>"
    if "publish_swap E memory_store p run previous s = (Inl e, s')"
| retry_publish: "wstep E chain_id \<lparr>w_store = s, w_tasks = Retrying p run previous e # T, w_log = L\<rparr>
      \<lparr>w_store = s', w_tasks = Publishing p run (Some current) # T, w_log = L\<rparr>"
    if "publish_retry E memory_store p previous e s = (Inr (Some current), s')"
| end_publish: "wstep E chain_id \<lparr>w_store = s, w_tasks = Retrying p run previous e # T, w_log = L\<rparr> \<lparr>w_store = s', w_tasks = T, w_log = L\<rparr>"
    if "publish_retry E memory_store p previous e s = (r, s')" "\<forall>current. r \<noteq> Inr (Some current)"
| begin_compact: "wstep E chain_id \<lparr>w_store = s, w_tasks = T, w_log = L\<rparr> \<lparr>w_store = s', w_tasks = Compacting planned levels # T, w_log = L\<rparr>"
    if "compact_start E memory_store chain_id elapsed s = Some (Inr (Some (planned, levels)), s')"
| refuse_compact: "wstep E chain_id \<lparr>w_store = s, w_tasks = T, w_log = L\<rparr> \<lparr>w_store = s', w_tasks = T, w_log = L\<rparr>"
    if "compact_start E memory_store chain_id elapsed s = Some (r, s')" "\<forall>job. r \<noteq> Inr (Some job)"
| read_compact: "wstep E chain_id \<lparr>w_store = s, w_tasks = Compacting planned levels # T, w_log = L\<rparr>
      \<lparr>w_store = s', w_tasks = Folding planned levels v h # T, w_log = L\<rparr>"
    if "compact_read E memory_store chain_id planned s = (Inr (v, h), s')"
| end_compact: "wstep E chain_id \<lparr>w_store = s, w_tasks = Compacting planned levels # T, w_log = L\<rparr> \<lparr>w_store = s', w_tasks = T, w_log = L\<rparr>"
    if "compact_read E memory_store chain_id planned s = (Inl e, s')"
| commit_compact: "wstep E chain_id \<lparr>w_store = s, w_tasks = Folding planned levels v h # T, w_log = L\<rparr> \<lparr>w_store = s', w_tasks = T, w_log = L\<rparr>"
    if "swap E memory_store (Some v) (compact_next levels h) s = (Inr u, s')"
| lose_compact: "wstep E chain_id \<lparr>w_store = s, w_tasks = Folding planned levels v h # T, w_log = L\<rparr>
      \<lparr>w_store = s', w_tasks = Compacting planned levels # T, w_log = L\<rparr>"
    if "swap E memory_store (Some v) (compact_next levels h) s = (Inl e, s')"
| stop: "wstep E chain_id \<lparr>w_store = s, w_tasks = t # T, w_log = L\<rparr> \<lparr>w_store = s, w_tasks = T, w_log = L\<rparr>"
| schedule: "wstep E chain_id \<lparr>w_store = s, w_tasks = T, w_log = L\<rparr> \<lparr>w_store = s, w_tasks = T', w_log = L\<rparr>"
    if "set T' = set T"

text \<open>Executions from the empty store in which the version counter does not wrap.\<close>

definition w_empty :: writers where
  "w_empty = \<lparr>w_store = mem_empty, w_tasks = [], w_log = []\<rparr>"

inductive wreach :: "'x ext_head_scheme \<Rightarrow> u64 \<Rightarrow> writers \<Rightarrow> bool" for E :: "'x ext_head_scheme" and chain_id :: u64 where
  start: "wreach E chain_id w_empty"
| run: "wreach E chain_id w'"
    if "wreach E chain_id w" "wstep E chain_id w w'" "m_next_version (w_store w) \<le> m_next_version (w_store w')"

section \<open>The invariant\<close>

text \<open>The histories of a log.\<close>

definition package_sorted :: "package \<Rightarrow> krecord list" where
  "package_sorted p = sort_key rec_vkey (package_log p)"

definition log_history :: "package list \<Rightarrow> bytes \<Rightarrow> krecord list" where
  "log_history L = versions (concat (map package_sorted L))"

definition follows :: "package \<Rightarrow> package \<Rightarrow> bool" where
  "follows p q \<longleftrightarrow> checked_succ (last_block p) = Some (first_block q) \<and>
     bm_parent_hash (hd (sg_blocks (pk_segment q))) = bm_hash (last (sg_blocks (pk_segment p)))"

definition logged :: "package list \<Rightarrow> (head \<times> (bytes \<Rightarrow> krecord list)) option \<Rightarrow> bool" where
  "logged L st = (successively follows L \<and>
     (case st of None \<Rightarrow> L = [] | Some (h, hist) \<Rightarrow> L \<noteq> [] \<and> hist = log_history L \<and> is_published h (last L)))"

text \<open>A version that a writer has seen belongs to the bytes that it has read, now and later.\<close>

definition seen :: "'x ext_head_scheme \<Rightarrow> u64 \<Rightarrow> mem_state \<Rightarrow> versioned_bytes \<times> head \<Rightarrow> bool" where
  "seen E chain_id s = (\<lambda>(v, h). head_from_json E (v_bytes v) = Inr h \<and> hd_chain_id h = chain_id \<and>
     (\<exists>n. v_version v = decimal (unat n) \<and> n \<le> m_next_version s) \<and>
     (mem_version s (head_key chain_id) = Some (v_version v) \<longrightarrow> mem_contents s (head_key chain_id) = Some (v_bytes v)))"

text \<open>Since a head was read, packages were published after it, or only compactors replaced runs.\<close>

definition since :: "head \<Rightarrow> (head \<times> (bytes \<Rightarrow> krecord list)) option \<Rightarrow> bool" where
  "since h0 st = (case st of None \<Rightarrow> False
     | Some (h, hist) \<Rightarrow> hd_number h0 \<le> hd_number h \<and>
         (hd_number h = hd_number h0 \<longrightarrow> hd_genesis h = hd_genesis h0 \<and> length (hd_l0 h) \<le> length (hd_l0 h0)))"

definition job_ok :: "'x ext_head_scheme \<Rightarrow> u64 \<Rightarrow> mem_state \<Rightarrow> (head \<times> (bytes \<Rightarrow> krecord list)) option \<Rightarrow> package \<Rightarrow> head_run \<Rightarrow>
    (versioned_bytes \<times> head) option \<Rightarrow> bool" where
  "job_ok E chain_id s st p run previous \<longleftrightarrow> sg_chain_id (pk_segment p) = chain_id \<and> last_block p \<noteq> -1 \<and>
     publishable E (mem_contents s) p run (package_sorted p) \<and> extends p (map_option snd previous) \<and>
     (\<forall>x. previous = Some x \<longrightarrow> seen E chain_id s x \<and> since (snd x) st)"

fun task_ok :: "'x ext_head_scheme \<Rightarrow> u64 \<Rightarrow> mem_state \<Rightarrow> (head \<times> (bytes \<Rightarrow> krecord list)) option \<Rightarrow> task \<Rightarrow> bool" where
  "task_ok E chain_id s st (Publishing p run previous) \<longleftrightarrow> job_ok E chain_id s st p run previous"
| "task_ok E chain_id s st (Retrying p run previous e) \<longleftrightarrow> job_ok E chain_id s st p run previous"
| "task_ok E chain_id s st (Compacting planned levels) \<longleftrightarrow> compactable E (mem_contents s) planned levels"
| "task_ok E chain_id s st (Folding planned levels v h) \<longleftrightarrow> compactable E (mem_contents s) planned levels \<and> seen E chain_id s (v, h) \<and>
     hd_levels h = hd_levels planned \<and> prefix (take L0_TRIGGER (hd_l0 planned)) (hd_l0 h)"

definition version_ok :: "u64 \<Rightarrow> mem_state \<Rightarrow> bool" where
  "version_ok chain_id s \<longleftrightarrow> (\<forall>v. mem_version s (head_key chain_id) = Some v \<longrightarrow> (\<exists>n. v = decimal (unat n) \<and> n \<le> m_next_version s))"

definition winv :: "'x ext_head_scheme \<Rightarrow> u64 \<Rightarrow> writers \<Rightarrow> bool" where
  "winv E chain_id w \<longleftrightarrow> (\<exists>st. archive_rep E (mem_contents (w_store w)) chain_id st \<and> logged (w_log w) st \<and>
     version_ok chain_id (w_store w) \<and> (\<forall>t\<in>set (w_tasks w). task_ok E chain_id (w_store w) st t))"

section \<open>Steps that leave the head alone\<close>

text \<open>The head, its version and every object survive, and the counter does not go back.\<close>

definition quiet :: "u64 \<Rightarrow> mem_state \<Rightarrow> mem_state \<Rightarrow> bool" where
  "quiet chain_id s s' \<longleftrightarrow> objects_le (mem_contents s) (mem_contents s') \<and>
     mem_contents s' (head_key chain_id) = mem_contents s (head_key chain_id) \<and>
     mem_version s' (head_key chain_id) = mem_version s (head_key chain_id) \<and> m_next_version s \<le> m_next_version s'"

lemma quiet_refl [simp]: "quiet chain_id s s"
  by (simp add: quiet_def)

lemma seen_quiet: "seen E chain_id s x \<Longrightarrow> quiet chain_id s s' \<Longrightarrow> seen E chain_id s' x"
  by (auto simp: seen_def quiet_def intro: order_trans)

lemma task_ok_quiet: "task_ok E chain_id s st t \<Longrightarrow> quiet chain_id s s' \<Longrightarrow> task_ok E chain_id s' st t"
  by (cases t) (auto simp: job_ok_def quiet_def intro: publishable_objects compactable_objects seen_quiet [unfolded quiet_def])

lemma winv_quiet:
  assumes "winv E chain_id \<lparr>w_store = s, w_tasks = T, w_log = L\<rparr>" "quiet chain_id s s'"
    and "\<And>st. archive_rep E (mem_contents s) chain_id st \<Longrightarrow> archive_rep E (mem_contents s') chain_id st \<Longrightarrow> version_ok chain_id s \<Longrightarrow>
      \<forall>t\<in>set T. task_ok E chain_id s st t \<and> task_ok E chain_id s' st t \<Longrightarrow> \<forall>t\<in>set T'. task_ok E chain_id s' st t"
  shows "winv E chain_id \<lparr>w_store = s', w_tasks = T', w_log = L\<rparr>"
proof -
  from assms(1) obtain st where st: "archive_rep E (mem_contents s) chain_id st" "logged L st" "version_ok chain_id s"
    "\<forall>t\<in>set T. task_ok E chain_id s st t" by (auto simp: winv_def)
  moreover have "archive_rep E (mem_contents s') chain_id st"
    using st(1) assms(2) by (auto simp: quiet_def intro: archive_rep_same)
  moreover have "version_ok chain_id s'" using st(3) assms(2) by (auto simp: version_ok_def quiet_def intro: order_trans)
  ultimately show ?thesis using assms(3) task_ok_quiet [OF _ assms(2)] unfolding winv_def by fastforce
qed

lemma quiet_objects:
  assumes "mem_contents s \<subseteq>\<^sub>m mem_contents s'" "mem.outside s' = mem.outside s" "m_next_version s \<le> m_next_version s'"
  shows "quiet chain_id s s'"
  using objects_le_map_le [OF assms(1)] mem.outside_head [OF assms(2), of chain_id] assms(3) by (simp add: quiet_def)

lemma quiet_lost:
  assumes "swap E memory_store previous nxt s = (Inl e, s')" "m_next_version s \<le> m_next_version s'"
  shows "quiet chain_id s s'"
  using mem.swap_sound [OF assms(1), of chain_id] assms(2) by (simp add: quiet_def)

lemma quiet_read:
  assumes "mem_contents s' = mem_contents s" "mem_version s' = mem_version s" "m_next_version s \<le> m_next_version s'"
  shows "quiet chain_id s s'"
  using assms by (simp add: quiet_def)

text \<open>What a writer has just read is the current head.\<close>

lemma seen_read:
  assumes "head_read E (mem_contents s) chain_id (Some (v, h))" "mem_version s (head_key chain_id) = Some (v_version v)" "version_ok chain_id s"
  shows "seen E chain_id s (v, h)"
  using assms by (auto simp: seen_def head_read_def version_ok_def)

lemma since_read:
  assumes "archive_rep E (mem_contents s) chain_id st" "head_read E (mem_contents s) chain_id (Some (v, h))"
  shows "since h st"
  using archive_read [OF assms] by (cases st) (auto simp: since_def)

lemma publish_begun:
  assumes start: "publish_start E memory_store p gate s = (Inr (Some (run, previous)), s')" and chain: "sg_chain_id (pk_segment p) = chain_id" "last_block p \<noteq> -1"
    and rep: "archive_rep E (mem_contents s) chain_id st" "version_ok chain_id s" and quiet: "quiet chain_id s s'"
    and hyps: "zstd_roundtrip E" "hex_roundtrip E" "nonzero (store_holds E (mem_contents s'))"
  shows "job_ok E chain_id s' st p run previous"
proof -
  note job = mem.publish_start_job [OF start hyps, unfolded chain(1)]
  from job(3) obtain recs where recs: "publishable E (mem_contents s') p run recs" by blast
  then have "recs = package_sorted p" using package_records_eq(1) by (auto simp: publishable_def package_sorted_def)
  moreover have "seen E chain_id s' x \<and> since (snd x) st" if "previous = Some x" for x
  proof -
    obtain v h where x: "x = (v, h)" by (rule prod.exhaust)
    then have "mem_version s (head_key chain_id) = Some (v_version v)" "head_read E (mem_contents s) chain_id (Some (v, h))"
      using job(1,4) that by auto
    with seen_read [OF this(2,1) rep(2)] since_read [OF rep(1) this(2)] quiet show ?thesis by (auto simp: x intro: seen_quiet)
  qed
  ultimately show ?thesis using job(2) recs chain by (simp add: job_ok_def)
qed

lemma publish_retried:
  assumes retry: "publish_retry E memory_store p previous e s = (Inr (Some current), s')"
    and rep: "archive_rep E (mem_contents s) chain_id st" "version_ok chain_id s" and quiet: "quiet chain_id s s'"
    and ok: "job_ok E chain_id s st p run previous"
  shows "job_ok E chain_id s' st p run (Some current)"
proof -
  have chain: "sg_chain_id (pk_segment p) = chain_id" using ok by (simp add: job_ok_def)
  from retry obtain r where read: "read_head E memory_store chain_id s = (Inr r, s')"
    and r: "(case (r, previous) of
         (Some (bytes, now), _) \<Rightarrow>
           if is_published now p then ret None
           else (case previous of
                   Some (_, before) \<Rightarrow>
                     if hd_number now = hd_number before \<and> hd_hash now = hd_hash before then ret r else lift_r (Inl e)
                 | None \<Rightarrow> lift_r (Inl e))
       | _ \<Rightarrow> lift_r (Inl e)) s' = (Inr (Some current), s')"
    by (auto simp: publish_retry_def chain) (auto split: option.splits if_splits prod.splits)
  then obtain v now before where cur: "r = Some (v, now)" "current = (v, now)" "\<not> is_published now p" and before: "map_option snd previous = Some before"
      "hd_number now = hd_number before" "hd_hash now = hd_hash before"
    by (cases r; cases previous) (auto split: if_splits)
  have hr: "head_read E (mem_contents s) chain_id (Some (v, now))" "mem_version s (head_key chain_id) = Some (v_version v)"
    using mem.read_head_sound [OF read [unfolded cur(1)]] by (simp_all add: head_read_def)
  have "since before st" "extends p (Some before)" using ok before(1) by (auto simp: job_ok_def)
  moreover obtain hist where st: "st = Some (now, hist)" using archive_read [OF rep(1) hr(1)] by (cases st) auto
  ultimately have "extends p (Some now)"
    using before(2,3) cur(3) hr(1) chain by (auto simp: since_def extends_def transition_ok_def head_read_def Let_def split: mode.splits)
  moreover have "seen E chain_id s' current" "since (snd current) st"
    using seen_read [OF hr rep(2)] since_read [OF rep(1) hr(1)] quiet by (auto simp: cur(2) intro: seen_quiet)
  ultimately show ?thesis
    using ok quiet by (auto simp: job_ok_def quiet_def cur(2) intro: publishable_objects)
qed

section \<open>Commits\<close>

lemma mem_swap_version:
  assumes "swap E memory_store previous nxt s = (Inr u, s')" "m_next_version s \<le> m_next_version s'"
  shows "m_next_version s < m_next_version s'" "mem_version s' (head_key (hd_chain_id nxt)) = Some (decimal (unat (m_next_version s')))"
proof -
  have stage: "m_next_version t \<in> {m_next_version s, m_next_version s + 1}" if "stage E memory_store bs s = (Inr r, t)" for bs r t
    using that by (auto simp: stage_def memory_store_def mem_put_immutable_def mem_insert_def Let_def bail_def split: option.splits if_splits)
  from assms(1) obtain t bs where t: "m_next_version t \<in> {m_next_version s, m_next_version s + 1}"
    and s': "s' = mem_insert (head_key (hd_chain_id nxt)) bs t"
    by (cases previous) (auto simp: swap_def memory_store_def mem_compare_and_swap_def Let_def bail_def
        split: option.splits if_splits dest!: stage [unfolded memory_store_def])
  then have "m_next_version s' \<noteq> m_next_version s" by (auto simp: mem_insert_def Let_def add.assoc)
  with assms(2) show "m_next_version s < m_next_version s'" by simp
  show "mem_version s' (head_key (hd_chain_id nxt)) = Some (decimal (unat (m_next_version s')))"
    by (simp add: s' mem_version_def mem_insert_def Let_def update_conv')
qed

text \<open>After a commit, no other writer holds the current version.\<close>

lemma winv_commit:
  assumes swap: "swap E memory_store previous nxt s = (Inr u, s')" "hd_chain_id nxt = chain_id" "m_next_version s \<le> m_next_version s'"
    and tasks: "\<forall>t\<in>set T. task_ok E chain_id s st t" and new: "archive_rep E (mem_contents s') chain_id st'" "logged L' st'"
    and since: "\<And>h0. since h0 st \<Longrightarrow> since h0 st'"
  shows "winv E chain_id \<lparr>w_store = s', w_tasks = T, w_log = L'\<rparr>"
proof -
  note version = mem_swap_version [OF swap(1,3), unfolded swap(2)]
  have le: "objects_le (mem_contents s) (mem_contents s')" using mem.swap_sound [OF swap(1)] by simp
  have seen: "seen E chain_id s' x" if "seen E chain_id s x" for x
  proof -
    from that obtain n where n: "v_version (fst x) = decimal (unat n)" "n \<le> m_next_version s" by (auto simp: seen_def)
    then have less: "n < m_next_version s'" using version(1) by simp
    then have "unat n \<noteq> unat (m_next_version s')" by (simp add: word_less_nat_alt)
    moreover have "n \<le> m_next_version s'" using less by (rule less_imp_le)
    ultimately show ?thesis using n that version(2) by (auto simp: seen_def)
  qed
  have "task_ok E chain_id s' st' t" if "task_ok E chain_id s st t" for t
    using that le seen since by (cases t) (auto simp: job_ok_def intro: publishable_objects compactable_objects)
  moreover have "version_ok chain_id s'" using version(2) by (auto simp: version_ok_def)
  ultimately show ?thesis using tasks new by (auto simp: winv_def)
qed

text \<open>A swap that succeeds replaces the head its writer has read.\<close>

lemma swap_current:
  assumes "swap E memory_store (map_option fst previous) nxt s = (Inr u, s')" "hd_chain_id nxt = chain_id"
    and "\<forall>x. previous = Some x \<longrightarrow> seen E chain_id s x" "archive_rep E (mem_contents s) chain_id st"
  shows "map_option snd previous = map_option fst st"
proof -
  have version: "mem_version s (head_key chain_id) = map_option (v_version \<circ> fst) previous"
    using mem.swap_sound [OF assms(1)] assms(2) by (simp add: option.map_comp)
  show ?thesis
  proof (cases previous)
    case None
    then have "mem_contents s (head_key chain_id) = None" using version mem.version_dom [of s "head_key chain_id"] by simp
    with None assms(4) show ?thesis by (auto simp: archive_rep_def split: option.splits)
  next
    case (Some x)
    then have "mem_contents s (head_key chain_id) = Some (v_bytes (fst x))" "head_from_json E (v_bytes (fst x)) = Inr (snd x)"
      using assms(3) version by (auto simp: seen_def)
    with Some assms(4) show ?thesis by (auto simp: archive_rep_def split: option.splits)
  qed
qed

lemma extends_number:
  assumes "extends p (Some h)" "linked (sg_blocks (pk_segment p))" "sg_blocks (pk_segment p) \<noteq> []"
  shows "hd_number h < last_block p"
proof -
  from assms(1) have "checked_succ (hd_number h) = Some (first_block p)"
    by (auto simp: extends_def transition_ok_def Let_def first_block_def split: mode.splits)
  moreover have "first_block p \<le> last_block p" using linked_le [OF assms(2,3)] by (simp add: first_block_def last_block_def)
  ultimately show ?thesis using plus_one_le(1) [of "hd_number h" "last_block p"] by (auto simp: checked_succ_def split: if_splits)
qed

lemma logged_publish:
  assumes "logged L st" "extends p (map_option fst st)" "is_published h p"
  shows "logged (L @ [p]) (Some (h, published_history st (package_sorted p)))"
proof (cases st)
  case None
  with assms show ?thesis by (simp add: logged_def published_history_def log_history_def)
next
  case (Some x)
  obtain h0 hist where x: "x = (h0, hist)" by (rule prod.exhaust)
  from assms(1) Some x have L: "L \<noteq> []" "hist = log_history L" "is_published h0 (last L)" "successively follows L" by (auto simp: logged_def)
  have "follows (last L) p"
    using L(3) assms(2) Some x
    by (auto simp: follows_def extends_def transition_ok_def is_published_def Let_def first_block_def last_block_def split: mode.splits option.splits)
  with L have "successively follows (L @ [p])" by (simp add: successively_append_iff)
  with L assms(3) Some x show ?thesis by (simp add: logged_def published_history_def log_history_def fun_eq_iff)
qed

lemma winv_publish:
  assumes inv: "winv E chain_id \<lparr>w_store = s, w_tasks = Publishing p run previous # T, w_log = L\<rparr>"
    and swap: "publish_swap E memory_store p run previous s = (Inr u, s')" "m_next_version s \<le> m_next_version s'"
    and hyps: "json_roundtrip E" "nonzero (store_holds E (mem_contents s'))"
  shows "winv E chain_id \<lparr>w_store = s', w_tasks = T, w_log = L @ [p]\<rparr>"
proof -
  from inv obtain st where st: "archive_rep E (mem_contents s) chain_id st" "logged L st" "job_ok E chain_id s st p run previous"
    "\<forall>t\<in>set T. task_ok E chain_id s st t" by (auto simp: winv_def)
  then have job: "sg_chain_id (pk_segment p) = chain_id" "last_block p \<noteq> -1" "publishable E (mem_contents s) p run (package_sorted p)"
    "extends p (map_option snd previous)" "\<forall>x. previous = Some x \<longrightarrow> seen E chain_id s x" by (auto simp: job_ok_def)
  then have blocks: "linked (sg_blocks (pk_segment p))" "sg_blocks (pk_segment p) \<noteq> []" by (auto simp: publishable_def)
  note nxt = is_published_next [OF job(4) blocks(2), unfolded job(1)]
  have head: "map_option snd previous = map_option fst st"
    by (rule swap_current [OF swap(1) [unfolded publish_swap_def] nxt(2) job(5) st(1)])
  have ext: "extends p (map_option fst st)" using job(4) head by simp
  obtain parent where new: "archive_rep E (mem_contents s') chain_id
      (Some ((publish_next p run (map_option fst st))\<lparr>hd_parent := parent\<rparr>, published_history st (package_sorted p)))"
    using mem.publish_swap_rep [OF swap(1) _ head ext job(3,2) hyps] st(1) job(1) by auto
  show ?thesis
  proof (rule winv_commit [OF swap(1) [unfolded publish_swap_def] nxt(2) swap(2) st(4) new])
    show "logged (L @ [p]) (Some ((publish_next p run (map_option fst st))\<lparr>hd_parent := parent\<rparr>, published_history st (package_sorted p)))"
      using logged_publish [OF st(2) ext] nxt(1) head by simp
    show "since h0 (Some ((publish_next p run (map_option fst st))\<lparr>hd_parent := parent\<rparr>, published_history st (package_sorted p)))"
      if "since h0 st" for h0
    proof -
      from that obtain h hist where h: "st = Some (h, hist)" "hd_number h0 \<le> hd_number h" by (auto simp: since_def split: option.splits)
      have "hd_number h < last_block p" using extends_number [OF _ blocks, of h] ext h(1) by simp
      moreover have "hd_number (publish_next p run (map_option fst st)) = last_block p" by (simp add: publish_next_def Let_def last_block_def)
      ultimately show ?thesis using h(2) by (auto simp: since_def)
    qed
  qed
qed

lemma winv_compact:
  assumes inv: "winv E chain_id \<lparr>w_store = s, w_tasks = Folding planned levels v h # T, w_log = L\<rparr>"
    and swap: "swap E memory_store (Some v) (compact_next levels h) s = (Inr u, s')" "m_next_version s \<le> m_next_version s'"
    and hyps: "hex_roundtrip E" "json_roundtrip E" "nonzero (store_holds E (mem_contents s'))"
  shows "winv E chain_id \<lparr>w_store = s', w_tasks = T, w_log = L\<rparr>"
proof -
  from inv obtain st where st: "archive_rep E (mem_contents s) chain_id st" "logged L st" "compactable E (mem_contents s) planned levels"
    "seen E chain_id s (v, h)" "hd_levels h = hd_levels planned" "prefix (take L0_TRIGGER (hd_l0 planned)) (hd_l0 h)"
    "\<forall>t\<in>set T. task_ok E chain_id s st t" by (auto simp: winv_def)
  have chain: "hd_chain_id (compact_next levels h) = chain_id" using st(4) by (simp add: seen_def compact_levels_next)
  have "map_option snd (Some (v, h)) = map_option fst st"
    by (rule swap_current [OF _ chain _ st(1), of "Some (v, h)"]) (use swap(1) st(4) in auto)
  then obtain hist where hist: "st = Some (h, hist)" by (cases st) auto
  obtain parent where new: "archive_rep E (mem_contents s') chain_id (Some ((compact_next levels h)\<lparr>hd_parent := parent\<rparr>, hist))"
    using mem.compact_swap_rep [OF swap(1) st(1) [unfolded hist] st(3,5,6) hyps] by blast
  show ?thesis
  proof (rule winv_commit [OF swap(1) chain swap(2) st(7) new])
    show "logged L (Some ((compact_next levels h)\<lparr>hd_parent := parent\<rparr>, hist))"
      using st(2) by (auto simp: logged_def hist is_published_def compact_next_def Let_def split: option.splits)
    show "since h0 (Some ((compact_next levels h)\<lparr>hd_parent := parent\<rparr>, hist))" if "since h0 st" for h0
      using that by (auto simp: since_def hist compact_next_def)
  qed
qed

section \<open>Every execution\<close>

context archive_laws begin

lemma compact_start_keep:
  assumes "compact_start E S chain_id elapsed s = Some (res, s')"
  shows "contents s \<subseteq>\<^sub>m contents s'" "outside s' = outside s"
proof -
  obtain r t where read: "read_head E S chain_id s = (r, t)" by (rule prod.exhaust)
  have t: "contents t = contents s" "outside t = outside s" using read_head_sound [OF read] by (simp_all add: outside_def)
  have "s' = t \<or> (\<exists>refs n res'. merge_runs E S refs n t = Some (res', s'))"
    using assms read by (auto simp: compact_start_def split: sum.splits option.splits prod.splits if_splits)
  then show "contents s \<subseteq>\<^sub>m contents s'" "outside s' = outside s"
    using merge_runs_keep [OF keeps_contents, of E _ _ t _ s'] merge_runs_keep [OF keeps_outside, of E _ _ t _ s'] t
    by (auto simp: has_le_iff le_fun_def)
qed

lemma publish_retry_contents: "publish_retry E S p previous e s = (res, s') \<Longrightarrow> contents s' = contents s \<and> version s' = version s"
proof -
  assume retry: "publish_retry E S p previous e s = (res, s')"
  obtain r t where read: "read_head E S (sg_chain_id (pk_segment p)) s = (r, t)" by (rule prod.exhaust)
  have "s' = t" using retry read by (auto simp: publish_retry_def bind_a_def split: sum.splits option.splits prod.splits if_splits)
  then show ?thesis using read_head_sound [OF read] by simp
qed

end

lemmas writer_keeps = mem.publish_start_keep mem.compact_start_keep mem.publish_retry_contents mem.compact_read_sound mem.swap_sound

lemma wstep_objects: "wstep E chain_id w w' \<Longrightarrow> objects_le (mem_contents (w_store w)) (mem_contents (w_store w'))"
  by (induction rule: wstep.induct)
    (auto simp: publish_swap_def dest: writer_keeps intro: objects_le_map_le)

lemma wstep_inv:
  assumes "wstep E chain_id w w'" "winv E chain_id w" "m_next_version (w_store w) \<le> m_next_version (w_store w')"
    and hyps: "zstd_roundtrip E" "hex_roundtrip E" "json_roundtrip E" "nonzero (store_holds E (mem_contents (w_store w')))"
  shows "winv E chain_id w'"
  using assms(1)
proof cases
  case (begin_publish p gate s run previous s' T L)
  note next_le = assms(3) [unfolded begin_publish(1,2), simplified]
  have q: "quiet chain_id s s'" using mem.publish_start_keep [OF begin_publish(3)] next_le by (rule quiet_objects)
  show ?thesis unfolding begin_publish(2)
    using assms(2) [unfolded begin_publish(1)] q
  proof (rule winv_quiet)
    fix st assume "archive_rep E (mem_contents s) chain_id st" "version_ok chain_id s" and T: "\<forall>t\<in>set T. task_ok E chain_id s st t \<and> task_ok E chain_id s' st t"
    then have "job_ok E chain_id s' st p run previous"
      using publish_begun [OF begin_publish(3-5) _ _ q hyps(1,2)] hyps(4) begin_publish(2) by simp
    with T show "\<forall>t\<in>set (Publishing p run previous # T). task_ok E chain_id s' st t" by simp
  qed
next
  case (refuse_publish p gate s r s' T L)
  have "quiet chain_id s s'" using mem.publish_start_keep [OF refuse_publish(3)] assms(3) refuse_publish(1,2) by (intro quiet_objects) simp_all
  then show ?thesis unfolding refuse_publish(2) by (rule winv_quiet [OF assms(2) [unfolded refuse_publish(1)]]) simp
next
  case (lose_publish p run previous s e s' T L)
  have "quiet chain_id s s'" using quiet_lost [OF lose_publish(3) [unfolded publish_swap_def]] assms(3) lose_publish(1,2) by simp
  then show ?thesis unfolding lose_publish(2) by (rule winv_quiet [OF assms(2) [unfolded lose_publish(1)]]) auto
next
  case (retry_publish p previous e s current s' run T L)
  have q: "quiet chain_id s s'"
    using mem.publish_retry_contents [OF retry_publish(3)] assms(3) retry_publish(1,2) by (intro quiet_read) simp_all
  then show ?thesis unfolding retry_publish(2)
    by (rule winv_quiet [OF assms(2) [unfolded retry_publish(1)]]) (auto intro: publish_retried [OF retry_publish(3) _ _ q])
next
  case (end_publish p previous e s r s' run T L)
  have "quiet chain_id s s'"
    using mem.publish_retry_contents [OF end_publish(3)] assms(3) end_publish(1,2) by (intro quiet_read) simp_all
  then show ?thesis unfolding end_publish(2) by (rule winv_quiet [OF assms(2) [unfolded end_publish(1)]]) auto
next
  case (begin_compact elapsed s planned levels s' T L)
  have q: "quiet chain_id s s'" using mem.compact_start_keep [OF begin_compact(3)] assms(3) begin_compact(1,2) by (intro quiet_objects) simp_all
  have nz: "nonzero (store_holds E (mem_contents s))" using hyps(4) q begin_compact(2) by (auto simp: quiet_def intro: nonzero_objects)
  show ?thesis unfolding begin_compact(2)
    using assms(2) [unfolded begin_compact(1)] q
  proof (rule winv_quiet)
    fix st assume rep: "archive_rep E (mem_contents s) chain_id st" and T: "\<forall>t\<in>set T. task_ok E chain_id s st t \<and> task_ok E chain_id s' st t"
    have "compactable E (mem_contents s') planned levels"
      using mem.compact_start_sound [OF rep nz, of elapsed] begin_compact(2,3) hyps(1,4) by auto
    with T show "\<forall>t\<in>set (Compacting planned levels # T). task_ok E chain_id s' st t" by simp
  qed
next
  case (refuse_compact elapsed s r s' T L)
  have "quiet chain_id s s'" using mem.compact_start_keep [OF refuse_compact(3)] assms(3) refuse_compact(1,2) by (intro quiet_objects) simp_all
  then show ?thesis unfolding refuse_compact(2) by (rule winv_quiet [OF assms(2) [unfolded refuse_compact(1)]]) simp
next
  case (read_compact planned s v h s' levels T L)
  note sound = mem.compact_read_sound [OF read_compact(3)]
  have q: "quiet chain_id s s'" using sound assms(3) read_compact(1,2) by (intro quiet_read) simp_all
  show ?thesis unfolding read_compact(2)
    using assms(2) [unfolded read_compact(1)] q
  proof (rule winv_quiet)
    fix st assume "version_ok chain_id s" and T: "\<forall>t\<in>set (Compacting planned levels # T). task_ok E chain_id s st t \<and> task_ok E chain_id s' st t"
    then have "seen E chain_id s' (v, h)" using seen_read sound q by (blast intro: seen_quiet)
    with T sound show "\<forall>t\<in>set (Folding planned levels v h # T). task_ok E chain_id s' st t" by auto
  qed
next
  case (end_compact planned s e s' levels T L)
  have "quiet chain_id s s'" using mem.compact_read_sound [OF end_compact(3)] assms(3) end_compact(1,2) by (intro quiet_read) simp_all
  then show ?thesis unfolding end_compact(2) by (rule winv_quiet [OF assms(2) [unfolded end_compact(1)]]) auto
next
  case (lose_compact v levels h s e s' planned T L)
  have "quiet chain_id s s'" using quiet_lost [OF lose_compact(3)] assms(3) lose_compact(1,2) by simp
  then show ?thesis unfolding lose_compact(2) by (rule winv_quiet [OF assms(2) [unfolded lose_compact(1)]]) auto
next
  case (stop s t T L)
  then show ?thesis using assms(2) by (auto simp: winv_def)
next
  case (schedule T' T s L)
  then show ?thesis using assms(2) by (auto simp: winv_def)
next
  case (commit_publish p run previous s u s' T L)
  then show ?thesis using winv_publish [OF _ commit_publish(3) _ hyps(3)] assms(2,3) hyps(4) by simp
next
  case (commit_compact v levels h s u s' planned T L)
  then show ?thesis using winv_compact [OF _ commit_compact(3) _ hyps(2,3)] assms(2,3) hyps(4) by simp
qed

lemma winv_start: "winv E chain_id w_empty"
  unfolding winv_def w_empty_def
  by (rule exI [of _ None]) (simp add: archive_rep_def logged_def version_ok_def mem_empty_def mem_contents_def mem_version_def)

theorem writers_correct:
  assumes "wreach E chain_id w" "zstd_roundtrip E" "hex_roundtrip E" "json_roundtrip E"
    and "nonzero (store_holds E (mem_contents (w_store w)))"
  shows "winv E chain_id w"
  using assms(1,5)
proof induction
  case start
  show ?case by (rule winv_start)
next
  case (run w w')
  have "nonzero (store_holds E (mem_contents (w_store w)))" using run.prems wstep_objects [OF run.hyps(2)] by (rule nonzero_objects)
  with run.IH have "winv E chain_id w" .
  from wstep_inv [OF run.hyps(2) this run.hyps(3) assms(2-4) run.prems] show ?case .
qed

end
