(* ===== verification/Reader_Properties.thy ===== *)
theory Reader_Properties
  imports Tiered_Reader Archive_Properties Small_Chain Writers
begin

text \<open>
  The properties of reads on the memory store, as a client of \<^verbatim>\<open>Reader\<close> sees them: every answer is
  the one the histories of the pinned head give, the budget is enough, and later writers do
  not change what a pinned reader answers.
\<close>

section \<open>Concrete third-party operations\<close>

text \<open>A cache that keeps everything.\<close>

definition sample_cache_ext :: ext_cache where
  "sample_cache_ext = ext_head.extend sample_head_ext (ext_cache.fields (\<lambda>n weights. map fst weights))"

lemma sample_cache_like [simp]: "sample_head_like sample_cache_ext"
  by (simp add: sample_cache_ext_def sample_head_like_def sample_head_ext_def sample_like_def sample_ext_def
      ext.defs ext_head.defs ext_cache.defs)

definition fresh :: "mem_state \<Rightarrow> mem_state reading" where
  "fresh s = \<lparr>rd_store = s, rd_cache = [], rd_budget = budget_default\<rparr>"

lemma fresh_ok: "reading_ok mem_contents (mem_contents s) (fresh s)"
  by (simp add: fresh_def reading_ok_def cache_ok_def)

text \<open>An action on the memory store whose errors are those of its specification.\<close>

lemma outcome_exact:
  assumes "outcome (\<lambda>e. False \<or> spec = Inl e) (\<lambda>x st'. spec = Inr x \<and> P st') (r, s)"
  shows "r = spec"
  using assms by (cases r) auto

lemma opened:
  assumes "archive_rep E (mem_contents s) chain_id (Some (h, hist))" "mem_contents s (object_key E 0) = None"
  obtains rd s' where "reader_open E memory_store chain_id s = (Inr rd, s')" "pinned_rep E (mem_contents s) rd h hist"
    "mem_contents s' = mem_contents s"
  using mem.reader_open_correct [OF assms(1) nonzero_mem [OF assms(2)], THEN outcome_total] by blast

section \<open>Answers\<close>

text \<open>C1. On a store that represents an archive, opening a reader succeeds and an account read at any block up to the head
  returns exactly what the histories of the head say, errors of the account encoding included. The
  budget of a request is never exceeded by an account read.\<close>

theorem account_read_exact:
  assumes "archive_rep E (mem_contents s) chain_id (Some (h, hist))" "mem_contents s (object_key E 0) = None" "block \<le> hd_number h"
  shows "\<exists>rd s'. reader_open E memory_store chain_id s = (Inr rd, s') \<and>
    fst (reader_account E memory_store rd a block (fresh s')) = account_at hist a block"
proof -
  obtain rd s' where rd: "reader_open E memory_store chain_id s = (Inr rd, s')" "pinned_rep E (mem_contents s) rd h hist"
    "mem_contents s' = mem_contents s" using opened [OF assms(1,2)] .
  from mem.reader_account_correct [OF rd(2) fresh_ok [of s', unfolded rd(3)] assms(3), of a]
  have "fst (reader_account E memory_store rd a block (fresh s')) = account_at hist a block"
    by (cases "reader_account E memory_store rd a block (fresh s')") (simp add: outcome_exact)
  with rd(1) show ?thesis by blast
qed

theorem account_read_exact_witness:
  "\<exists>s rd s' e. reader_open sample_cache_ext memory_store 1 s = (Inr rd, s') \<and>
    fst (reader_account sample_cache_ext memory_store rd 7 0 (fresh s')) = Inr (Some e) \<and> ae_balance e = 5"
proof -
  obtain s h where s: "archive_rep sample_cache_ext (mem_contents s) 1 (Some (h, versions sample_genesis))"
    "mem_contents s (object_key sample_cache_ext 0) = None" by (rule sample_archive [OF sample_cache_like])
  have "state_at (versions sample_genesis) (account_key 7) 0 = Some (account_value sample_account)"
    by (simp add: state_at_def versions_def sample_genesis_def account_record_def sample_account_def last_opt_def)
  moreover have "account_decode (account_value sample_account) =
      Inr \<lparr>as_exists = True, as_incarnation = 0, as_nonce = 1, as_balance = 5, as_code_hash = sample_keccak []\<rparr>"
    by (simp add: account_decode_eq account_value_def sample_account_def)
  ultimately have "\<exists>e. account_at (versions sample_genesis) 7 0 = Inr (Some e) \<and> ae_balance e = 5" by (simp add: account_at_def)
  then obtain e where "account_at (versions sample_genesis) 7 0 = Inr (Some e)" "ae_balance e = 5" by blast
  moreover obtain rd s' where "reader_open sample_cache_ext memory_store 1 s = (Inr rd, s')"
    "fst (reader_account sample_cache_ext memory_store rd 7 0 (fresh s')) = account_at (versions sample_genesis) 7 0"
    using account_read_exact [OF s, of 0 7] by auto
  ultimately show ?thesis by (intro exI [of _ s] exI [of _ rd] exI [of _ s'] exI [of _ e]) simp
qed

text \<open>C2. A storage read returns exactly the value of the slot in the current incarnation of an existing account, and zero for an
  absent account, a deleted account or an absent slot. With more than 16 runs a
  request may instead fail; it never returns another value.\<close>

theorem storage_read_exact:
  assumes "archive_rep E (mem_contents s) chain_id (Some (h, hist))" "mem_contents s (object_key E 0) = None" "block \<le> hd_number h"
  shows "\<exists>rd s'. reader_open E memory_store chain_id s = (Inr rd, s') \<and>
    (let r = fst (reader_storage E memory_store rd a slot block (fresh s'))
     in (length (head_runs h) \<le> 16 \<longrightarrow> r = storage_at hist a slot block) \<and> (\<forall>v. r = Inr v \<longrightarrow> storage_at hist a slot block = Inr v))"
proof -
  obtain rd s' where rd: "reader_open E memory_store chain_id s = (Inr rd, s')" "pinned_rep E (mem_contents s) rd h hist"
    "mem_contents s' = mem_contents s" using opened [OF assms(1,2)] .
  obtain r t where run: "reader_storage E memory_store rd a slot block (fresh s') = (r, t)" by (rule prod.exhaust)
  from mem.reader_storage_correct [OF rd(2) fresh_ok [of s', unfolded rd(3)] assms(3), of a slot] rd(1) run show ?thesis
    by (cases r) (auto simp: Let_def)
qed

text \<open>C3. A code read returns the code whose hash the account names, checked against it, and nothing for an
  account without code. With more than 16 runs a request may instead fail; it never returns other code.\<close>

theorem code_read_exact:
  assumes "archive_rep E (mem_contents s) chain_id (Some (h, hist))" "mem_contents s (object_key E 0) = None" "block \<le> hd_number h"
  shows "\<exists>rd s'. reader_open E memory_store chain_id s = (Inr rd, s') \<and>
    (let r = fst (reader_code E memory_store rd a block (fresh s'))
     in (length (head_runs h) \<le> 16 \<longrightarrow> r = code_at E hist a block) \<and>
        (\<forall>v. r = Inr v \<longrightarrow> code_at E hist a block = Inr v \<and> (v \<noteq> [] \<longrightarrow> (\<exists>e. account_at hist a block = Inr (Some e) \<and> ae_code_hash e = keccak256 E v))))"
proof -
  obtain rd s' where rd: "reader_open E memory_store chain_id s = (Inr rd, s')" "pinned_rep E (mem_contents s) rd h hist"
    "mem_contents s' = mem_contents s" using opened [OF assms(1,2)] .
  have hash: "\<exists>e. account_at hist a block = Inr (Some e) \<and> ae_code_hash e = keccak256 E v" if "code_at E hist a block = Inr v" "v \<noteq> []" for v
  proof -
    from that(1) obtain x where x: "account_at hist a block = Inr x" by (auto simp: code_at_def live_account_def)
    note spec = that [unfolded code_at_def live_account_simps(1) [OF x]]
    then obtain e where e: "x = Some e" "ae_exists e" by (cases x) (auto split: if_splits)
    with spec have "ae_code_hash e = keccak256 E v" by (auto simp: bail_def split: if_splits option.splits)
    with x e show ?thesis by blast
  qed
  obtain r t where run: "reader_code E memory_store rd a block (fresh s') = (r, t)" by (rule prod.exhaust)
  from mem.reader_code_correct [OF rd(2) fresh_ok [of s', unfolded rd(3)] assms(3), of a] rd(1) run hash show ?thesis
    by (cases r) (auto simp: Let_def)
qed

text \<open>The three reads of an opened reader.\<close>

lemma opened_reads:
  assumes "pinned_rep E (mem_contents s) rd h hist" "mem_contents s' = mem_contents s" "n \<le> hd_number h"
  shows "fst (reader_account E memory_store rd a n (fresh s')) = account_at hist a n"
    and "length (head_runs h) \<le> 16 \<Longrightarrow> fst (reader_storage E memory_store rd a slot n (fresh s')) = storage_at hist a slot n"
    and "length (head_runs h) \<le> 16 \<Longrightarrow> fst (reader_code E memory_store rd a n (fresh s')) = code_at E hist a n"
proof -
  note reads = mem.reader_account_correct [OF assms(1) fresh_ok [of s', unfolded assms(2)] assms(3), of a]
    mem.reader_storage_correct [OF assms(1) fresh_ok [of s', unfolded assms(2)] assms(3), of a slot]
    mem.reader_code_correct [OF assms(1) fresh_ok [of s', unfolded assms(2)] assms(3), of a]
  show "fst (reader_account E memory_store rd a n (fresh s')) = account_at hist a n"
    using reads(1) by (cases "reader_account E memory_store rd a n (fresh s')") (simp add: outcome_exact)
  show "length (head_runs h) \<le> 16 \<Longrightarrow> fst (reader_storage E memory_store rd a slot n (fresh s')) = storage_at hist a slot n"
    using reads(2) by (cases "reader_storage E memory_store rd a slot n (fresh s')"; cases "fst (reader_storage E memory_store rd a slot n (fresh s'))") auto
  show "length (head_runs h) \<le> 16 \<Longrightarrow> fst (reader_code E memory_store rd a n (fresh s')) = code_at E hist a n"
    using reads(3) by (cases "reader_code E memory_store rd a n (fresh s')"; cases "fst (reader_code E memory_store rd a n (fresh s'))") auto
qed

text \<open>The runs of the sample archive, and its histories.\<close>

lemma sample_state:
  "state_at (versions sample_genesis) k 0 = (if k = account_key 7 then Some (account_value sample_account) else None)"
  "account_decode (account_value sample_account) =
     Inr \<lparr>as_exists = True, as_incarnation = 0, as_nonce = 1, as_balance = 5, as_code_hash = sample_keccak []\<rparr>"
  by (simp_all add: state_at_def versions_def sample_genesis_def account_record_def sample_account_def last_opt_def
      account_decode_eq account_value_def)

text \<open>The histories after the second block: the account has changed, and it has code and a slot.\<close>

abbreviation sample_history :: "bytes \<Rightarrow> krecord list" where
  "sample_history \<equiv> versions (sample_genesis @ next_records)"

lemma sample_history_states:
  "state_at sample_history (account_key 7) 0 = Some (account_value sample_account)"
  "state_at sample_history (account_key 7) 1 = Some (account_value next_account)"
  "state_at sample_history (storage_key 7 0 4) 1 = Some (h32_be 9)" "state_at sample_history (code_key (sample_keccak [96, 1])) 1 = Some [96, 1]"
  by (simp_all add: state_at_def versions_def sample_genesis_def next_records_def account_record_def storage_record_def code_record_def
      sample_account_def next_account_def next_storage_def next_code_def last_opt_def)

lemma next_account_decode: "account_decode (account_value next_account) =
    Inr \<lparr>as_exists = True, as_incarnation = 0, as_nonce = 2, as_balance = 6, as_code_hash = sample_keccak [96, 1]\<rparr>"
  by (simp add: account_decode_eq account_value_def next_account_def)

lemma sample_history_reads:
  "\<exists>e. account_at sample_history 7 0 = Inr (Some e) \<and> ae_balance e = 5" "\<exists>e. account_at sample_history 7 1 = Inr (Some e) \<and> ae_balance e = 6 \<and> ae_nonce e = 2"
  "storage_at sample_history 7 4 1 = Inr 9" "sample_like E \<Longrightarrow> code_at E sample_history 7 1 = Inr [96, 1]"
proof -
  show "\<exists>e. account_at sample_history 7 0 = Inr (Some e) \<and> ae_balance e = 5" by (simp add: account_at_def sample_history_states sample_state(2))
  show "\<exists>e. account_at sample_history 7 1 = Inr (Some e) \<and> ae_balance e = 6 \<and> ae_nonce e = 2"
    by (simp add: account_at_def sample_history_states next_account_decode)
  show "storage_at sample_history 7 4 1 = Inr 9"
    by (simp add: storage_at_def live_account_def account_at_def sample_history_states next_account_decode)
  have "sample_keccak [96, 1] \<noteq> sample_keccak []" by (simp add: sample_keccak_def sample_sum_def)
  then show "sample_like E \<Longrightarrow> code_at E sample_history 7 1 = Inr [96, 1]"
    by (simp add: code_at_def live_account_def account_at_def sample_history_states next_account_decode sample_like_simps MAX_CODE_def)
qed

text \<open>The store after the second block, and its reader.\<close>

lemma sample_chain_archive:
  fixes E :: "'x ext_head_scheme"
  assumes "sample_head_like E"
  obtains s h where "archive_rep E (mem_contents s) 1 (Some (h, sample_history))" "mem_contents s (object_key E 0) = None"
    "hd_number h = 1" "length (head_runs h) = 2" "hd_chain_id h = 1"
proof -
  obtain s h run run' where "archive_rep E (mem_contents s) 1 (Some (h, sample_history))" "mem_contents s (object_key E 0) = None"
    "is_published h next_package" "head_runs h = [run, run']" using next_chain [OF assms] by metis
  moreover from this(3) have "hd_number h = 1" "hd_chain_id h = 1" by (simp_all add: is_published_def next_package_def last_opt_def next_block_def)
  ultimately show thesis using that by simp
qed

theorem storage_read_exact_witness:
  "\<exists>s rd s'. reader_open sample_cache_ext memory_store 1 s = (Inr rd, s') \<and>
    fst (reader_storage sample_cache_ext memory_store rd 7 4 1 (fresh s')) = Inr 9"
proof -
  obtain s h where s: "archive_rep sample_cache_ext (mem_contents s) 1 (Some (h, sample_history))"
    "mem_contents s (object_key sample_cache_ext 0) = None" and h: "hd_number h = 1" "length (head_runs h) = 2"
    by (rule sample_chain_archive [OF sample_cache_like])
  from storage_read_exact [OF s, of 1 7 4] h sample_history_reads(3) show ?thesis by (auto simp: Let_def)
qed

theorem code_read_exact_witness:
  "\<exists>s rd s'. reader_open sample_cache_ext memory_store 1 s = (Inr rd, s') \<and>
    fst (reader_code sample_cache_ext memory_store rd 7 1 (fresh s')) = Inr [96, 1]"
proof -
  obtain s h where s: "archive_rep sample_cache_ext (mem_contents s) 1 (Some (h, sample_history))"
    "mem_contents s (object_key sample_cache_ext 0) = None" and h: "hd_number h = 1" "length (head_runs h) = 2"
    by (rule sample_chain_archive [OF sample_cache_like])
  from code_read_exact [OF s, of 1 7] h sample_history_reads(4) [OF sample_head_simps(1) [OF sample_cache_like]]
  show ?thesis by (auto simp: Let_def)
qed

section \<open>Snapshots\<close>

text \<open>
  What may happen while a reader is pinned: reads of the reader itself, which fill its cache whether or not they
  succeed, whole publications by another writer, and steps of any publishers and compactors of a chain.
\<close>

inductive reader_session :: "'x ext_cache_scheme \<Rightarrow> pinned \<Rightarrow> mem_state reading \<Rightarrow> mem_state reading \<Rightarrow> bool"
  for E :: "'x ext_cache_scheme" and rd :: pinned and st0 :: "mem_state reading" where
  session_start: "reader_session E rd st0 st0"
| session_account: "reader_session E rd st0 (snd (reader_account E memory_store rd a block st))" if "reader_session E rd st0 st"
| session_storage: "reader_session E rd st0 (snd (reader_storage E memory_store rd a slot block st))" if "reader_session E rd st0 st"
| session_code: "reader_session E rd st0 (snd (reader_code E memory_store rd a block st))" if "reader_session E rd st0 st"
| session_publish: "reader_session E rd st0 (st\<lparr>rd_store := s'\<rparr>)"
    if "reader_session E rd st0 st" "publish E memory_store p gate (rd_store st) = (res, s')"
| session_writers: "reader_session E rd st0 (st\<lparr>rd_store := w_store w'\<rparr>)"
    if "reader_session E rd st0 st" "(wstep E chain_id)\<^sup>*\<^sup>* w w'" "w_store w = rd_store st"

lemma wsteps_objects: "(wstep E chain_id)\<^sup>*\<^sup>* w w' \<Longrightarrow> objects_le (mem_contents (w_store w)) (mem_contents (w_store w'))"
  by (induction rule: rtranclp_induct) (auto dest: wstep_objects intro: objects_le_trans)

lemma session_ok:
  assumes "reader_session E rd st0 st" "reading_ok mem_contents c st0"
  shows "objects_le c (mem_contents (rd_store st)) \<and> reading_ok mem_contents (mem_contents (rd_store st)) st"
  using assms(1)
proof induction
  case session_start
  then show ?case using assms(2) by (simp add: reading_ok_def)
next
  case (session_account st a block)
  then show ?case using mem.reads_ok(1) [of "mem_contents (rd_store st)" st E rd a block] by (simp add: reading_ok_def)
next
  case (session_storage st a slot block)
  then show ?case using mem.reads_ok(2) [of "mem_contents (rd_store st)" st E rd a slot block] by (simp add: reading_ok_def)
next
  case (session_code st a block)
  then show ?case using mem.reads_ok(3) [of "mem_contents (rd_store st)" st E rd a block] by (simp add: reading_ok_def)
next
  case (session_publish st p gate res s')
  then show ?case using mem.publish_objects [OF session_publish(2)]
    by (auto simp: reading_ok_def intro: objects_le_trans cache_ok_objects)
next
  case (session_writers st chain_id w w')
  then show ?case using wsteps_objects [OF session_writers(2)]
    by (auto simp: reading_ok_def intro: objects_le_trans cache_ok_objects)
qed

text \<open>C9. A pinned reader keeps answering from its snapshot: whatever it has read and whatever publishers and compactors have
  written since it was opened, its account, storage and code reads return what the histories of the old head say; with more
  than 16 runs a storage or code read may instead fail, and never returns anything else.\<close>

theorem pinned_reader_stable:
  assumes "archive_rep E (mem_contents s) chain_id (Some (h, hist))" "mem_contents s (object_key E 0) = None"
  shows "\<exists>rd t. reader_open E memory_store chain_id s = (Inr rd, t) \<and>
    (\<forall>st a slot block. reader_session E rd (fresh t) st \<and> block \<le> hd_number h \<longrightarrow>
       fst (reader_account E memory_store rd a block st) = account_at hist a block \<and>
       (let r = fst (reader_storage E memory_store rd a slot block st)
        in (length (head_runs h) \<le> 16 \<longrightarrow> r = storage_at hist a slot block) \<and> (\<forall>v. r = Inr v \<longrightarrow> storage_at hist a slot block = Inr v)) \<and>
       (let r = fst (reader_code E memory_store rd a block st)
        in (length (head_runs h) \<le> 16 \<longrightarrow> r = code_at E hist a block) \<and> (\<forall>v. r = Inr v \<longrightarrow> code_at E hist a block = Inr v)))"
proof -
  obtain rd t where rd: "reader_open E memory_store chain_id s = (Inr rd, t)" "pinned_rep E (mem_contents s) rd h hist"
    "mem_contents t = mem_contents s" using opened [OF assms] .
  {
    fix st a slot block assume st: "reader_session E rd (fresh t) st" "block \<le> hd_number h"
    from session_ok [OF st(1) fresh_ok [of t, unfolded rd(3)]]
    have ok: "pinned_rep E (mem_contents (rd_store st)) rd h hist" "reading_ok mem_contents (mem_contents (rd_store st)) st"
      using pinned_rep_objects [OF rd(2)] by blast+
    note reads = mem.reader_account_correct [OF ok st(2), of a] mem.reader_storage_correct [OF ok st(2), of a slot]
      mem.reader_code_correct [OF ok st(2), of a]
    have "fst (reader_account E memory_store rd a block st) = account_at hist a block"
      using reads(1) by (cases "reader_account E memory_store rd a block st") (simp add: outcome_exact)
    moreover have "(length (head_runs h) \<le> 16 \<longrightarrow> r = storage_at hist a slot block) \<and> (\<forall>v. r = Inr v \<longrightarrow> storage_at hist a slot block = Inr v)"
      if "reader_storage E memory_store rd a slot block st = (r, u)" for r u
      using reads(2) that by (cases r) auto
    moreover have "(length (head_runs h) \<le> 16 \<longrightarrow> r = code_at E hist a block) \<and> (\<forall>v. r = Inr v \<longrightarrow> code_at E hist a block = Inr v)"
      if "reader_code E memory_store rd a block st = (r, u)" for r u
      using reads(3) that by (cases r) auto
    ultimately have "fst (reader_account E memory_store rd a block st) = account_at hist a block \<and>
       (let r = fst (reader_storage E memory_store rd a slot block st)
        in (length (head_runs h) \<le> 16 \<longrightarrow> r = storage_at hist a slot block) \<and> (\<forall>v. r = Inr v \<longrightarrow> storage_at hist a slot block = Inr v)) \<and>
       (let r = fst (reader_code E memory_store rd a block st)
        in (length (head_runs h) \<le> 16 \<longrightarrow> r = code_at E hist a block) \<and> (\<forall>v. r = Inr v \<longrightarrow> code_at E hist a block = Inr v))"
      unfolding Let_def by (metis prod.collapse)
  }
  with rd(1) show ?thesis by blast
qed

text \<open>A reader of the genesis is opened, then the second block is published; the reader still finds the genesis.\<close>

lemma mem_open_state: "snd (reader_open E memory_store chain_id s) = s"
proof -
  have "snd (read_head E memory_store chain_id s) = s"
    by (auto simp: read_head_def memory_store_def mem_read_mutable_bounded_def bind_a_def lift_r_def bail_def ret_def split: option.splits sum.splits)
  then show ?thesis
    by (auto simp: reader_open_def bind_a_def lift_r_def bail_def ret_def Let_def split: option.splits sum.splits prod.splits)
qed

theorem pinned_reader_stable_witness:
  "\<exists>s rd s' e. reader_open sample_cache_ext memory_store 1 s = (Inr rd, s) \<and>
    publish sample_cache_ext memory_store next_package (Finalized 1 5) s = (Inr (), s') \<and>
    mem_contents s' (head_key 1) \<noteq> mem_contents s (head_key 1) \<and>
    (let st = snd (reader_account sample_cache_ext memory_store rd 7 0 (fresh s'))
     in fst (reader_account sample_cache_ext memory_store rd 7 0 st) = Inr (Some e) \<and> ae_balance e = 5 \<and>
        fst (reader_storage sample_cache_ext memory_store rd 7 4 0 st) = Inr 0)"
proof -
  let ?E = sample_cache_ext
  obtain s h run s' h' run' where s: "archive_rep ?E (mem_contents s) 1 (Some (h, versions sample_genesis))"
    "mem_contents s (object_key ?E 0) = None" "is_published h sample_package" "head_runs h = [run]"
    "publish ?E memory_store next_package (Finalized 1 5) s = (Inr (), s')"
    "archive_rep ?E (mem_contents s') 1 (Some (h', sample_history))"
    "is_published h' next_package" by (rule next_chain [OF sample_cache_like]) (rule that)
  have "h \<noteq> h'" using s(3,7) by (auto simp: is_published_def sample_package_def next_package_def sample_block_def next_block_def last_opt_def)
  then have moved: "mem_contents s' (head_key 1) \<noteq> mem_contents s (head_key 1)" using s(1,6) by (auto simp: archive_rep_def)
  have runs: "length (head_runs h) \<le> 16" using s(4) by simp
  from pinned_reader_stable [OF s(1,2)] mem_open_state [of ?E 1 s] obtain rd where rd: "reader_open ?E memory_store 1 s = (Inr rd, s)"
    and stable: "\<forall>st a slot block. reader_session ?E rd (fresh s) st \<and> block \<le> hd_number h \<longrightarrow>
       fst (reader_account ?E memory_store rd a block st) = account_at (versions sample_genesis) a block \<and>
       fst (reader_storage ?E memory_store rd a slot block st) = storage_at (versions sample_genesis) a slot block"
    using runs unfolding Let_def by (metis snd_conv)
  have "reader_session ?E rd (fresh s) ((fresh s)\<lparr>rd_store := s'\<rparr>)"
    by (rule session_publish [OF session_start]) (use s(5) in \<open>simp add: fresh_def\<close>)
  then have "reader_session ?E rd (fresh s) (fresh s')" by (simp add: fresh_def)
  note session = session_account [OF this, of 7 0]
  have "\<exists>e. account_at (versions sample_genesis) 7 0 = Inr (Some e) \<and> ae_balance e = 5" "storage_at (versions sample_genesis) 7 4 0 = Inr 0"
    by (simp_all add: storage_at_def live_account_def account_at_def sample_state)
  moreover have "fst (reader_account ?E memory_store rd 7 0 (snd (reader_account ?E memory_store rd 7 0 (fresh s')))) = account_at (versions sample_genesis) 7 0"
    "fst (reader_storage ?E memory_store rd 7 4 0 (snd (reader_account ?E memory_store rd 7 0 (fresh s')))) = storage_at (versions sample_genesis) 7 4 0"
    using stable session by (simp_all only: word_zero_le simp_thms)
  ultimately show ?thesis using rd s(5) moved unfolding Let_def by metis
qed

end
