(* ===== verification/Rpc_Properties.thy ===== *)
theory Rpc_Properties
  imports Rpc_Spec Reader_Properties
begin

text \<open>
  The properties of the JSON-RPC server on the memory store: its responses are those that the rules of
  \<open>Rpc_Spec\<close> give over the histories of the served head, and a refresh adopts a newer head and never an
  older one.
\<close>

section \<open>Answers\<close>

lemma same_readI:
  assumes "\<And>st. I st \<Longrightarrow> outcome (\<lambda>e. spec = Inl e) (\<lambda>x st'. spec = Inr x \<and> I st') (m st)" "\<And>st. I st \<Longrightarrow> I (snd (m st))"
  shows "same_read I m spec"
  unfolding same_read_def
proof (intro allI impI)
  fix st assume "I st"
  with assms [of st] show "fst (m st) = spec \<and> I (snd (m st))" by (cases "m st"; cases "fst (m st)") auto
qed

lemma tiered_serves:
  assumes rep: "pinned_rep E c rd h hist" and runs: "length (head_runs h) \<le> 16"
  shows "serves (reading_ok mem_contents c) (tiered_backend E memory_store rd) (history_backend E h hist)"
proof -
  have head: "pn_head rd = h" using rep by (simp add: pinned_rep_def)
  have "same_read (reading_ok mem_contents c) (reader_account E memory_store rd a block) (account_at hist a block)"
    "same_read (reading_ok mem_contents c) (reader_storage E memory_store rd a slot block) (storage_at hist a slot block)"
    "same_read (reading_ok mem_contents c) (reader_code E memory_store rd a block) (code_at E hist a block)"
    if "block \<le> hd_number h" for a slot block
    using mem.reader_account_correct [OF rep _ that, of _ a] mem.reader_storage_correct [OF rep _ that, of _ a slot]
      mem.reader_code_correct [OF rep _ that, of _ a] runs
    by (auto intro!: same_readI mem.reads_ok)
  then show ?thesis
    by (simp add: serves_def same_constants_def tiered_backend_def history_backend_def reader_chain_id_def latest_block_def head lift_r_def)
qed

lemma opened_messages:
  assumes "pinned_rep E (mem_contents s) rd h hist" "mem_contents s' = mem_contents s" "length (head_runs h) \<le> 16"
  shows "fst (handle_rpc_backend E (tiered_backend E memory_store rd) v batch_limit (fresh s')) =
      fst (handle_rpc_backend E (history_backend E h hist) v batch_limit ())"
  by (rule handle_serves [OF tiered_serves [OF assms(1,3)] fresh_ok [of s', unfolded assms(2)]])

lemma opened_calls:
  assumes "pinned_rep E (mem_contents s) rd h hist" "mem_contents s' = mem_contents s" "length (head_runs h) \<le> 16"
  shows "fst (dispatch E (tiered_backend E memory_store rd) req (fresh s')) = fst (dispatch E (history_backend E h hist) req ())"
  using dispatch_serves [OF tiered_serves [OF assms(1,3)], of E req] fresh_ok [of s', unfolded assms(2)] by (simp add: same_rpc_def)

text \<open>C7. The messages of the server: over a reader opened on an archive whose head has at most 16 runs, a request of version 2.0
  gets the reply the rules give over the histories of the head, under its own identifier; what is not such a request is
  refused; and a batch is answered entry by entry in order, or refused when it is empty or over the limit.\<close>

theorem rpc_answers_history:
  assumes "archive_rep E (mem_contents s) chain_id (Some (h, hist))" "mem_contents s (object_key E 0) = None" "length (head_runs h) \<le> 16"
    and "hex_roundtrip E"
  shows "\<exists>rd s'. reader_open E memory_store chain_id s = (Inr rd, s') \<and>
    (\<forall>v batch_limit.
       let resp = fst (handle_rpc_backend E (tiered_backend E memory_store rd) v batch_limit (fresh s'))
       in case v of
            JArray vs \<Rightarrow>
              if vs = [] \<or> batch_limit < length vs then response JNull Bad_request resp
              else \<exists>rs. resp = JArray rs \<and> list_all2 (answers_message E ''fossil/0.1.0'' h hist) vs rs
          | _ \<Rightarrow> answers_message E ''fossil/0.1.0'' h hist v resp)"
proof -
  obtain rd s' where rd: "reader_open E memory_store chain_id s = (Inr rd, s')" "pinned_rep E (mem_contents s) rd h hist"
    "mem_contents s' = mem_contents s" using opened [OF assms(1,2)] .
  have version: "''fossil/'' @ CARGO_PKG_VERSION = ''fossil/0.1.0''" by (simp add: CARGO_PKG_VERSION_def)
  note value_answers = handle_value_answers [OF assms(4), of h hist, unfolded version]
    and each_answers = handle_each_answers [OF assms(4), of h hist, unfolded version]
  have "let resp = fst (handle_rpc_backend E (history_backend E h hist) v n ())
       in case v of
            JArray vs \<Rightarrow>
              if vs = [] \<or> n < length vs then response JNull Bad_request resp
              else \<exists>rs. resp = JArray rs \<and> list_all2 (answers_message E ''fossil/0.1.0'' h hist) vs rs
          | _ \<Rightarrow> answers_message E ''fossil/0.1.0'' h hist v resp" for v n
    unfolding Let_def handle_rpc_backend_def
    using value_answers each_answers by (cases v) (auto simp: case_prod_beta)
  with rd(1) opened_messages [OF rd(2,3) assms(3)] show ?thesis by (intro exI [of _ rd] exI [of _ s']) (simp only: simp_thms)
qed

text \<open>A concrete conversion of requests, as the attributes of \<^verbatim>\<open>Request\<close> specify it.\<close>

fun sample_request :: "json \<Rightarrow> rpc_request result" where
  "sample_request (JObject obj) =
     (case Option.bind (map_of obj ''method'') as_str of
        None \<Rightarrow> bail ''missing field''
      | Some m \<Rightarrow>
          Inr \<lparr>req_jsonrpc = Option.bind (map_of obj ''jsonrpc'') as_str,
            req_id = (case map_of obj ''id'' of None \<Rightarrow> JNull | Some v \<Rightarrow> v), req_method = m,
            req_params = (case map_of obj ''params'' of None \<Rightarrow> JNull | Some v \<Rightarrow> v)\<rparr>)"
| "sample_request _ = bail ''invalid type''"

definition sample_rpc_ext :: ext_rpc where
  "sample_rpc_ext = ext_cache.extend sample_cache_ext (ext_rpc.fields sample_request)"

lemma sample_rpc_like [simp]: "sample_head_like sample_rpc_ext" "request_from_json sample_rpc_ext = sample_request"
  by (simp_all add: sample_rpc_ext_def sample_cache_ext_def sample_head_like_def sample_head_ext_def sample_like_def sample_ext_def
      ext.defs ext_head.defs ext_cache.defs ext_rpc.defs)

definition sample_call :: "string \<Rightarrow> json list \<Rightarrow> json" where
  "sample_call m params = JObject [(''jsonrpc'', JString ''2.0''), (''id'', JNull), (''method'', JString m), (''params'', JArray params)]"

text \<open>The replies over the histories after the second block.\<close>

lemma sample_replies:
  assumes "hd_number h = 1"
  shows "rpc_reply E version h sample_history ''eth_getBalance'' (JArray [JString (address_string E 7), JString ''latest''])
      (Answer (JString (quantity_u256 E 6)))"
    and "rpc_reply E version h sample_history ''eth_getBalance'' (JArray [JString (address_string E 7), JString (quantity 9)]) Later_block"
proof -
  obtain e where e: "account_at sample_history 7 1 = Inr (Some e)" "ae_balance e = 6" using sample_history_reads(2) by blast
  have "block_named (hd_number h) (JString ''latest'') 1" using block_named.latest [of "''latest''" "hd_number h"] assms by simp
  from rpc_reply.balance [OF this e(1), of E version] e(2)
  show "rpc_reply E version h sample_history ''eth_getBalance'' (JArray [JString (address_string E 7), JString ''latest''])
      (Answer (JString (quantity_u256 E 6)))" by simp
  show "rpc_reply E version h sample_history ''eth_getBalance'' (JArray [JString (address_string E 7), JString (quantity 9)]) Later_block"
    by (rule rpc_reply.later) (simp_all add: account_methods_def assms)
qed

lemma sample_six: "quantity_u256 sample_rpc_ext 6 = ''0x6''"
proof -
  have hex: "hex_encode sample_rpc_ext = sample_hex" using sample_like_simps(5) [OF sample_head_simps(1) [OF sample_rpc_like(1)]] .
  show ?thesis unfolding quantity_u256_def hex by code_simp
qed

text \<open>A batch of a call, a call for a later block and a value that is no request.\<close>

theorem rpc_answers_history_witness:
  "\<exists>s rd s' later refused. reader_open sample_rpc_ext memory_store 1 s = (Inr rd, s') \<and>
    fst (handle_rpc_backend sample_rpc_ext (tiered_backend sample_rpc_ext memory_store rd)
      (JArray [sample_call ''eth_getBalance'' [JString (address_string sample_rpc_ext 7), JString ''latest''],
         sample_call ''eth_getBalance'' [JString (address_string sample_rpc_ext 7), JString (quantity 9)], JNull]) 100 (fresh s')) =
    JArray [JObject [(''jsonrpc'', JString ''2.0''), (''id'', JNull), (''result'', JString ''0x6'')], later, refused] \<and>
    response JNull Later_block later \<and> response JNull Bad_request refused"
proof -
  let ?E = sample_rpc_ext
  obtain s h where s: "archive_rep ?E (mem_contents s) 1 (Some (h, sample_history))" "mem_contents s (object_key ?E 0) = None"
    and h: "hd_number h = 1" "length (head_runs h) = 2" by (rule sample_chain_archive [OF sample_rpc_like(1)])
  let ?balance = "sample_call ''eth_getBalance'' [JString (address_string ?E 7), JString ''latest'']"
  let ?later = "sample_call ''eth_getBalance'' [JString (address_string ?E 7), JString (quantity 9)]"
  let ?vs = "[?balance, ?later, JNull]" and ?spec = "answers_message ?E ''fossil/0.1.0'' h sample_history"
  have request: "sample_request (sample_call m ps) = Inr \<lparr>req_jsonrpc = Some ''2.0'', req_id = JNull, req_method = m, req_params = JArray ps\<rparr>" for m ps
    by (simp add: sample_call_def)
  have reply: "response JNull r x" if "?spec (sample_call m ps) x" "rpc_reply ?E ''fossil/0.1.0'' h sample_history m (JArray ps) r" for m ps r x
    using that by (simp add: answers_message_def request)
  have refused: "response JNull Bad_request x" if "?spec JNull x" for x using that by (simp add: answers_message_def bail_def)
  have "length (head_runs h) \<le> 16" using h(2) by simp
  note spec = rpc_answers_history [OF s this sample_hyps(2) [OF sample_rpc_like(1)]]
  then obtain rd s' where rd: "reader_open ?E memory_store 1 s = (Inr rd, s')"
    and all: "\<forall>v n. let resp = fst (handle_rpc_backend ?E (tiered_backend ?E memory_store rd) v n (fresh s'))
       in case v of
            JArray vs \<Rightarrow> if vs = [] \<or> n < length vs then response JNull Bad_request resp else \<exists>rs. resp = JArray rs \<and> list_all2 ?spec vs rs
          | _ \<Rightarrow> ?spec v resp" by (elim exE conjE)
  have cond: "(?vs = [] \<or> (100 :: nat) < length ?vs) = False" by simp
  from all [rule_format, of "JArray ?vs" 100] obtain rs where
    rs: "fst (handle_rpc_backend ?E (tiered_backend ?E memory_store rd) (JArray ?vs) 100 (fresh s')) = JArray rs" "list_all2 ?spec ?vs rs"
    unfolding Let_def json.case cond if_False by (elim exE conjE)
  from rs(2) obtain r1 r2 r3 where r: "rs = [r1, r2, r3]" "?spec ?balance r1" "?spec ?later r2" "?spec JNull r3"
    unfolding list_all2_Cons1 list_all2_Nil by blast
  have "response JNull (Answer (JString ''0x6'')) r1" using reply [OF r(2) sample_replies(1) [OF h(1)]] unfolding sample_six .
  then have "r1 = JObject [(''jsonrpc'', JString ''2.0''), (''id'', JNull), (''result'', JString ''0x6'')]" by (simp only: response_Answer)
  with rd rs(1) r(1) reply [OF r(3) sample_replies(2) [OF h(1)]] refused [OF r(4)] show ?thesis by blast
qed

section \<open>The methods\<close>

definition call_of :: "string \<Rightarrow> json list \<Rightarrow> rpc_request" where
  "call_of m ps = \<lparr>req_jsonrpc = Some ''2.0'', req_id = JNull, req_method = m, req_params = JArray ps\<rparr>"

definition unavailable :: rpc_error where
  "unavailable = \<lparr>re_code = -32001, re_message = ''block unavailable''\<rparr>"

text \<open>A call for a block after the head, in either branch of the dispatch.\<close>

lemma later_calls:
  fixes hist :: "bytes \<Rightarrow> krecord list"
  assumes E: "hex_roundtrip E" and later: "hd_number h < k"
  defines "call \<equiv> \<lambda>m ps. fst (dispatch E (history_backend E h hist) (call_of m ps) ())"
  shows "m \<in> account_methods \<Longrightarrow> call m [JString (address_string E a), JString (quantity k)] = Inl unavailable"
    and "call ''eth_getStorageAt'' [JString (address_string E a), JString (data32 E slot), JString (quantity k)] = Inl unavailable"
proof -
  have "\<not> be_supports_block_hash_selector (history_backend E h hist)" by (simp add: history_backend_def)
  then have select: "resolve_selector E (history_backend E h hist) (JString (quantity k)) = lift_r (bail ''block unavailable'')"
    using later by (auto simp: resolve_selector_plain resolve_plain_def plain_tag)
  have address: "rpc_parse_address E (JString (address_string E a)) = Inr a"
    using address_parse_string [OF E] by (simp add: rpc_parse_address_def rpc_err_def)
  have slot: "rpc_parse_slot E (JString (data32 E slot)) = Inr slot"
    by (rule named_slot [OF E data_slot [OF E]])
  have "rpc_selector (Bail ''block unavailable'') = unavailable"
    using unavailable_code by (simp add: unavailable_def rpc_selector_def Let_def)
  note eval = call_def call_of_def dispatch_def rpc_params_def rpc_bind_def rpc_lift_def map_err_a_def lift_r_def bail_def address slot select this
  show "m \<in> account_methods \<Longrightarrow> call m [JString (address_string E a), JString (quantity k)] = Inl unavailable"
    by (auto simp: eval account_methods_def)
  show "call ''eth_getStorageAt'' [JString (address_string E a), JString (data32 E slot), JString (quantity k)] = Inl unavailable"
    by (simp add: eval)
qed

text \<open>One call of each method over the histories of a head.\<close>

lemma history_calls:
  fixes hist :: "bytes \<Rightarrow> krecord list"
  assumes E: "hex_roundtrip E" and block: "n \<le> hd_number h"
  defines "call \<equiv> \<lambda>m ps. fst (dispatch E (history_backend E h hist) (call_of m ps) ())"
  shows "account_at hist a n = Inr x \<Longrightarrow> call ''eth_getBalance'' [JString (address_string E a), JString (quantity n)] =
      Inr (JString (quantity_u256 E (case x of None \<Rightarrow> 0 | Some e \<Rightarrow> ae_balance e)))"
    and "account_at hist a n = Inr x \<Longrightarrow> call ''eth_getTransactionCount'' [JString (address_string E a), JString (quantity n)] =
      Inr (JString (quantity (case x of None \<Rightarrow> 0 | Some e \<Rightarrow> ae_nonce e)))"
    and "code_at E hist a n = Inr bs \<Longrightarrow>
      call ''eth_getCode'' [JString (address_string E a), JString (quantity n)] = Inr (JString (''0x'' @ hex_encode E bs))"
    and "storage_at hist a slot n = Inr v \<Longrightarrow>
      call ''eth_getStorageAt'' [JString (address_string E a), JString (data32 E slot), JString (quantity n)] = Inr (JString (data32 E v))"
proof -
  have named: "block_named (hd_number h) (JString (quantity n)) n" using block by (rule block_named.numbered)
  note slot = data_slot [OF E]
  have reply: "rpc_reply E (''fossil/'' @ CARGO_PKG_VERSION) h hist m (JArray ps) (Answer r) \<Longrightarrow> call m ps = Inr r" for m ps r
    using dispatch_reply [OF E, of h hist m "JArray ps" "Answer r" "call_of m ps"] by (simp add: call_def call_of_def)
  show "account_at hist a n = Inr x \<Longrightarrow> call ''eth_getBalance'' [JString (address_string E a), JString (quantity n)] =
      Inr (JString (quantity_u256 E (case x of None \<Rightarrow> 0 | Some e \<Rightarrow> ae_balance e)))" by (intro reply rpc_reply.balance [OF named])
  show "account_at hist a n = Inr x \<Longrightarrow> call ''eth_getTransactionCount'' [JString (address_string E a), JString (quantity n)] =
      Inr (JString (quantity (case x of None \<Rightarrow> 0 | Some e \<Rightarrow> ae_nonce e)))" by (intro reply rpc_reply.transaction_count [OF named])
  show "code_at E hist a n = Inr bs \<Longrightarrow>
      call ''eth_getCode'' [JString (address_string E a), JString (quantity n)] = Inr (JString (''0x'' @ hex_encode E bs))"
    by (intro reply rpc_reply.code [OF named])
  show "storage_at hist a slot n = Inr v \<Longrightarrow>
      call ''eth_getStorageAt'' [JString (address_string E a), JString (data32 E slot), JString (quantity n)] = Inr (JString (data32 E v))"
    unfolding data32_def [of E v] by (intro reply rpc_reply.storage [OF slot named])
qed

text \<open>C4. The methods of the server over an opened archive with at most 16 runs: at every block up to the head, the balance and
  the nonce of the account in the histories (zero for an account that never was), its code and the value of its slots, each in
  its text form; for a block after the head each of the four methods reports that the block is unavailable.\<close>

theorem rpc_methods_exact:
  assumes "archive_rep E (mem_contents s) chain_id (Some (h, hist))" "mem_contents s (object_key E 0) = None" "length (head_runs h) \<le> 16"
    and "hex_roundtrip E"
  shows "\<exists>rd s'. reader_open E memory_store chain_id s = (Inr rd, s') \<and>
    (let call = \<lambda>m ps. fst (dispatch E (tiered_backend E memory_store rd) (call_of m ps) (fresh s')); address = \<lambda>a. JString (address_string E a)
     in (\<forall>n a slot. n \<le> hd_number h \<longrightarrow>
           (\<forall>x. account_at hist a n = Inr x \<longrightarrow>
              call ''eth_getBalance'' [address a, JString (quantity n)] =
                Inr (JString (quantity_u256 E (case x of None \<Rightarrow> 0 | Some e \<Rightarrow> ae_balance e))) \<and>
              call ''eth_getTransactionCount'' [address a, JString (quantity n)] =
                Inr (JString (quantity (case x of None \<Rightarrow> 0 | Some e \<Rightarrow> ae_nonce e)))) \<and>
           (\<forall>bs. code_at E hist a n = Inr bs \<longrightarrow>
              call ''eth_getCode'' [address a, JString (quantity n)] = Inr (JString (''0x'' @ hex_encode E bs))) \<and>
           (\<forall>v. storage_at hist a slot n = Inr v \<longrightarrow>
              call ''eth_getStorageAt'' [address a, JString (data32 E slot), JString (quantity n)] = Inr (JString (data32 E v)))) \<and>
        (\<forall>k a slot. hd_number h < k \<longrightarrow>
           (\<forall>m\<in>{''eth_getBalance'', ''eth_getTransactionCount'', ''eth_getCode''}. call m [address a, JString (quantity k)] = Inl unavailable) \<and>
           call ''eth_getStorageAt'' [address a, JString (data32 E slot), JString (quantity k)] = Inl unavailable))"
proof -
  obtain rd s' where rd: "reader_open E memory_store chain_id s = (Inr rd, s')" "pinned_rep E (mem_contents s) rd h hist"
    "mem_contents s' = mem_contents s" using opened [OF assms(1,2)] .
  have calls: "fst (dispatch E (tiered_backend E memory_store rd) req (fresh s')) = fst (dispatch E (history_backend E h hist) req ())" for req
    by (rule opened_calls [OF rd(2,3) assms(3)])
  note later = later_calls [OF assms(4), where h = h and hist = hist, unfolded account_methods_def]
  show ?thesis unfolding Let_def
    by (intro exI [of _ rd] exI [of _ s'] conjI rd(1) allI impI ballI; unfold calls; intro history_calls [OF assms(4)] later; assumption)
qed

theorem rpc_methods_exact_witness:
  "\<exists>s rd s'. reader_open sample_rpc_ext memory_store 1 s = (Inr rd, s') \<and>
    (let call = \<lambda>m ps. fst (dispatch sample_rpc_ext (tiered_backend sample_rpc_ext memory_store rd) (call_of m ps) (fresh s'));
       address = JString (address_string sample_rpc_ext 7); block = JString (quantity 1)
     in call ''eth_getTransactionCount'' [address, block] = Inr (JString (quantity 2)) \<and>
        call ''eth_getCode'' [address, block] = Inr (JString (''0x'' @ sample_hex [96, 1])) \<and>
        call ''eth_getStorageAt'' [address, JString (data32 sample_rpc_ext 4), block] = Inr (JString (data32 sample_rpc_ext 9)) \<and>
        call ''eth_getStorageAt'' [address, JString (data32 sample_rpc_ext 4), JString (quantity 9)] = Inl unavailable)"
proof -
  let ?E = sample_rpc_ext
  note like = sample_head_simps(1) [OF sample_rpc_like(1)]
  obtain s h where s: "archive_rep ?E (mem_contents s) 1 (Some (h, sample_history))" "mem_contents s (object_key ?E 0) = None"
    and h: "hd_number h = 1" "length (head_runs h) = 2" by (rule sample_chain_archive [OF sample_rpc_like(1)])
  obtain e where e: "account_at sample_history 7 1 = Inr (Some e)" "ae_nonce e = 2" using sample_history_reads(2) by blast
  have "length (head_runs h) \<le> 16" using h(2) by simp
  note spec = rpc_methods_exact [OF s this sample_hyps(2) [OF sample_rpc_like(1)], unfolded Let_def h(1)]
  from spec obtain rd s' where rd: "reader_open ?E memory_store 1 s = (Inr rd, s')"
    and at: "\<And>n a slot. n \<le> 1 \<Longrightarrow>
         (\<forall>x. account_at sample_history a n = Inr x \<longrightarrow>
            fst (dispatch ?E (tiered_backend ?E memory_store rd) (call_of ''eth_getTransactionCount'' [JString (address_string ?E a), JString (quantity n)]) (fresh s')) =
              Inr (JString (quantity (case x of None \<Rightarrow> 0 | Some e \<Rightarrow> ae_nonce e)))) \<and>
         (\<forall>bs. code_at ?E sample_history a n = Inr bs \<longrightarrow>
            fst (dispatch ?E (tiered_backend ?E memory_store rd) (call_of ''eth_getCode'' [JString (address_string ?E a), JString (quantity n)]) (fresh s')) =
              Inr (JString (''0x'' @ hex_encode ?E bs))) \<and>
         (\<forall>v. storage_at sample_history a slot n = Inr v \<longrightarrow>
            fst (dispatch ?E (tiered_backend ?E memory_store rd) (call_of ''eth_getStorageAt'' [JString (address_string ?E a), JString (data32 ?E slot), JString (quantity n)]) (fresh s')) =
              Inr (JString (data32 ?E v)))"
    and later: "\<And>k a slot. 1 < k \<Longrightarrow>
            fst (dispatch ?E (tiered_backend ?E memory_store rd) (call_of ''eth_getStorageAt'' [JString (address_string ?E a), JString (data32 ?E slot), JString (quantity k)]) (fresh s')) =
              Inl unavailable" by (elim exE conjE) blast
  have "hex_encode ?E = sample_hex" using sample_like_simps(5) [OF like] .
  with rd at [of 1 7 4] later [of 9 7 4] e sample_history_reads(3) sample_history_reads(4) [OF like] show ?thesis
    unfolding Let_def by (intro exI [of _ s] exI [of _ rd] exI [of _ s']) simp
qed

section \<open>Refreshes\<close>

lemma opened_digest:
  assumes "reader_open E memory_store chain_id s = (Inr rd, s')" "mem_contents s (head_key chain_id) = Some bs"
  shows "pn_head_digest rd = sha256 E bs"
proof -
  obtain r t where read: "read_head E memory_store chain_id s = (r, t)" by (rule prod.exhaust)
  with assms(1) obtain v h where r: "r = Inr (Some (v, h))" "pn_head_digest rd = sha256 E (v_bytes v)"
    by (cases r) (auto simp: reader_open_def bind_a_def lift_r_def ok_or_def bail_def split: option.splits prod.splits sum.splits)
  with mem.read_head_sound [OF read] assms(2) show ?thesis by auto
qed

text \<open>C10. On any store and in any state a refresh never serves an older block than before, and it keeps the reader when the head
  does not open. When the memory store holds an archive whose head is at least as new as the one being served and has another
  digest, the refresh opens it, and the reader answers from its histories: account reads always, storage and code reads
  when the head has at most 16 runs.\<close>

theorem refresh_adopts_newer:
  "latest_block current \<le> latest_block (fst (refresh E S chain_id current t)) \<and>
   (\<forall>e t'. reader_open E S chain_id t = (Inl e, t') \<longrightarrow> refresh E S chain_id current t = (current, t')) \<and>
   (\<forall>s h hist bs. archive_rep E (mem_contents s) chain_id (Some (h, hist)) \<and> mem_contents s (object_key E 0) = None \<and>
      mem_contents s (head_key chain_id) = Some bs \<and> sha256 E bs \<noteq> pn_head_digest current \<and> latest_block current \<le> hd_number h \<longrightarrow>
      (case refresh E memory_store chain_id current s of (rd, s') \<Rightarrow>
         latest_block rd = hd_number h \<and> pn_head_digest rd = sha256 E bs \<and>
         (\<forall>a slot n. n \<le> hd_number h \<longrightarrow> fst (reader_account E memory_store rd a n (fresh s')) = account_at hist a n \<and>
            (length (head_runs h) \<le> 16 \<longrightarrow> fst (reader_storage E memory_store rd a slot n (fresh s')) = storage_at hist a slot n \<and>
               fst (reader_code E memory_store rd a n (fresh s')) = code_at E hist a n))))"
proof (intro conjI allI impI)
  show "latest_block current \<le> latest_block (fst (refresh E S chain_id current t))"
    by (cases "reader_open E S chain_id t"; cases "fst (reader_open E S chain_id t)") (auto simp: refresh_def)
  show "refresh E S chain_id current t = (current, t')" if "reader_open E S chain_id t = (Inl e, t')" for e t'
    using that by (simp add: refresh_def)
  fix s h hist bs
  assume "archive_rep E (mem_contents s) chain_id (Some (h, hist)) \<and> mem_contents s (object_key E 0) = None \<and>
    mem_contents s (head_key chain_id) = Some bs \<and> sha256 E bs \<noteq> pn_head_digest current \<and> latest_block current \<le> hd_number h"
  then have rep: "archive_rep E (mem_contents s) chain_id (Some (h, hist))" "mem_contents s (object_key E 0) = None"
    and new: "mem_contents s (head_key chain_id) = Some bs" "sha256 E bs \<noteq> pn_head_digest current" "latest_block current \<le> hd_number h" by blast+
  obtain rd s' where rd: "reader_open E memory_store chain_id s = (Inr rd, s')" "pinned_rep E (mem_contents s) rd h hist"
    "mem_contents s' = mem_contents s" using opened [OF rep] .
  have head: "latest_block rd = hd_number h" using rd(2) by (simp add: pinned_rep_def latest_block_def)
  have digest: "pn_head_digest rd = sha256 E bs" by (rule opened_digest [OF rd(1) new(1)])
  have "refresh E memory_store chain_id current s = (rd, s')" using rd(1) head digest new(2,3) by (simp add: refresh_def not_less [symmetric])
  moreover have "fst (reader_account E memory_store rd a n (fresh s')) = account_at hist a n \<and>
      (length (head_runs h) \<le> 16 \<longrightarrow> fst (reader_storage E memory_store rd a slot n (fresh s')) = storage_at hist a slot n \<and>
         fst (reader_code E memory_store rd a n (fresh s')) = code_at E hist a n)" if "n \<le> hd_number h" for a slot n
    using opened_reads [OF rd(2,3) that] by blast
  ultimately show "case refresh E memory_store chain_id current s of (rd, s') \<Rightarrow>
         latest_block rd = hd_number h \<and> pn_head_digest rd = sha256 E bs \<and>
         (\<forall>a slot n. n \<le> hd_number h \<longrightarrow> fst (reader_account E memory_store rd a n (fresh s')) = account_at hist a n \<and>
            (length (head_runs h) \<le> 16 \<longrightarrow> fst (reader_storage E memory_store rd a slot n (fresh s')) = storage_at hist a slot n \<and>
               fst (reader_code E memory_store rd a n (fresh s')) = code_at E hist a n))" using head digest by simp
qed

text \<open>A server of the genesis adopts the second block.\<close>

theorem refresh_adopts_newer_witness:
  "\<exists>s current rd s' e. latest_block current = 0 \<and> refresh sample_rpc_ext memory_store 1 current s = (rd, s') \<and> latest_block rd = 1 \<and>
    fst (reader_account sample_rpc_ext memory_store rd 7 1 (fresh s')) = Inr (Some e) \<and> ae_balance e = 6 \<and>
    fst (reader_storage sample_rpc_ext memory_store rd 7 4 1 (fresh s')) = Inr 9"
proof -
  let ?E = sample_rpc_ext
  obtain s h where s: "archive_rep ?E (mem_contents s) 1 (Some (h, sample_history))" "mem_contents s (object_key ?E 0) = None"
    and h: "hd_number h = 1" "length (head_runs h) = 2" by (rule sample_chain_archive [OF sample_rpc_like(1)])
  from s(1) obtain bs where bs: "mem_contents s (head_key 1) = Some bs" by (auto simp: archive_rep_def)
  define current where "current = \<lparr>pn_head_digest = sha256 ?E bs + 1, pn_head = h\<lparr>hd_number := 0\<rparr>, pn_runs = []\<rparr>"
  have current: "sha256 ?E bs \<noteq> pn_head_digest current" "latest_block current = 0" by (simp_all add: current_def latest_block_def)
  obtain rd s' where rd: "refresh ?E memory_store 1 current s = (rd, s')" by (rule prod.exhaust)
  obtain e where e: "account_at sample_history 7 1 = Inr (Some e)" "ae_balance e = 6" using sample_history_reads(2) by blast
  have "archive_rep ?E (mem_contents s) 1 (Some (h, sample_history)) \<and> mem_contents s (object_key ?E 0) = None \<and>
      mem_contents s (head_key 1) = Some bs \<and> sha256 ?E bs \<noteq> pn_head_digest current \<and> latest_block current \<le> hd_number h"
    using s bs current by simp
  from refresh_adopts_newer [of current ?E, THEN conjunct2, THEN conjunct2, rule_format, OF this, unfolded rd prod.case]
  have "latest_block rd = 1" "fst (reader_account ?E memory_store rd 7 1 (fresh s')) = account_at sample_history 7 1"
    "fst (reader_storage ?E memory_store rd 7 4 1 (fresh s')) = storage_at sample_history 7 4 1" using h by simp_all
  with rd current(2) e sample_history_reads(3) show ?thesis by metis
qed

end
