(* ===== verification/Worker_Properties.thy ===== *)
theory Worker_Properties
  imports Worker_Rpc Rpc_Properties
begin

text \<open>
  The properties of the Worker: its responses are those that the rules of \<open>Rpc_Spec\<close> give over the
  histories of the published head, and where it and the native server both answer a call, they give
  the same answer.
\<close>

section \<open>Text\<close>

text \<open>What the crate documents of \<open>hex_decode\<close>: nothing but hexadecimal digits is accepted.\<close>

definition hex_lower :: "'x ext_scheme \<Rightarrow> bool" where
  "hex_lower E \<longleftrightarrow> (\<forall>s bs. hex_decode E s = Inr bs \<and> \<not> list_ex is_ascii_uppercase s \<longrightarrow> s = hex_encode E bs)"

lemma byte_hex_take_drop:
  "take (2 * k) (concat (map byte_hex bs)) = concat (map byte_hex (take k bs))"
  "drop (2 * k) (concat (map byte_hex bs)) = concat (map byte_hex (drop k bs))"
proof (induction bs arbitrary: k)
  case (Cons b bs)
  { case 1 then show ?case using Cons(1) by (cases k) (simp_all add: byte_hex_def) }
  { case 2 then show ?case using Cons(2) by (cases k) (simp_all add: byte_hex_def) }
qed simp_all

lemma padded_hex:
  assumes E: "hex_roundtrip E" and bs: "replicate (2 * k) CHR ''0'' @ e = concat (map byte_hex bs)" "length bs = n" "k \<le> n"
  shows "hex_decode E e = Inr (drop k bs) \<and> replicate k 0 @ drop k bs = bs"
proof -
  have "byte_hex 0 = ''00''" by (simp add: byte_hex_def hex_digit_def)
  then have zeros: "concat (map byte_hex (replicate k 0)) = replicate (2 * k) CHR ''0''" for k by (induction k) simp_all
  have "e = drop (2 * k) (replicate (2 * k) CHR ''0'' @ e)" by simp
  then have "e = concat (map byte_hex (drop k bs))" by (simp only: bs(1) byte_hex_take_drop(2))
  moreover have "replicate (2 * k) CHR ''0'' = take (2 * k) (replicate (2 * k) CHR ''0'' @ e)" by simp
  then have "concat (map byte_hex (replicate k 0)) = concat (map byte_hex (take k bs))" by (simp only: zeros bs(1) byte_hex_take_drop(1))
  then have "replicate k 0 = take k bs" using E by (metis hex_roundtrip_def sum.inject(2))
  ultimately show ?thesis using E by (simp add: hex_roundtrip_def)
qed

lemma quantity_bytes_eq: "hex_roundtrip E \<Longrightarrow> quantity_bytes E v = quantity_u256 E v"
  using trim_hex [of "h32_be v"] trim_hex_nil [of "h32_be v"]
  by (auto simp: quantity_bytes_def quantity_u256_def Let_def hex_roundtripD(4) simp del: dropWhile_eq_Nil_conv split: list.splits)

lemma quantity_zero: "quantity_u256 E 0 = ''0x0''" "quantity 0 = ''0x0''"
  by code_simp+

lemma addresses_agree:
  assumes "rpc_parse_address E v = Inr a" "worker_parse_address E v = Inr b"
  shows "a = b"
  using assms
  by (auto simp: rpc_parse_address_def worker_parse_address_def address_parse_def parse_fixed_def parse_fixed_raw_def rpc_err_def
      strip_prefix_def ok_or_def bind_r_def ctx_r_def bail_def invalid_params_def Let_def numeral_2_eq_2 split: option.splits if_splits sum.splits)

text \<open>The digits of a slot, padded to whole bytes as the Worker does and to 32 bytes as the server does.\<close>

lemma slot_padding:
  assumes E: "hex_roundtrip E" and d: "replicate (64 - length d) CHR ''0'' @ d = concat (map byte_hex bs)" "length bs = 32"
  defines "e \<equiv> if length d mod 2 = 1 then CHR ''0'' # d else d"
  shows "\<exists>bytes. hex_decode E e = Inr bytes \<and> replicate (32 - length bytes) 0 @ bytes = bs"
proof -
  have "length (replicate (64 - length d) CHR ''0'' @ d) = 64" unfolding d(1) by (simp add: d(2))
  then have len: "length d \<le> 64" by simp
  define k where "k = (64 - length e) div 2"
  have "replicate (64 - length d) CHR ''0'' @ d = replicate (2 * k) CHR ''0'' @ e"
  proof (cases "length d mod 2 = 1")
    case True
    then have "64 - length d = 2 * k + 1" using len unfolding k_def e_def by (simp; presburger)
    with True show ?thesis by (simp add: e_def replicate_append_same)
  next
    case False
    then have "64 - length d = 2 * k" using len unfolding k_def e_def by (simp; presburger)
    with False show ?thesis by (simp add: e_def)
  qed
  with d(1) have "replicate (2 * k) CHR ''0'' @ e = concat (map byte_hex bs)" by simp
  from padded_hex [OF E this d(2)] have "hex_decode E e = Inr (drop k bs)" "replicate k 0 @ drop k bs = bs"
    by (simp_all add: k_def)
  moreover have "32 - length (drop k bs) = k" using d(2) by (simp add: k_def)
  ultimately show ?thesis by metis
qed

lemma slots_agree:
  assumes E: "hex_roundtrip E" "hex_lower E" and native: "rpc_parse_slot E v = Inr a" and "worker_parse_slot E v = Inr b"
  shows "a = b"
proof -
  from native obtain s where s: "v = JString s" by (cases v) (auto simp: rpc_parse_slot_def)
  have worker: "prefix ''0x'' s" and w: "case hex_decode E (if length (drop 2 s) mod 2 = 1 then CHR ''0'' # drop 2 s else drop 2 s) of
      Inl _ \<Rightarrow> False | Inr bytes \<Rightarrow> b = of_be (replicate (32 - length bytes) 0 @ bytes)"
    using assms(4) by (auto simp: s worker_parse_slot_def Let_def invalid_params_def split: if_splits sum.splits)
  define d where "d = drop 2 s"
  from worker have sd: "s = ''0x'' @ d" by (auto simp: prefix_def d_def)
  have "hash32_parse E (''0x'' @ replicate (64 - length d) CHR ''0'' @ d) = Inr a"
    using native by (auto simp: rpc_parse_slot_def s sd rpc_err_def strip_prefix_def split: if_splits sum.splits)
  then obtain bs where bs: "hex_decode E (replicate (64 - length d) CHR ''0'' @ d) = Inr bs" "length bs = 32" "a = of_be bs"
    "\<not> list_ex is_ascii_uppercase (replicate (64 - length d) CHR ''0'' @ d)"
    by (auto simp: hash32_parse_def strip_prefix_def ctx_r_def bind_r_def bail_def split: if_splits sum.splits)
  with E have "replicate (64 - length d) CHR ''0'' @ d = concat (map byte_hex bs)" by (metis hex_lower_def hex_roundtripD(4))
  from slot_padding [OF E(1) this bs(2)] w [folded d_def] bs(3) show ?thesis by auto
qed

section \<open>Named parameters\<close>

lemma lower_hex_digits: "set s \<subseteq> lower_hex \<Longrightarrow> list_all is_ascii_hexdigit s"
proof -
  have "lower_hex \<subseteq> set ''0123456789abcdefABCDEF''" unfolding lower_hex_def by code_simp
  then show "set s \<subseteq> lower_hex \<Longrightarrow> ?thesis" by (auto simp only: list_all_iff is_ascii_hexdigit_def)
qed

lemma worker_address: "hex_roundtrip E \<Longrightarrow> worker_parse_address E (JString (address_string E a)) = Inr a"
  by (simp add: worker_parse_address_def address_string_def hex_roundtripD(1,2))

lemma worker_slot:
  assumes E: "hex_roundtrip E" and "slot_named E v slot"
  shows "worker_parse_slot E v = Inr slot"
  using assms(2)
proof cases
  case (slot_digits d)
  have hex: "replicate (64 - length d) CHR ''0'' @ d = concat (map byte_hex (h32_be slot))"
    using slot_digits(3) hex_roundtripD(4) [OF E] by simp
  then have "length (replicate (64 - length d) CHR ''0'' @ d) = 64" by simp
  then have len: "length d \<le> 64" "length d \<noteq> 0" using slot_digits(2) by simp_all
  have "set d \<subseteq> set (replicate (64 - length d) CHR ''0'' @ d)" by simp
  then have "set d \<subseteq> lower_hex" unfolding hex using byte_hex_range by blast
  then have "list_all is_ascii_hexdigit d" by (rule lower_hex_digits)
  moreover obtain bytes where "hex_decode E (if length d mod 2 = 1 then CHR ''0'' # d else d) = Inr bytes"
    "replicate (32 - length bytes) 0 @ bytes = h32_be slot" using slot_padding [OF E hex] by auto
  ultimately show ?thesis using len by (cases "length d mod 2 = 1") (simp_all add: slot_digits(1) worker_parse_slot_def Let_def)
qed

lemma worker_number: "worker_parse_quantity (quantity n) = Inr n"
proof -
  have "unat n < 2 ^ 64" using unsigned_less [of n, where ?'a = nat] by simp
  then have "from_str_radix16 (hex_nat (unat n)) = Some n"
    using lower_hex_plus [OF hex_nat_range hex_nat_nonempty, of "unat n"] by (simp add: from_str_radix16_def radix_hex_nat)
  moreover have "\<not> (length (hex_nat (unat n)) > 1 \<and> hd (hex_nat (unat n)) = CHR ''0'')" using length_hex_nat [of "unat n"] by (auto simp: hd_hex_nat)
  moreover have "list_all is_ascii_hexdigit (hex_nat (unat n))" using hex_nat_range by (rule lower_hex_digits)
  ultimately show ?thesis by (auto simp: worker_parse_quantity_def quantity_def strip_prefix_def)
qed

lemma worker_tag:
  "worker_resolve_selector number (JString (quantity n)) =
     (if number < n then Inl (Archive (Unavailable ''block is outside the published archive range'')) else Inr n)"
proof -
  have "quantity n \<noteq> c # cs" if "c \<noteq> CHR ''0''" for c cs using that by (simp add: quantity_def)
  then show ?thesis by (simp add: worker_resolve_selector_def worker_number)
qed

lemma worker_block: "block_named number v n \<Longrightarrow> worker_resolve_selector number v = Inr n"
proof (induction rule: block_named.induct)
  case (latest tag)
  then show ?case by (auto simp: worker_resolve_selector_def)
next
  case earliest
  then show ?case by (simp add: worker_resolve_selector_def)
next
  case (numbered n)
  then show ?case by (auto simp: worker_tag)
next
  case (by_number t n)
  then show ?case by (simp add: worker_resolve_selector_def)
qed

section \<open>Agreement of the parameters\<close>

lemma selectors_agree:
  assumes "resolve_plain (history_backend E h hist) v = Inr m" "worker_resolve_selector (hd_number h) v = Inr n"
  shows "m = n"
proof -
  have str: "m = n" if "select_number (history_backend E h hist) (JString t) = Inr m"
    "(if t = ''latest'' \<or> t = ''safe'' \<or> t = ''finalized'' then Inr (hd_number h) else if t = ''earliest'' then Inr 0
      else if t = ''pending'' then invalid_params ''pending is not supported'' else worker_parse_quantity t) = Inr n" for t
    using that
    by (auto simp: select_number_def history_backend_def worker_parse_quantity_def parse_quantity_def ok_or_def bind_r_def bail_def invalid_params_def Let_def
        split: if_splits sum.splits option.splits)
  show ?thesis
  proof (cases v)
    case (JObject obj)
    with assms obtain t where t: "map_of obj ''blockNumber'' = Some (JString t)"
      by (auto simp: worker_resolve_selector_def bind_r_def invalid_params_def split: if_splits option.splits sum.splits elim!: as_str.elims)
    show ?thesis
      by (rule str [of t]) (use assms JObject t in \<open>auto simp: resolve_plain_def worker_resolve_selector_def bind_r_def bail_def invalid_params_def split: if_splits sum.splits\<close>)
  next
    case (JString t)
    show ?thesis
      by (rule str [of t]) (use assms JString in \<open>auto simp: resolve_plain_def worker_resolve_selector_def bind_r_def split: if_splits sum.splits\<close>)
  qed (use assms in \<open>auto simp: worker_resolve_selector_def bind_r_def invalid_params_def\<close>)
qed

section \<open>Agreement\<close>

text \<open>A deleted account has neither balance nor nonce.\<close>

lemma account_tombstone:
  assumes "account_at hist a block = Inr (Some e)" "\<not> ae_exists e"
  shows "ae_balance e = 0 \<and> ae_nonce e = 0"
  using assms by (auto simp: account_at_def account_decode_def bind_r_def bail_def Let_def split: option.splits if_splits sum.splits)

lemma rpc_bind_Inr: "fst (rpc_bind m f ()) = Inr y \<longleftrightarrow> (\<exists>x. fst (m ()) = Inr x \<and> fst (f x ()) = Inr y)"
  by (cases "m ()"; cases "fst (m ())") (auto simp: rpc_bind_def)

lemma unit_bind_Inr: "fst (bind_a m f ()) = Inr y \<longleftrightarrow> (\<exists>x. fst (m ()) = Inr x \<and> fst (f x ()) = Inr y)"
  by (cases "m ()"; cases "fst (m ())") (auto simp: bind_a_def)

lemma unit_act_simps:
  "fst (rpc_lift r ()) = r" "fst (lift_r q ()) = q" "fst (ret x ()) = Inr x"
  "fst (map_err_a f (lift_r q) ()) = Inr y \<longleftrightarrow> q = Inr y" "fst (history_read q ()) = Inr y \<longleftrightarrow> q = Inr y"
  "fst (as_dispatch m ()) = Inr z \<longleftrightarrow> fst (m ()) = Inr z"
  by (auto simp: rpc_lift_def lift_r_def ret_def map_err_a_def history_read_def to_archive_def as_dispatch_def split: sum.splits prod.splits)

lemma history_resolve: "resolve_selector E (history_backend E' h hist) v = lift_r (resolve_plain (history_backend E h hist) v)"
proof -
  have "same_constants (history_backend E' h hist) (history_backend E h hist)" by (simp add: same_constants_def history_backend_def)
  from resolve_cong [OF this] show ?thesis by (subst resolve_selector_plain) (simp_all add: history_backend_def)
qed

lemma history_backend_reads:
  "be_account_at (history_backend E h hist) a block = lift_r (account_at hist a block)"
  "be_storage_at (history_backend E h hist) a slot block = lift_r (storage_at hist a slot block)"
  "be_code_at (history_backend E h hist) a block = lift_r (code_at E hist a block)"
  "be_chain_id (history_backend E h hist) = hd_chain_id h" "be_published_number (history_backend E h hist) = hd_number h"
  by (simp_all add: history_backend_def)

lemma accounts_agree:
  assumes "hex_roundtrip E" "account_at hist a block = Inr x" "live_account hist a block = Inr y"
  shows "(case x of Some e \<Rightarrow> quantity_u256 E (ae_balance e) | None \<Rightarrow> ''0x0'') =
      (case map_option worker_account_of y of Some e \<Rightarrow> quantity_bytes E (wa_balance e) | None \<Rightarrow> ''0x0'')"
    and "(case x of Some e \<Rightarrow> quantity (ae_nonce e) | None \<Rightarrow> ''0x0'') =
      (case map_option worker_account_of y of Some e \<Rightarrow> worker_quantity (wa_nonce e) | None \<Rightarrow> ''0x0'')"
proof -
  have y: "y = Option.bind x (\<lambda>e. if ae_exists e then Some e else None)"
    using assms(3) live_account_simps(1) [OF assms(2)] by simp
  show "(case x of Some e \<Rightarrow> quantity_u256 E (ae_balance e) | None \<Rightarrow> ''0x0'') =
      (case map_option worker_account_of y of Some e \<Rightarrow> quantity_bytes E (wa_balance e) | None \<Rightarrow> ''0x0'')"
    "(case x of Some e \<Rightarrow> quantity (ae_nonce e) | None \<Rightarrow> ''0x0'') =
      (case map_option worker_account_of y of Some e \<Rightarrow> worker_quantity (wa_nonce e) | None \<Rightarrow> ''0x0'')"
    using account_tombstone [of hist a block] assms(2) quantity_zero(1) [of E] quantity_zero(2)
    by (cases x; auto simp: y worker_account_of_def quantity_bytes_eq [OF assms(1)] worker_quantity_def quantity_def)+
qed

lemma params_two: "rpc_params v n = Inr ps \<longleftrightarrow> as_array v = Some ps \<and> length ps = n"
  by (auto simp: rpc_params_def split: option.splits)

lemma histories_agree:
  assumes E: "hex_roundtrip E" "hex_lower E" and named: "req_method req \<noteq> ''web3_clientVersion''"
    and native: "fst (dispatch E (history_backend E h hist) req ()) = Inr v"
    and worker: "history_rpc E h hist (req_method req) (req_params req) = Inr w"
  shows "v = w"
proof -
  consider "req_method req = ''eth_chainId''" | "req_method req = ''eth_blockNumber''"
    | (account) "req_method req = ''eth_getBalance'' \<or> req_method req = ''eth_getTransactionCount'' \<or> req_method req = ''eth_getCode''"
    | (storage) "req_method req = ''eth_getStorageAt''"
    using worker named by (auto simp: history_rpc_def split: if_splits)
  then show ?thesis
  proof cases
    case 1
    then show ?thesis using native worker
      by (auto simp: dispatch_def history_rpc_def unit_act_simps unit_bind_Inr history_backend_reads worker_quantity_def quantity_def)
  next
    case 2
    then show ?thesis using native worker
      by (auto simp: dispatch_def history_rpc_def history_call_def answer_call_def unit_act_simps unit_bind_Inr history_backend_reads worker_quantity_def quantity_def)
  next
    case account
    let ?p = "req_params req"
    from account native obtain ps a m x where n: "as_array ?p = Some ps" "length ps = 2" "rpc_parse_address E (ps ! 0) = Inr a"
        "resolve_plain (history_backend E h hist) (ps ! 1) = Inr m" "account_at hist a m = Inr x"
      and v: "if req_method req = ''eth_getBalance'' then v = JString (case x of Some e \<Rightarrow> quantity_u256 E (ae_balance e) | None \<Rightarrow> ''0x0'')
        else if req_method req = ''eth_getTransactionCount'' then v = JString (case x of Some e \<Rightarrow> quantity (ae_nonce e) | None \<Rightarrow> ''0x0'')
        else \<exists>bs. code_at E hist a m = Inr bs \<and> v = JString (''0x'' @ hex_encode E bs)"
      by (auto simp: dispatch_def Let_def rpc_bind_Inr unit_act_simps history_resolve params_two history_backend_reads)
    from account worker n(1,2) obtain a' m' where w: "worker_parse_address E (ps ! 0) = Inr a'" "worker_resolve_selector (hd_number h) (ps ! 1) = Inr m'"
      and w': "if req_method req = ''eth_getCode'' then \<exists>bs. code_at E hist a' m' = Inr bs \<and> w = JString (''0x'' @ hex_encode E bs)
        else \<exists>y. live_account hist a' m' = Inr y \<and> w = JString (if req_method req = ''eth_getBalance''
          then case map_option worker_account_of y of Some e \<Rightarrow> quantity_bytes E (wa_balance e) | None \<Rightarrow> ''0x0''
          else case map_option worker_account_of y of Some e \<Rightarrow> worker_quantity (wa_nonce e) | None \<Rightarrow> ''0x0'')"
      by (auto simp: history_rpc_def history_call_def answer_call_def unit_act_simps unit_bind_Inr bind_r_def split: if_splits sum.splits)
    have eq: "a' = a" "m' = m" using addresses_agree [OF n(3) w(1)] selectors_agree [OF n(4) w(2)] by simp_all
    show ?thesis using account v w' accounts_agree [OF E(1) n(5)] unfolding eq by (auto split: if_splits)
  next
    case storage
    let ?p = "req_params req"
    from storage native obtain ps a sl m x where n: "as_array ?p = Some ps" "length ps = 3" "rpc_parse_address E (ps ! 0) = Inr a"
        "rpc_parse_slot E (ps ! 1) = Inr sl" "resolve_plain (history_backend E h hist) (ps ! 2) = Inr m" "storage_at hist a sl m = Inr x"
        "v = JString (data32 E x)"
      by (auto simp: dispatch_def Let_def rpc_bind_Inr unit_act_simps history_resolve params_two history_backend_reads)
    from storage worker n(1,2) obtain a' sl' m' x' where w: "worker_parse_address E (ps ! 0) = Inr a'" "worker_parse_slot E (ps ! 1) = Inr sl'"
        "worker_resolve_selector (hd_number h) (ps ! 2) = Inr m'" "storage_at hist a' sl' m' = Inr x'" "w = JString (''0x'' @ hex_encode E (h32_be x'))"
      by (auto simp: history_rpc_def history_call_def answer_call_def unit_act_simps unit_bind_Inr)
    have "a' = a" "sl' = sl" "m' = m"
      using addresses_agree [OF n(3) w(1)] slots_agree [OF E n(4) w(2)] selectors_agree [OF n(5) w(3)] by simp_all
    with n(6,7) w(4,5) show ?thesis by (simp add: data32_def)
  qed
qed

section \<open>The Worker and the histories\<close>

text \<open>How a dispatch of the Worker gives a reply.\<close>

definition worker_gives :: "dispatch_error + json \<Rightarrow> reply \<Rightarrow> bool" where
  "worker_gives r reply =
     (case reply of
        Answer v \<Rightarrow> r = Inr v
      | Later_block \<Rightarrow> \<exists>d. r = Inl (ArchiveFail (Unavailable d))
      | Invalid_call \<Rightarrow> \<exists>d. r = Inl (ArchiveFail (InvalidParams d))
      | Unknown_method \<Rightarrow> r = Inl MethodNotFound
      | Internal_failure \<Rightarrow> r = Inl (ArchiveFail Backend)
      | Bad_request \<Rightarrow> False)"

lemma history_rpc_reply:
  assumes E: "hex_roundtrip E" and "rpc_reply E ''fossil-worker-rs/0.1.0'' h hist m ps r"
  shows "worker_gives (history_rpc E h hist m ps) r"
proof -
  note address = worker_address [OF E]
  have worker_printed: "worker_quantity n = quantity n" for n by (simp add: worker_quantity_def quantity_def)
  note eval = history_rpc_def history_call_def answer_call_def as_dispatch_def bind_a_def lift_r_def ret_def history_read_def to_archive_def
    require_params_def worker_gives_def worker_printed address
  have live: "\<exists>y. live_account hist a n = Inr y" if "account_at hist a n = Inr x" for a n x
    using live_account_simps(1) [OF that] by blast
  from assms(2) show ?thesis
  proof cases
    case (balance sel n a x)
    then obtain y where y: "live_account hist a n = Inr y" using live by blast
    from accounts_agree(1) [OF E balance(5) y] quantity_zero(1) [of E] y worker_block [OF balance(4)] show ?thesis
      unfolding balance(1-3) by (cases x) (simp_all add: eval)
  next
    case (transaction_count sel n a x)
    then obtain y where y: "live_account hist a n = Inr y" using live by blast
    from accounts_agree(2) [OF E transaction_count(5) y] quantity_zero(2) y worker_block [OF transaction_count(4)] show ?thesis
      unfolding transaction_count(1-3) by (cases x) (simp_all add: eval)
  next
    case (code sel n a bs)
    then show ?thesis using worker_block [OF code(4)] by (simp add: eval)
  next
    case (storage digits slot sel n a v)
    then show ?thesis using worker_block [OF storage(5)] worker_slot [OF E storage(4)] by (simp add: eval)
  next
    case (later k a)
    then show ?thesis by (auto simp: eval account_methods_def worker_tag)
  next
    case (later_storage digits slot k a)
    then show ?thesis using worker_slot [OF E later_storage(4)] by (simp add: eval worker_tag)
  next
    case (pending a)
    then show ?thesis by (auto simp: eval account_methods_def worker_resolve_selector_def invalid_params_def)
  next
    case (by_hash obj a)
    then show ?thesis by (auto simp: eval account_methods_def worker_resolve_selector_def invalid_params_def)
  qed (auto simp: eval account_methods_def rpc_methods_def invalid_params_def split: option.splits)
qed



lemma response_error_code [simp]:
  "\<forall>v. r \<noteq> Answer v \<Longrightarrow> code = reply_code r \<Longrightarrow> response i r (rpc_error_code i code msg d)"
  by (cases r) (auto simp: rpc_error_code_def json_int_def intro!: response.error)



text \<open>C5. The Worker and the native server agree: on the same archive, a call that both answer, other than for the version of
  the software, gets the same result from both.\<close>

theorem worker_agrees_with_server:
  assumes "archive_rep E (mem_contents s) chain_id (Some (h, hist))" "mem_contents s (object_key E 0) = None" "length (head_runs h) \<le> 15"
    and "bucket_ok bucket contents" "serves_env env chain_id pre bucket" "beneath pre (contents t) = mem_contents s"
    and "keccak256 E [] = EMPTY_CODE_HASH" "hex_roundtrip E" "hex_lower E" "req_method req \<noteq> ''web3_clientVersion''"
  shows "\<exists>rd s'. reader_open E memory_store chain_id s = (Inr rd, s') \<and>
    (\<forall>v w. fst (dispatch E (tiered_backend E memory_store rd) req (fresh s')) = Inr v \<and>
       fst (dispatch_rpc E env (req_method req) (req_params req) t) = Inr w \<longrightarrow> v = w)"
proof -
  obtain rd s' where rd: "reader_open E memory_store chain_id s = (Inr rd, s')" "pinned_rep E (mem_contents s) rd h hist"
    "mem_contents s' = mem_contents s" using opened [OF assms(1,2)] .
  have "length (head_runs h) \<le> 16" using assms(3) by simp
  from dispatch_serves [OF tiered_serves [OF rd(2) this], of E req] fresh_ok [of s', unfolded rd(3)]
  have native: "fst (dispatch E (tiered_backend E memory_store rd) req (fresh s')) = fst (dispatch E (history_backend E h hist) req ())"
    by (auto simp: same_rpc_def)
  have rep: "archive_rep E (beneath pre (contents t)) chain_id (Some (h, hist))" "nonzero (store_holds E (beneath pre (contents t)))"
    using assms(1,6) nonzero_mem [OF assms(2)] by simp_all
  have "fst (dispatch_rpc E env (req_method req) (req_params req) t) = Inr w \<Longrightarrow> history_rpc E h hist (req_method req) (req_params req) = Inr w" for w
    using dispatch_rpc_history [OF assms(4,5) rep assms(3,7), of "req_method req" "req_params req"] by auto
  with native rd(1) histories_agree [OF assms(8-10)] show ?thesis by auto
qed

section \<open>Concrete instances\<close>

text \<open>A bucket with the archive of a memory store under \<^verbatim>\<open>v1/\<close>, which returns every object as one chunk.\<close>

definition sample_contents :: "mem_state \<Rightarrow> string \<Rightarrow> bytes option" where
  "sample_contents s key = (case strip_prefix ''v1/'' key of None \<Rightarrow> None | Some k \<Rightarrow> mem_contents s k)"

definition sample_bucket :: "mem_state bucket" where
  "sample_bucket key s =
     (Some (map_option (\<lambda>bs. \<lparr>ro_size = word_of_nat (length bs), ro_body = Some (Some [Some bs])\<rparr>) (sample_contents s key)), s)"

definition sample_env :: "mem_state worker_env" where
  "sample_env = \<lparr>env_chain_id = Some ''1'', env_prefix = None, env_bucket = Some sample_bucket\<rparr>"

interpretation r2: object_store "r2_get sample_bucket" sample_contents "\<lambda>a. bucket_flaky sample_bucket \<and> a = Backend"
  by (rule r2_store) (simp add: bucket_ok_def sample_bucket_def pieces_of_def)

lemma sample_bucket_ok: "bucket_ok sample_bucket sample_contents" "\<not> bucket_flaky sample_bucket"
  by (auto simp: bucket_ok_def bucket_flaky_def sample_bucket_def pieces_of_def split: option.splits)

lemma sample_env_serves: "serves_env sample_env 1 ''v1/'' sample_bucket"
proof -
  have "parse_configured_chain_id ''1'' = Inr 1"
    by (simp add: parse_configured_chain_id_def is_ascii_digit_def parse_digits_def parse_decimal_def)
  moreover have "archive_prefix sample_env = Inr ''v1/''" by (simp add: archive_prefix_def sample_env_def)
  ultimately show ?thesis by (simp add: serves_env_def configured_chain_id_def sample_env_def)
qed

lemma sample_beneath: "beneath ''v1/'' (sample_contents s) = mem_contents s"
  by (simp add: beneath_def sample_contents_def strip_prefix_def fun_eq_iff)

lemma sample_hex_lower: "sample_unhex s = Inr bs \<Longrightarrow> s = sample_hex bs"
proof (induction s arbitrary: bs rule: sample_unhex.induct)
  case (2 c d cs)
  have digit: "hex_value c = Some x \<Longrightarrow> x < 16 \<and> c = hex_digit x" for c x
  proof -
    assume "hex_value c = Some x"
    then have "(c, x) \<in> set (zip ''0123456789abcdef'' [0..<16])" unfolding hex_value_def by (rule map_of_SomeD)
    moreover have "\<forall>(c, x)\<in>set (zip ''0123456789abcdef'' [0..<16]). x < 16 \<and> c = hex_digit x" by code_simp
    ultimately show ?thesis by blast
  qed
  from 2(2) obtain x y bs' where xy: "hex_value c = Some x" "hex_value d = Some y" "sample_unhex cs = Inr bs'" "bs = word_of_nat (16 * x + y) # bs'"
    by (cases "sample_unhex cs") (auto simp: bail_def split: option.splits)
  have "x < 16" "y < 16" "c = hex_digit x" "d = hex_digit y" using digit xy(1,2) by blast+
  then have "unat (word_of_nat (16 * x + y) :: u8) = 16 * x + y" by (subst unat_of_nat) simp
  with 2(1) [OF refl xy(1,2) xy(3)] xy \<open>y < 16\<close> \<open>c = hex_digit x\<close> \<open>d = hex_digit y\<close> show ?case by (simp add: sample_hex_def)
qed (simp_all add: sample_hex_def bail_def)

lemma sample_rpc_hyps:
  "hex_roundtrip sample_rpc_ext" "hex_lower sample_rpc_ext" "keccak256 sample_rpc_ext [] = EMPTY_CODE_HASH"
proof -
  note like = sample_like_simps [OF sample_head_simps(1) [OF sample_rpc_like(1)]]
  show "hex_roundtrip sample_rpc_ext" by (rule sample_hyps(2) [OF sample_rpc_like(1)])
  show "hex_lower sample_rpc_ext" using sample_hex_lower by (simp add: hex_lower_def like)
  show "keccak256 sample_rpc_ext [] = EMPTY_CODE_HASH" by (simp add: like sample_keccak_def EMPTY_CODE_HASH_def)
qed

text \<open>The archive of two blocks in the bucket.\<close>

lemma sample_bucket_archive:
  obtains s h where "archive_rep sample_rpc_ext (mem_contents s) 1 (Some (h, sample_history))" "mem_contents s (object_key sample_rpc_ext 0) = None"
    "archive_rep sample_rpc_ext (beneath ''v1/'' (sample_contents s)) 1 (Some (h, sample_history))"
    "sample_contents s (''v1/'' @ object_key sample_rpc_ext 0) = None" "length (head_runs h) \<le> 15" "hd_number h = 1"
  by (rule sample_chain_archive [OF sample_rpc_like(1)], rule that) (simp_all add: sample_beneath sample_contents_def strip_prefix_def)


theorem worker_agrees_with_server_witness:
  "\<exists>s rd s' req v. req = call_of ''eth_getBalance'' [JString (address_string sample_rpc_ext 7), JString ''latest''] \<and>
    reader_open sample_rpc_ext memory_store 1 s = (Inr rd, s') \<and>
    fst (dispatch sample_rpc_ext (tiered_backend sample_rpc_ext memory_store rd) req (fresh s')) = Inr v \<and>
    fst (dispatch_rpc sample_rpc_ext sample_env (req_method req) (req_params req) s) = Inr v \<and> v = JString ''0x6''"
proof -
  let ?E = sample_rpc_ext
  define req where "req = call_of ''eth_getBalance'' [JString (address_string ?E 7), JString ''latest'']"
  have m: "req_method req = ''eth_getBalance''" "req_params req = JArray [JString (address_string ?E 7), JString ''latest'']"
    by (simp_all add: req_def call_of_def)
  obtain s h where s: "archive_rep ?E (mem_contents s) 1 (Some (h, sample_history))" "mem_contents s (object_key ?E 0) = None"
    "archive_rep ?E (beneath ''v1/'' (sample_contents s)) 1 (Some (h, sample_history))" "length (head_runs h) \<le> 15" "hd_number h = 1"
    by (rule sample_bucket_archive)
  obtain rd s' where rd: "reader_open ?E memory_store 1 s = (Inr rd, s')" "pinned_rep ?E (mem_contents s) rd h sample_history"
    "mem_contents s' = mem_contents s" using opened [OF s(1,2)] .
  have "length (head_runs h) \<le> 16" using s(4) by simp
  then have native: "fst (dispatch ?E (tiered_backend ?E memory_store rd) req (fresh s')) = Inr (JString ''0x6'')"
    using opened_calls [OF rd(2,3), of req] dispatch_reply [OF sample_rpc_hyps(1) sample_replies(1) [OF s(5)] m] by (simp add: sample_six)
  have "nonzero (store_holds ?E (beneath ''v1/'' (sample_contents s)))" using nonzero_mem [OF s(2)] by (simp add: sample_beneath)
  from dispatch_rpc_history [OF sample_bucket_ok(1) sample_env_serves s(3) this s(4) sample_rpc_hyps(3), of "req_method req" "req_params req"]
    history_rpc_reply [OF sample_rpc_hyps(1) sample_replies(1) [OF s(5)]] sample_bucket_ok(2)
  obtain w where worker: "fst (dispatch_rpc ?E sample_env (req_method req) (req_params req) s) = Inr w" by (auto simp: m worker_gives_def)
  from worker_agrees_with_server [OF s(1,2,4) sample_bucket_ok(1) sample_env_serves sample_beneath sample_rpc_hyps(3,1,2), of req]
    rd(1) native worker m(1) have "w = JString ''0x6''" by auto
  with rd(1) native worker req_def show ?thesis by blast
qed

end
