(* ===== verification/Normalized.thy ===== *)
theory Normalized
  imports Publication
begin

text \<open>
  \<^verbatim>\<open>src/normalized.rs\<close>: reading a package of JSON lines. The code that \<^verbatim>\<open>serde_json\<close> generates for one
  record and the \<^verbatim>\<open>zstd\<close> decoder of the input are fields of the record \<open>ext_norm\<close>. A text is its bytes;
  \<^verbatim>\<open>str::from_utf8\<close>, \<^verbatim>\<open>str::lines\<close> and \<^verbatim>\<open>str::trim\<close> are modelled on them (the position that a
  \<^verbatim>\<open>Utf8Error\<close> reports is not). The loop over the
  records is a fold of \<open>record_step\<close> over the state of its local variables.
\<close>

section \<open>Records\<close>

datatype jrecord =
    Header string string hash32 string "string option" "hash32 option" "string option" "hash32 option"
  | Block string hash32 hash32 hash32 string
  | Account string address bool string "string option" "string option" "hash32 option"
  | Storage string address string hash32 hash32
  | Code hash32 string
  | BlockEnd string string
  | Trailer string hash32 string

record ext_norm = ext +
  record_from_json :: "bytes \<Rightarrow> jrecord result"
  zstd_open :: "bytes \<Rightarrow> bytes result"
  zstd_read :: "nat \<Rightarrow> bytes \<Rightarrow> bytes result"

definition SCHEMA :: string where "SCHEMA = ''fossil-export/1''"
definition SEGMENT_SCHEMA :: string where "SEGMENT_SCHEMA = ''fossil-segment/1''"

section \<open>Text\<close>

definition continuation :: "u8 \<Rightarrow> bool" where
  "continuation b \<longleftrightarrow> 0x80 \<le> b \<and> b \<le> 0xBF"

definition low6 :: "u8 \<Rightarrow> nat" where
  "low6 b = unat b mod 64"

text \<open>The code points of a valid UTF-8 sequence.\<close>

fun utf8_decode :: "bytes \<Rightarrow> nat list option" where
  "utf8_decode [] = Some []"
| "utf8_decode (a # bs) =
     (if a < 0x80 then map_option (Cons (unat a)) (utf8_decode bs)
      else
        case bs of
          [] \<Rightarrow> None
        | b # cs \<Rightarrow>
            if 0xC2 \<le> a \<and> a \<le> 0xDF \<and> continuation b
            then map_option (Cons (unat a mod 32 * 64 + low6 b)) (utf8_decode cs)
            else
              case cs of
                [] \<Rightarrow> None
              | c # ds \<Rightarrow>
                  if (a = 0xE0 \<and> 0xA0 \<le> b \<and> b \<le> 0xBF \<or> 0xE1 \<le> a \<and> a \<le> 0xEC \<and> continuation b
                      \<or> a = 0xED \<and> 0x80 \<le> b \<and> b \<le> 0x9F \<or> 0xEE \<le> a \<and> a \<le> 0xEF \<and> continuation b) \<and> continuation c
                  then map_option (Cons (unat a mod 16 * 4096 + low6 b * 64 + low6 c)) (utf8_decode ds)
                  else
                    case ds of
                      [] \<Rightarrow> None
                    | d # es \<Rightarrow>
                        if (a = 0xF0 \<and> 0x90 \<le> b \<and> b \<le> 0xBF \<or> 0xF1 \<le> a \<and> a \<le> 0xF3 \<and> continuation b
                            \<or> a = 0xF4 \<and> 0x80 \<le> b \<and> b \<le> 0x8F) \<and> continuation c \<and> continuation d
                        then map_option (Cons (unat a mod 8 * 262144 + low6 b * 4096 + low6 c * 64 + low6 d)) (utf8_decode es)
                        else None)"

text \<open>\<^verbatim>\<open>char::is_whitespace\<close>, and \<^verbatim>\<open>line.trim().is_empty()\<close>.\<close>

definition is_whitespace :: "nat \<Rightarrow> bool" where
  "is_whitespace c \<longleftrightarrow> 9 \<le> c \<and> c \<le> 13 \<or> 0x2000 \<le> c \<and> c \<le> 0x200A \<or>
     c \<in> {0x20, 0x85, 0xA0, 0x1680, 0x2028, 0x2029, 0x202F, 0x205F, 0x3000}"

definition blank :: "bytes \<Rightarrow> bool" where
  "blank line = (case utf8_decode line of None \<Rightarrow> False | Some cs \<Rightarrow> list_all is_whitespace cs)"

text \<open>\<^verbatim>\<open>str::lines\<close>: split at line feeds, without a carriage return before one and without an empty last line.\<close>

fun split_lf :: "bytes \<Rightarrow> bytes \<Rightarrow> bytes list" where
  "split_lf line [] = (if line = [] then [] else [line])"
| "split_lf line (b # bs) =
     (if b = 10 then (if line \<noteq> [] \<and> last line = 13 then butlast line else line) # split_lf [] bs else split_lf (line @ [b]) bs)"

definition text_lines :: "bytes \<Rightarrow> bytes list" where
  "text_lines bs = split_lf [] bs"

section \<open>The header\<close>

record header =
  hdr_chain_id :: u64
  hdr_genesis_hash :: hash32
  hdr_mode :: mode
  hdr_anchor_number :: "u64 option"
  hdr_anchor_hash :: "hash32 option"
  hdr_preceding_number :: "u64 option"
  hdr_preceding_hash :: "hash32 option"

definition parse_optional :: "string option \<Rightarrow> u64 option result" where
  "parse_optional v = (case v of None \<Rightarrow> Inr None | Some n \<Rightarrow> bind_r (parse_quantity n) (\<lambda>n. Inr (Some n)))"

definition parse_header :: "jrecord \<Rightarrow> header result" where
  "parse_header record =
     (case record of
        Header schema chain_id genesis_hash mode anchor_number anchor_hash preceding_number preceding_hash \<Rightarrow>
          if schema \<noteq> SCHEMA then bail (''unsupported input schema '' @ schema)
          else
            bind_r (if mode = ''anchor'' then Inr Anchor else if mode = ''delta'' then Inr Delta else bail ''mode must be anchor or delta'') (\<lambda>mode.
            bind_r (parse_quantity chain_id) (\<lambda>chain_id.
            bind_r (parse_optional anchor_number) (\<lambda>anchor_number.
            bind_r (parse_optional preceding_number) (\<lambda>preceding_number.
              Inr \<lparr>hdr_chain_id = chain_id, hdr_genesis_hash = genesis_hash, hdr_mode = mode, hdr_anchor_number = anchor_number,
                hdr_anchor_hash = anchor_hash, hdr_preceding_number = preceding_number, hdr_preceding_hash = preceding_hash\<rparr>))))
      | _ \<Rightarrow> bail ''first record must be a header'')"

definition check_header :: "header \<Rightarrow> unit result" where
  "check_header h =
     (case hdr_mode h of
        Anchor \<Rightarrow> if hdr_anchor_number h = None \<or> hdr_anchor_hash h = None then bail ''anchor header requires anchor_number and anchor_hash'' else Inr ()
      | Delta \<Rightarrow> if hdr_preceding_number h = None \<or> hdr_preceding_hash h = None then bail ''delta header requires preceding_number and preceding_hash'' else Inr ())"

section \<open>The record loop\<close>

record pstate =
  ps_blocks :: "block_meta list"
  ps_accounts :: "account_event list"
  ps_storage :: "storage_event list"
  ps_code :: "code_blob list"
  ps_current :: "block_meta option"
  ps_event_count :: u64
  ps_last_account :: "address option"
  ps_last_storage :: "(address \<times> u64 \<times> hash32) option"
  ps_account_keys :: "address list"
  ps_storage_keys :: "(address \<times> u64 \<times> hash32) list"
  ps_code_hashes :: "hash32 list"
  ps_trailer :: "(u64 \<times> hash32 \<times> u64) option"

definition ps_start :: pstate where
  "ps_start = \<lparr>ps_blocks = [], ps_accounts = [], ps_storage = [], ps_code = [], ps_current = None, ps_event_count = 0,
     ps_last_account = None, ps_last_storage = None, ps_account_keys = [], ps_storage_keys = [], ps_code_hashes = [], ps_trailer = None\<rparr>"

definition checked_current :: "block_meta option \<Rightarrow> string \<Rightarrow> u64 result" where
  "checked_current current v =
     bind_r (parse_quantity v) (\<lambda>number.
       if map_option bm_number current \<noteq> Some number
       then bail (''event block '' @ decimal (unat number) @ '' does not match current block'')
       else Inr number)"

definition block_step :: "header \<Rightarrow> pstate \<Rightarrow> string \<Rightarrow> hash32 \<Rightarrow> hash32 \<Rightarrow> hash32 \<Rightarrow> string \<Rightarrow> pstate result" where
  "block_step h st number hash parent_hash state_root timestamp =
     (if ps_current st \<noteq> None then bail ''block_end is required before the next block''
      else
        bind_r (parse_quantity number) (\<lambda>number.
        bind_r (case last_opt (ps_blocks st) of
                  Some previous \<Rightarrow>
                    if checked_succ (bm_number previous) \<noteq> Some number
                    then bail (''noncontiguous block '' @ decimal (unat number) @ '' after '' @ decimal (unat (bm_number previous)))
                    else if parent_hash \<noteq> bm_hash previous then bail (''parent hash mismatch at block '' @ decimal (unat number))
                    else Inr ()
                | None \<Rightarrow>
                    if hdr_mode h = Delta \<and> parent_hash \<noteq> case_option 0 id (hdr_preceding_hash h)
                    then bail ''first delta parent does not match preceding_hash'' else Inr ()) (\<lambda>_.
        bind_r (parse_quantity timestamp) (\<lambda>timestamp.
          Inr (st\<lparr>ps_current := Some \<lparr>bm_number = number, bm_hash = hash, bm_parent_hash = parent_hash, bm_state_root = state_root,
                    bm_timestamp = timestamp\<rparr>,
                  ps_event_count := 0, ps_last_account := None, ps_last_storage := None, ps_account_keys := [], ps_storage_keys := []\<rparr>)))))"

definition account_fields :: "'x ext_scheme \<Rightarrow> bool \<Rightarrow> string option \<Rightarrow> string option \<Rightarrow> hash32 option \<Rightarrow> (u64 \<times> hash32 \<times> hash32) result" where
  "account_fields E exists nonce balance code_hash =
     (if exists then
        bind_r (bind_r (ok_or ''live account missing nonce'' nonce) parse_quantity) (\<lambda>nonce.
        bind_r (bind_r (ok_or ''live account missing balance'' balance) (parse_u256 E)) (\<lambda>balance.
        bind_r (ok_or ''live account missing code_hash'' code_hash) (\<lambda>code_hash.
          Inr (nonce, balance, code_hash))))
      else if nonce \<noteq> None \<or> balance \<noteq> None \<or> code_hash \<noteq> None
      then bail ''account tombstone must omit nonce, balance, and code_hash''
      else Inr (0, 0, 0))"

definition account_step ::
  "'x ext_scheme \<Rightarrow> pstate \<Rightarrow> string \<Rightarrow> address \<Rightarrow> bool \<Rightarrow> string \<Rightarrow> string option \<Rightarrow> string option \<Rightarrow> hash32 option \<Rightarrow> pstate result" where
  "account_step E st block address exists incarnation nonce balance code_hash =
     bind_r (checked_current (ps_current st) block) (\<lambda>block.
       if (case ps_last_account st of None \<Rightarrow> False | Some final \<Rightarrow> address \<le> final)
       then bail (''account records are not strictly address-sorted in block '' @ decimal (unat block))
       else if address \<in> set (ps_account_keys st) then bail (''duplicate account record in block '' @ decimal (unat block))
       else
         bind_r (account_fields E exists nonce balance code_hash) (\<lambda>(nonce, balance, code_hash).
         bind_r (parse_quantity incarnation) (\<lambda>incarnation.
           Inr (st\<lparr>ps_account_keys := address # ps_account_keys st, ps_last_account := Some address,
                   ps_accounts := ps_accounts st @ [\<lparr>ae_block = block, ae_address = address, ae_exists = exists,
                     ae_incarnation = incarnation, ae_nonce = nonce, ae_balance = balance, ae_code_hash = code_hash\<rparr>],
                   ps_event_count := ps_event_count st + 1\<rparr>))))"

definition storage_step :: "pstate \<Rightarrow> string \<Rightarrow> address \<Rightarrow> string \<Rightarrow> hash32 \<Rightarrow> hash32 \<Rightarrow> pstate result" where
  "storage_step st block address incarnation slot v =
     bind_r (checked_current (ps_current st) block) (\<lambda>block.
     bind_r (parse_quantity incarnation) (\<lambda>incarnation.
       let key = (address, incarnation, slot)
       in if (case ps_last_storage st of None \<Rightarrow> False | Some final \<Rightarrow> key \<le> final)
          then bail (''storage records are not strictly key-sorted in block '' @ decimal (unat block))
          else if key \<in> set (ps_storage_keys st) then bail (''duplicate storage record in block '' @ decimal (unat block))
          else
            Inr (st\<lparr>ps_storage_keys := key # ps_storage_keys st, ps_last_storage := Some key,
                    ps_storage := ps_storage st @ [\<lparr>se_block = block, se_address = address, se_incarnation = incarnation,
                      se_slot = slot, se_value = v\<rparr>],
                    ps_event_count := ps_event_count st + 1\<rparr>)))"

definition code_step :: "'x ext_scheme \<Rightarrow> pstate \<Rightarrow> hash32 \<Rightarrow> string \<Rightarrow> pstate result" where
  "code_step E st code_hash bs =
     bind_r (ok_or ''code record before first block'' (ps_current st)) (\<lambda>current.
     bind_r (parse_data E bs) (\<lambda>bytes.
       if keccak256 E bytes \<noteq> code_hash then bail (''bytecode does not match code_hash '' @ hash32_string E code_hash)
       else if code_hash \<in> set (ps_code_hashes st) then bail (''duplicate code blob '' @ hash32_string E code_hash)
       else
         Inr (st\<lparr>ps_code_hashes := code_hash # ps_code_hashes st,
                 ps_code := ps_code st @ [\<lparr>cb_first_seen_block = bm_number current, cb_code_hash = code_hash, cb_bytes = bytes\<rparr>],
                 ps_event_count := ps_event_count st + 1\<rparr>)))"

definition block_end_step :: "pstate \<Rightarrow> string \<Rightarrow> string \<Rightarrow> pstate result" where
  "block_end_step st number expected =
     bind_r (checked_current (ps_current st) number) (\<lambda>number.
     bind_r (parse_quantity expected) (\<lambda>expected.
       if expected \<noteq> ps_event_count st then bail (''event_count mismatch at block '' @ decimal (unat number))
       else
         bind_r (ok_or ''block_end without open block'' (ps_current st)) (\<lambda>current.
           Inr (st\<lparr>ps_current := None, ps_blocks := ps_blocks st @ [current]\<rparr>))))"

definition trailer_step :: "pstate \<Rightarrow> string \<Rightarrow> hash32 \<Rightarrow> string \<Rightarrow> pstate result" where
  "trailer_step st end_number end_hash block_count =
     (if ps_current st \<noteq> None then bail ''block_end is required before the trailer''
      else
        bind_r (parse_quantity end_number) (\<lambda>end_number.
        bind_r (parse_quantity block_count) (\<lambda>block_count.
          Inr (st\<lparr>ps_trailer := Some (end_number, end_hash, block_count)\<rparr>))))"

definition record_step :: "'x ext_scheme \<Rightarrow> header \<Rightarrow> pstate \<Rightarrow> jrecord \<Rightarrow> pstate result" where
  "record_step E h st record =
     (if ps_trailer st \<noteq> None then bail ''trailer must be the final record''
      else
        case record of
          Block number hash parent_hash state_root timestamp \<Rightarrow> block_step h st number hash parent_hash state_root timestamp
        | Account block address exists incarnation nonce balance code_hash \<Rightarrow>
            account_step E st block address exists incarnation nonce balance code_hash
        | Storage block address incarnation slot v \<Rightarrow> storage_step st block address incarnation slot v
        | Code code_hash bytes \<Rightarrow> code_step E st code_hash bytes
        | BlockEnd number expected \<Rightarrow> block_end_step st number expected
        | Trailer end_number end_hash block_count \<Rightarrow> trailer_step st end_number end_hash block_count
        | Header _ _ _ _ _ _ _ _ \<Rightarrow> bail ''header may only appear once'')"

section \<open>Packages\<close>

definition finish_package :: "header \<Rightarrow> hash32 \<Rightarrow> pstate \<Rightarrow> package result" where
  "finish_package h input_sha256 st =
     bind_r (ok_or ''missing trailer'' (ps_trailer st)) (\<lambda>(trailer_number, trailer_hash, block_count).
     bind_r (ok_or ''package has no blocks'' (first_opt (ps_blocks st))) (\<lambda>first.
       let final = last (ps_blocks st)
       in if trailer_number \<noteq> bm_number final \<or> trailer_hash \<noteq> bm_hash final \<or> block_count \<noteq> word_of_nat (length (ps_blocks st))
          then bail ''trailer does not match package blocks''
          else if hdr_mode h = Anchor \<and> (hdr_anchor_number h \<noteq> Some (bm_number first) \<or> hdr_anchor_hash h \<noteq> Some (bm_hash first))
          then bail ''anchor header does not match first block''
          else if bm_number first = 0 \<and> bm_hash first \<noteq> hdr_genesis_hash h then bail ''genesis block hash does not match genesis_hash''
          else if hdr_mode h = Delta \<and> Option.bind (hdr_preceding_number h) checked_succ \<noteq> Some (bm_number first)
          then bail ''delta does not immediately follow preceding_number''
          else
            Inr \<lparr>pk_mode = hdr_mode h, pk_preceding_number = hdr_preceding_number h, pk_preceding_hash = hdr_preceding_hash h,
              pk_input_sha256 = input_sha256,
              pk_segment = \<lparr>sg_schema = SEGMENT_SCHEMA, sg_chain_id = hdr_chain_id h, sg_genesis_hash = hdr_genesis_hash h,
                sg_start_block = bm_number first, sg_end_block = bm_number final, sg_blocks = ps_blocks st,
                sg_accounts = ps_accounts st, sg_storage = ps_storage st, sg_code = ps_code st\<rparr>\<rparr>))"

definition package_of :: "'x ext_scheme \<Rightarrow> hash32 \<Rightarrow> jrecord list \<Rightarrow> package result" where
  "package_of E input_sha256 records =
     (if length records < 3 then bail ''package requires header, block records, and trailer''
      else
        bind_r (parse_header (hd records)) (\<lambda>h.
        bind_r (check_header h) (\<lambda>_.
        bind_r (fold_r (record_step E h) ps_start (tl records)) (finish_package h input_sha256))))"

definition parse_line :: "'x ext_norm_scheme \<Rightarrow> nat \<times> bytes \<Rightarrow> jrecord result" where
  "parse_line E = (\<lambda>(index, line). ctx_r (''invalid JSONL record on line '' @ decimal (index + 1)) (record_from_json E line))"

definition parse_package :: "'x ext_norm_scheme \<Rightarrow> bytes \<Rightarrow> hash32 \<Rightarrow> package result" where
  "parse_package E decoded input_sha256 =
     (if utf8_decode decoded = None then Inl (Ctx ''input is not UTF-8 JSONL'' (Bail ''Utf8Error''))
      else
        bind_r (map_r (parse_line E) (filter (\<lambda>(index, line). \<not> blank line) (enumerate 0 (text_lines decoded))))
          (package_of E input_sha256))"

definition read_package :: "'x ext_norm_scheme \<Rightarrow> bytes \<Rightarrow> package result" where
  "read_package E bytes =
     bind_r (if prefix [0x28, 0xb5, 0x2f, 0xfd] bytes
             then bind_r (ctx_r ''open zstd input'' (zstd_open E bytes)) (\<lambda>decoder.
                    ctx_r ''decode zstd input'' (zstd_read E (2 ^ 30) decoder))
             else Inr bytes) (\<lambda>decoded.
       parse_package E decoded (sha256 E bytes))"

section \<open>The state of the record loop\<close>

lemma linked_snoc:
  "linked (bs @ [b]) \<longleftrightarrow> linked bs \<and> (bs \<noteq> [] \<longrightarrow> checked_succ (bm_number (last bs)) = Some (bm_number b) \<and> bm_hash (last bs) = bm_parent_hash b)"
  by (induction bs rule: linked.induct) auto

lemma linked_less: "linked (bs @ [b]) \<Longrightarrow> x \<in> set bs \<Longrightarrow> bm_number x < bm_number b"
proof (induction bs arbitrary: b rule: rev_induct)
  case (snoc y bs)
  from snoc.prems(1) have l: "checked_succ (bm_number y) = Some (bm_number b)" "linked (bs @ [y])"
    using linked_snoc [of "bs @ [y]" b] by simp_all
  then have "bm_number y < bm_number b"
    using plus_one_le(1) [of "bm_number y" "bm_number b"] by (auto simp: checked_succ_def split: if_splits)
  moreover have "x = y \<or> bm_number x < bm_number y" using snoc.prems(2) snoc.IH [OF l(2)] by auto
  ultimately show ?case by auto
qed simp

text \<open>Events keep the order of their keys within a block, and blocks follow each other.\<close>

definition ordered :: "block_meta list \<Rightarrow> block_meta option \<Rightarrow> 'k::linorder option \<Rightarrow> (u64 \<times> 'k) list \<Rightarrow> bool" where
  "ordered blocks current final keys \<longleftrightarrow> ssorted keys \<and>
     (\<forall>(n, k)\<in>set keys. n \<in> bm_number ` set blocks \<and>
        (\<forall>b. current = Some b \<longrightarrow> n = bm_number b \<longrightarrow> (\<exists>l. final = Some l \<and> k \<le> l)))"

lemma ordered_open: "ordered bs None l keys \<Longrightarrow> linked (bs @ [b]) \<Longrightarrow> ordered (bs @ [b]) (Some b) l' keys"
  unfolding ordered_def using linked_less by fastforce

lemma ordered_close: "ordered bs current l keys \<Longrightarrow> ordered bs None l' keys"
  unfolding ordered_def by fastforce

lemma ordered_push:
  assumes "ordered (bs @ [b]) (Some b) l keys" "linked (bs @ [b])" "\<And>x. l = Some x \<Longrightarrow> x < k"
  shows "ordered (bs @ [b]) (Some b) (Some k) (keys @ [(bm_number b, k)])"
proof -
  have "(n, k') < (bm_number b, k)" if "(n, k') \<in> set keys" for n k'
  proof -
    have "n \<in> bm_number ` set bs \<or> n = bm_number b" "n = bm_number b \<longrightarrow> (\<exists>x. l = Some x \<and> k' \<le> x)"
      using assms(1) that by (auto simp: ordered_def)
    then show ?thesis using linked_less [OF assms(2)] assms(3) by auto
  qed
  then show ?thesis using assms unfolding ordered_def by (fastforce simp: ssorted_append)
qed

definition account_order :: "account_event \<Rightarrow> u64 \<times> address" where
  "account_order e = (ae_block e, ae_address e)"

definition storage_order :: "storage_event \<Rightarrow> u64 \<times> address \<times> u64 \<times> hash32" where
  "storage_order e = (se_block e, se_address e, se_incarnation e, se_slot e)"

definition code_valid :: "'x ext_scheme \<Rightarrow> block_meta list \<Rightarrow> code_blob list \<Rightarrow> bool" where
  "code_valid E blocks blobs \<longleftrightarrow> distinct (map cb_code_hash blobs) \<and>
     (\<forall>c\<in>set blobs. cb_first_seen_block c \<in> bm_number ` set blocks \<and> keccak256 E (cb_bytes c) = cb_code_hash c)"

definition first_follows :: "header \<Rightarrow> block_meta list \<Rightarrow> bool" where
  "first_follows h blocks \<longleftrightarrow> (blocks \<noteq> [] \<and> hdr_mode h = Delta \<longrightarrow> bm_parent_hash (hd blocks) = case_option 0 id (hdr_preceding_hash h))"

text \<open>The blocks so far, the open one included.\<close>

definition ps_all :: "pstate \<Rightarrow> block_meta list" where
  "ps_all st = ps_blocks st @ (case ps_current st of None \<Rightarrow> [] | Some b \<Rightarrow> [b])"

definition ps_ok :: "'x ext_scheme \<Rightarrow> header \<Rightarrow> pstate \<Rightarrow> bool" where
  "ps_ok E h st \<longleftrightarrow> linked (ps_all st) \<and> first_follows h (ps_all st) \<and> (ps_trailer st \<noteq> None \<longrightarrow> ps_current st = None) \<and>
     ordered (ps_all st) (ps_current st) (ps_last_account st) (map account_order (ps_accounts st)) \<and>
     ordered (ps_all st) (ps_current st) (ps_last_storage st) (map storage_order (ps_storage st)) \<and>
     code_valid E (ps_all st) (ps_code st) \<and> set (ps_code_hashes st) = cb_code_hash ` set (ps_code st)"

lemma ps_ok_start: "ps_ok E h ps_start"
  by (simp add: ps_ok_def ps_start_def ps_all_def ordered_def code_valid_def first_follows_def)

lemma code_valid_mono: "code_valid E bs cs \<Longrightarrow> code_valid E (bs @ bs') cs"
  by (auto simp: code_valid_def)

lemma checked_current_Inr [simp]:
  "checked_current current v = Inr n \<longleftrightarrow> parse_quantity v = Inr n \<and> (\<exists>b. current = Some b \<and> bm_number b = n)"
  by (auto simp: checked_current_def)

lemma block_step_ok:
  assumes "block_step h st number hash parent_hash state_root timestamp = Inr st'" "ps_ok E h st" "ps_trailer st = None"
  shows "ps_ok E h st'"
proof -
  from assms(1) obtain n t where n: "ps_current st = None"
    "st' = st\<lparr>ps_current := Some \<lparr>bm_number = n, bm_hash = hash, bm_parent_hash = parent_hash, bm_state_root = state_root, bm_timestamp = t\<rparr>,
       ps_event_count := 0, ps_last_account := None, ps_last_storage := None, ps_account_keys := [], ps_storage_keys := []\<rparr>"
    "ps_blocks st \<noteq> [] \<Longrightarrow> checked_succ (bm_number (last (ps_blocks st))) = Some n \<and> bm_hash (last (ps_blocks st)) = parent_hash"
    "ps_blocks st = [] \<Longrightarrow> hdr_mode h = Delta \<Longrightarrow> parent_hash = case_option 0 id (hdr_preceding_hash h)"
    by (auto simp: block_step_def last_opt_def split: if_splits)
  define b where "b = \<lparr>bm_number = n, bm_hash = hash, bm_parent_hash = parent_hash, bm_state_root = state_root, bm_timestamp = t\<rparr>"
  have b: "ps_current st = None" "ps_blocks st' = ps_blocks st" "ps_current st' = Some b"
    "ps_accounts st' = ps_accounts st" "ps_storage st' = ps_storage st" "ps_code st' = ps_code st" "ps_code_hashes st' = ps_code_hashes st"
    "ps_trailer st' = None" and l: "ps_blocks st \<noteq> [] \<Longrightarrow> checked_succ (bm_number (last (ps_blocks st))) = Some (bm_number b) \<and> bm_hash (last (ps_blocks st)) = bm_parent_hash b"
      "ps_blocks st = [] \<Longrightarrow> hdr_mode h = Delta \<Longrightarrow> bm_parent_hash b = case_option 0 id (hdr_preceding_hash h)"
    using n assms(3) by (simp_all add: b_def)
  have all: "ps_all st = ps_blocks st" "ps_all st' = ps_blocks st @ [b]" using b by (simp_all add: ps_all_def)
  have linked: "linked (ps_blocks st @ [b])" using l assms(2) by (simp add: linked_snoc ps_ok_def all)
  have "first_follows h (ps_blocks st @ [b])" using l(2) assms(2) by (cases "ps_blocks st") (auto simp: ps_ok_def all first_follows_def)
  with linked assms(2) show ?thesis by (auto simp: ps_ok_def all b intro!: ordered_open code_valid_mono)
qed

lemma account_step_ok:
  assumes "account_step E' st block address exists incarnation nonce balance code_hash = Inr st'" "ps_ok E h st" "ps_trailer st = None"
  shows "ps_ok E h st'"
proof -
  from assms(1,3) obtain b e where b: "ps_current st = Some b" "st' = st\<lparr>ps_account_keys := address # ps_account_keys st, ps_last_account := Some address,
      ps_accounts := ps_accounts st @ [e], ps_event_count := ps_event_count st + 1\<rparr>" "account_order e = (bm_number b, address)"
    and l: "\<And>x. ps_last_account st = Some x \<Longrightarrow> x < address"
    by (auto simp: account_step_def account_order_def not_le split: if_splits option.splits)
  have all: "ps_all st = ps_blocks st @ [b]" "ps_all st' = ps_blocks st @ [b]" using b by (simp_all add: ps_all_def)
  show ?thesis using assms(2,3) l by (auto simp: ps_ok_def all b(2) b(1) b(3) ps_all_def intro!: ordered_push)
qed

lemma storage_step_ok:
  assumes "storage_step st block address incarnation slot v = Inr st'" "ps_ok E h st" "ps_trailer st = None"
  shows "ps_ok E h st'"
proof -
  from assms(1) obtain b n i where n: "ps_current st = Some b" "n = bm_number b" "st' = st\<lparr>ps_storage_keys := (address, i, slot) # ps_storage_keys st,
      ps_last_storage := Some (address, i, slot),
      ps_storage := ps_storage st @ [\<lparr>se_block = n, se_address = address, se_incarnation = i, se_slot = slot, se_value = v\<rparr>],
      ps_event_count := ps_event_count st + 1\<rparr>" "\<not> (case ps_last_storage st of None \<Rightarrow> False | Some final \<Rightarrow> (address, i, slot) \<le> final)"
    unfolding storage_step_def Let_def by (auto simp del: less_eq_prod_simp split: if_splits)
  define e where "e = \<lparr>se_block = n, se_address = address, se_incarnation = i, se_slot = slot, se_value = v\<rparr>"
  define k where "k = (address, i, slot)"
  have b: "ps_current st = Some b" "st' = st\<lparr>ps_storage_keys := k # ps_storage_keys st, ps_last_storage := Some k,
      ps_storage := ps_storage st @ [e], ps_event_count := ps_event_count st + 1\<rparr>" "storage_order e = (bm_number b, k)"
    using n by (simp_all add: e_def k_def storage_order_def)
  have l: "\<And>x. ps_last_storage st = Some x \<Longrightarrow> x < k" using n(4) by (simp add: k_def not_le)
  have all: "ps_all st = ps_blocks st @ [b]" "ps_all st' = ps_blocks st @ [b]" using b by (simp_all add: ps_all_def)
  show ?thesis using assms(2,3) l by (auto simp: ps_ok_def all b(2) b(1) b(3) ps_all_def intro!: ordered_push)
qed

lemma code_step_ok:
  assumes "code_step E st code_hash bs = Inr st'" "ps_ok E h st" "ps_trailer st = None"
  shows "ps_ok E h st'"
  using assms by (auto simp: code_step_def ps_ok_def ps_all_def code_valid_def split: if_splits)

lemma block_end_step_ok:
  assumes "block_end_step st number expected = Inr st'" "ps_ok E h st" "ps_trailer st = None"
  shows "ps_ok E h st'"
  using assms by (auto simp: block_end_step_def ps_ok_def ps_all_def intro: ordered_close split: if_splits)

lemma trailer_step_ok:
  assumes "trailer_step st end_number end_hash block_count = Inr st'" "ps_ok E h st" "ps_trailer st = None"
  shows "ps_ok E h st'"
  using assms by (auto simp: trailer_step_def ps_ok_def ps_all_def split: if_splits)

lemma record_step_ok: "record_step E h st r = Inr st' \<Longrightarrow> ps_ok E h st \<Longrightarrow> ps_ok E h st'"
  unfolding record_step_def
  by (cases "ps_trailer st"; cases r)
    (simp_all add: block_step_ok account_step_ok storage_step_ok code_step_ok block_end_step_ok trailer_step_ok)

lemma records_ok: "fold_r (record_step E h) st rs = Inr st' \<Longrightarrow> ps_ok E h st \<Longrightarrow> ps_ok E h st'"
  by (induction rs arbitrary: st) (auto intro: record_step_ok)

section \<open>Well-formed packages\<close>

text \<open>What a package promises to publication: one chain of blocks, every event in one of them and in the order of keys, every
  code blob once and under its own hash, and the boundary that its mode announces.\<close>

definition package_ok :: "'x ext_scheme \<Rightarrow> package \<Rightarrow> bool" where
  "package_ok E p \<longleftrightarrow>
     (let sg = pk_segment p; first = hd (sg_blocks sg); final = last (sg_blocks sg)
      in sg_blocks sg \<noteq> [] \<and> linked (sg_blocks sg) \<and> sg_start_block sg = bm_number first \<and> sg_end_block sg = bm_number final \<and>
         (bm_number first = 0 \<longrightarrow> bm_hash first = sg_genesis_hash sg) \<and>
         (pk_mode p = Delta \<longrightarrow> Option.bind (pk_preceding_number p) checked_succ = Some (bm_number first) \<and>
            pk_preceding_hash p = Some (bm_parent_hash first)) \<and>
         ssorted (map account_order (sg_accounts sg)) \<and> ae_block ` set (sg_accounts sg) \<subseteq> bm_number ` set (sg_blocks sg) \<and>
         ssorted (map storage_order (sg_storage sg)) \<and> se_block ` set (sg_storage sg) \<subseteq> bm_number ` set (sg_blocks sg) \<and>
         code_valid E (sg_blocks sg) (sg_code sg))"


lemma finish_package_ok:
  assumes "finish_package h digest st = Inr p" "ps_ok E h st" "check_header h = Inr ()"
  shows "package_ok E p" "pk_input_sha256 p = digest"
proof -
  from assms(1) obtain t where t: "ps_trailer st = Some t" by (auto simp: finish_package_def)
  with assms(2) have all: "ps_all st = ps_blocks st" by (simp add: ps_ok_def ps_all_def)
  note ok = assms(2) [unfolded ps_ok_def all]
  have events: "ae_block ` set (ps_accounts st) \<subseteq> bm_number ` set (ps_blocks st)" "se_block ` set (ps_storage st) \<subseteq> bm_number ` set (ps_blocks st)"
    "ssorted (map account_order (ps_accounts st))" "ssorted (map storage_order (ps_storage st))"
    using ok by (auto simp: account_order_def storage_order_def ordered_def)
  from assms(1) have ne: "ps_blocks st \<noteq> []" by (auto simp: finish_package_def)
  have pre: "hdr_preceding_hash h = Some (bm_parent_hash (hd (ps_blocks st)))" if "hdr_mode h = Delta"
    using assms(3) ok ne that by (auto simp: check_header_def first_follows_def split: if_splits)
  obtain b bs n x c where b: "ps_blocks st = b # bs" and t': "t = (n, x, c)" using ne by (cases "ps_blocks st"; cases t) auto
  from assms(1) have p: "(bm_number b = 0 \<longrightarrow> bm_hash b = hdr_genesis_hash h)"
    "hdr_mode h = Delta \<longrightarrow> Option.bind (hdr_preceding_number h) checked_succ = Some (bm_number b)"
    "p = \<lparr>pk_mode = hdr_mode h, pk_preceding_number = hdr_preceding_number h, pk_preceding_hash = hdr_preceding_hash h,
              pk_input_sha256 = digest,
              pk_segment = \<lparr>sg_schema = SEGMENT_SCHEMA, sg_chain_id = hdr_chain_id h, sg_genesis_hash = hdr_genesis_hash h,
                sg_start_block = bm_number b, sg_end_block = bm_number (last (ps_blocks st)), sg_blocks = ps_blocks st, sg_accounts = ps_accounts st,
                sg_storage = ps_storage st, sg_code = ps_code st\<rparr>\<rparr>"
    unfolding finish_package_def t t' b Let_def by (simp_all split: if_splits)
  show "package_ok E p" using p(1,2) pre events ok unfolding package_ok_def p(3) by (simp add: b Let_def)
  show "pk_input_sha256 p = digest" by (simp add: p(3))
qed

lemma package_of_ok: "package_of E digest records = Inr p \<Longrightarrow> package_ok E p \<and> pk_input_sha256 p = digest"
  by (auto simp: package_of_def split: if_splits dest!: records_ok intro!: ps_ok_start finish_package_ok)

end
