(* ===== verification/Package_Text.thy ===== *)
theory Package_Text
  imports Normalized
begin

text \<open>
  What the package parser accepts. A reference printer writes a package as records, block by block;
  the parser reads the package back. With the soundness of the parser this
  says which packages can be published. The records of an accepted package have
  distinct versions, so the run that publication writes is strictly sorted.
\<close>

section \<open>The reference printer\<close>

definition account_line :: "'x ext_scheme \<Rightarrow> account_event \<Rightarrow> jrecord" where
  "account_line E e = Account (quantity (ae_block e)) (ae_address e) (ae_exists e) (quantity (ae_incarnation e))
     (if ae_exists e then Some (quantity (ae_nonce e)) else None)
     (if ae_exists e then Some (quantity_u256 E (ae_balance e)) else None)
     (if ae_exists e then Some (ae_code_hash e) else None)"

definition storage_line :: "storage_event \<Rightarrow> jrecord" where
  "storage_line e = Storage (quantity (se_block e)) (se_address e) (quantity (se_incarnation e)) (se_slot e) (se_value e)"

definition code_line :: "'x ext_scheme \<Rightarrow> code_blob \<Rightarrow> jrecord" where
  "code_line E c = Code (cb_code_hash c) (''0x'' @ hex_encode E (cb_bytes c))"

definition block_lines :: "'x ext_scheme \<Rightarrow> block_meta \<Rightarrow> account_event list \<Rightarrow> storage_event list \<Rightarrow> code_blob list \<Rightarrow> jrecord list" where
  "block_lines E b accounts storage blobs =
     Block (quantity (bm_number b)) (bm_hash b) (bm_parent_hash b) (bm_state_root b) (quantity (bm_timestamp b)) #
     map (account_line E) accounts @ map storage_line storage @ map (code_line E) blobs @
     [BlockEnd (quantity (bm_number b)) (quantity (word_of_nat (length accounts + length storage + length blobs)))]"

definition at_block :: "('a \<Rightarrow> u64) \<Rightarrow> 'a list \<Rightarrow> block_meta \<Rightarrow> 'a list" where
  "at_block f xs b = filter (\<lambda>x. f x = bm_number b) xs"

definition segment_lines :: "'x ext_scheme \<Rightarrow> segment \<Rightarrow> block_meta list \<Rightarrow> jrecord list" where
  "segment_lines E sg bs =
     concat (map (\<lambda>b. block_lines E b (at_block ae_block (sg_accounts sg) b) (at_block se_block (sg_storage sg) b)
       (at_block cb_first_seen_block (sg_code sg) b)) bs)"

definition header_line :: "package \<Rightarrow> jrecord" where
  "header_line p =
     (let sg = pk_segment p; first = hd (sg_blocks sg)
      in Header SCHEMA (quantity (sg_chain_id sg)) (sg_genesis_hash sg) (if pk_mode p = Anchor then ''anchor'' else ''delta'')
           (if pk_mode p = Anchor then Some (quantity (bm_number first)) else None)
           (if pk_mode p = Anchor then Some (bm_hash first) else None)
           (map_option quantity (pk_preceding_number p)) (pk_preceding_hash p))"

definition trailer_line :: "segment \<Rightarrow> jrecord" where
  "trailer_line sg = Trailer (quantity (bm_number (last (sg_blocks sg)))) (bm_hash (last (sg_blocks sg)))
     (quantity (word_of_nat (length (sg_blocks sg))))"

definition package_lines :: "'x ext_scheme \<Rightarrow> package \<Rightarrow> jrecord list" where
  "package_lines E p =
     (let sg = pk_segment p in header_line p # segment_lines E sg (sg_blocks sg) @ [trailer_line sg])"

text \<open>A deleted account has no fields, code is listed in block order, and the segment has the schema of the parser.\<close>

definition printable :: "package \<Rightarrow> bool" where
  "printable p \<longleftrightarrow> (let sg = pk_segment p in
     sg_schema sg = SEGMENT_SCHEMA \<and> sorted (map cb_first_seen_block (sg_code sg)) \<and>
     list_all (\<lambda>e. ae_exists e \<or> ae_nonce e = 0 \<and> ae_balance e = 0 \<and> ae_code_hash e = 0) (sg_accounts sg))"

section \<open>One block\<close>

lemma fold_r_append: "fold_r f b (xs @ ys) = bind_r (fold_r f b xs) (\<lambda>b'. fold_r f b' ys)"
  by (induction xs arbitrary: b) (simp_all add: bind_r_def split: sum.splits)

definition open_state :: "pstate \<Rightarrow> block_meta \<Rightarrow> bool" where
  "open_state st b \<longleftrightarrow> ps_current st = Some b \<and> ps_trailer st = None"

lemma accounts_read:
  assumes "hex_roundtrip E" "open_state st b" "\<forall>e\<in>set es. ae_block e = bm_number b"
    "list_all (\<lambda>e. ae_exists e \<or> ae_nonce e = 0 \<and> ae_balance e = 0 \<and> ae_code_hash e = 0) es"
    "ssorted (map ae_address es)" "\<forall>e\<in>set es. (\<forall>x. ps_last_account st = Some x \<longrightarrow> x < ae_address e) \<and> ae_address e \<notin> set (ps_account_keys st)"
  shows "\<exists>keys final. fold_r (record_step E h) st (map (account_line E) es) =
    Inr (st\<lparr>ps_accounts := ps_accounts st @ es, ps_event_count := ps_event_count st + word_of_nat (length es),
      ps_account_keys := keys, ps_last_account := final\<rparr>)"
  using assms(2-)
proof (induction es arbitrary: st)
  case Nil
  show ?case by (intro exI [of _ "ps_account_keys st"] exI [of _ "ps_last_account st"]) simp
next
  case (Cons e es)
  let ?st = "st\<lparr>ps_account_keys := ae_address e # ps_account_keys st, ps_last_account := Some (ae_address e),
    ps_accounts := ps_accounts st @ [e], ps_event_count := ps_event_count st + 1\<rparr>"
  have "account_fields E (ae_exists e) (if ae_exists e then Some (quantity (ae_nonce e)) else None)
     (if ae_exists e then Some (quantity_u256 E (ae_balance e)) else None)
     (if ae_exists e then Some (ae_code_hash e) else None) = Inr (ae_nonce e, ae_balance e, ae_code_hash e)"
    using Cons.prems(3) by (auto simp: account_fields_def parse_quantity_print parse_u256_print assms(1))
  moreover have "\<not> (case ps_last_account st of None \<Rightarrow> False | Some x \<Rightarrow> ae_address e \<le> x)"
    using Cons.prems(5) by (auto split: option.splits)
  ultimately have "record_step E h st (account_line E e) = Inr ?st"
    using Cons.prems by (simp add: record_step_def account_line_def account_step_def checked_current_def parse_quantity_print open_state_def)
  moreover have "\<exists>keys final. fold_r (record_step E h) ?st (map (account_line E) es) =
    Inr (?st\<lparr>ps_accounts := ps_accounts ?st @ es, ps_event_count := ps_event_count ?st + word_of_nat (length es),
      ps_account_keys := keys, ps_last_account := final\<rparr>)"
    by (rule Cons.IH) (use Cons.prems in \<open>auto simp: open_state_def\<close>)
  ultimately show ?case by (auto simp: add.assoc)
qed

lemma storage_read:
  assumes "open_state st b" "\<forall>e\<in>set es. se_block e = bm_number b" "ssorted (map (snd \<circ> storage_order) es)"
    "\<forall>e\<in>set es. (\<forall>x. ps_last_storage st = Some x \<longrightarrow> x < snd (storage_order e)) \<and> snd (storage_order e) \<notin> set (ps_storage_keys st)"
  shows "\<exists>keys final. fold_r (record_step E h) st (map storage_line es) =
    Inr (st\<lparr>ps_storage := ps_storage st @ es, ps_event_count := ps_event_count st + word_of_nat (length es),
      ps_storage_keys := keys, ps_last_storage := final\<rparr>)"
  using assms
proof (induction es arbitrary: st)
  case Nil
  show ?case by (intro exI [of _ "ps_storage_keys st"] exI [of _ "ps_last_storage st"]) simp
next
  case (Cons e es)
  let ?k = "(se_address e, se_incarnation e, se_slot e)"
  let ?st = "st\<lparr>ps_storage_keys := ?k # ps_storage_keys st, ps_last_storage := Some ?k,
    ps_storage := ps_storage st @ [e], ps_event_count := ps_event_count st + 1\<rparr>"
  have "\<not> (case ps_last_storage st of None \<Rightarrow> False | Some x \<Rightarrow> ?k \<le> x)" "?k \<notin> set (ps_storage_keys st)"
    using Cons.prems(4) by (auto simp: storage_order_def not_le simp del: less_eq_prod_simp less_prod_simp split: option.splits)
  then have "record_step E h st (storage_line e) = Inr ?st"
    using Cons.prems(1,2) by (simp add: record_step_def storage_line_def storage_step_def Let_def checked_current_def parse_quantity_print open_state_def del: less_eq_prod_simp)
  moreover have "\<exists>keys final. fold_r (record_step E h) ?st (map storage_line es) =
    Inr (?st\<lparr>ps_storage := ps_storage ?st @ es, ps_event_count := ps_event_count ?st + word_of_nat (length es),
      ps_storage_keys := keys, ps_last_storage := final\<rparr>)"
    by (rule Cons.IH) (use Cons.prems in \<open>fastforce simp: open_state_def storage_order_def simp del: less_prod_simp\<close>)+
  ultimately show ?case by (auto simp: add.assoc)
qed

lemma code_read:
  assumes "hex_roundtrip E" "open_state st b"
    "\<forall>c\<in>set cs. cb_first_seen_block c = bm_number b \<and> keccak256 E (cb_bytes c) = cb_code_hash c \<and> cb_code_hash c \<notin> set (ps_code_hashes st)"
    "distinct (map cb_code_hash cs)"
  shows "fold_r (record_step E h) st (map (code_line E) cs) =
    Inr (st\<lparr>ps_code := ps_code st @ cs, ps_event_count := ps_event_count st + word_of_nat (length cs),
      ps_code_hashes := rev (map cb_code_hash cs) @ ps_code_hashes st\<rparr>)"
  using assms(2-)
proof (induction cs arbitrary: st)
  case (Cons c cs)
  let ?st = "st\<lparr>ps_code_hashes := cb_code_hash c # ps_code_hashes st, ps_code := ps_code st @ [c], ps_event_count := ps_event_count st + 1\<rparr>"
  have "record_step E h st (code_line E c) = Inr ?st"
    using Cons.prems parse_data_hex [OF assms(1), of "cb_bytes c"]
    by (cases c) (simp add: record_step_def code_line_def code_step_def open_state_def)
  moreover have "fold_r (record_step E h) ?st (map (code_line E) cs) =
    Inr (?st\<lparr>ps_code := ps_code ?st @ cs, ps_event_count := ps_event_count ?st + word_of_nat (length cs),
      ps_code_hashes := rev (map cb_code_hash cs) @ ps_code_hashes ?st\<rparr>)"
    by (rule Cons.IH) (use Cons.prems in \<open>auto simp: open_state_def image_iff\<close>)
  ultimately show ?case by (simp add: add.assoc)
qed simp

definition closed_state ::
  "pstate \<Rightarrow> block_meta list \<Rightarrow> account_event list \<Rightarrow> storage_event list \<Rightarrow> code_blob list \<Rightarrow> bool" where
  "closed_state st bs accounts storage blobs \<longleftrightarrow> ps_current st = None \<and> ps_trailer st = None \<and> ps_blocks st = bs \<and>
     ps_accounts st = accounts \<and> ps_storage st = storage \<and> ps_code st = blobs \<and> set (ps_code_hashes st) = cb_code_hash ` set blobs"

definition block_events ::
  "'x ext_scheme \<Rightarrow> block_meta \<Rightarrow> account_event list \<Rightarrow> storage_event list \<Rightarrow> code_blob list \<Rightarrow> bool" where
  "block_events E b accounts storage blobs \<longleftrightarrow>
     (\<forall>e\<in>set accounts. ae_block e = bm_number b) \<and> ssorted (map ae_address accounts) \<and>
     list_all (\<lambda>e. ae_exists e \<or> ae_nonce e = 0 \<and> ae_balance e = 0 \<and> ae_code_hash e = 0) accounts \<and>
     (\<forall>e\<in>set storage. se_block e = bm_number b) \<and> ssorted (map (snd \<circ> storage_order) storage) \<and>
     (\<forall>c\<in>set blobs. cb_first_seen_block c = bm_number b \<and> keccak256 E (cb_bytes c) = cb_code_hash c)"

lemma block_read:
  assumes hex: "hex_roundtrip E" and st: "closed_state st bs accounts storage blobs" and events: "block_events E b accounts' storage' blobs'"
    and link: "linked (bs @ [b])" "first_follows h (bs @ [b])" and codes: "distinct (map cb_code_hash (blobs @ blobs'))"
  shows "\<exists>st'. fold_r (record_step E h) st (block_lines E b accounts' storage' blobs') = Inr st' \<and>
    closed_state st' (bs @ [b]) (accounts @ accounts') (storage @ storage') (blobs @ blobs')"
proof -
  note st = st [unfolded closed_state_def]
  define s1 where "s1 = st\<lparr>ps_current := Some b, ps_event_count := 0, ps_last_account := None, ps_last_storage := None,
    ps_account_keys := [], ps_storage_keys := []\<rparr>"
  have "record_step E h st (Block (quantity (bm_number b)) (bm_hash b) (bm_parent_hash b) (bm_state_root b) (quantity (bm_timestamp b))) = Inr s1"
    using st link by (cases "bs = []")
      (auto simp: record_step_def block_step_def parse_quantity_print linked_snoc last_opt_def s1_def first_follows_def)
  moreover obtain keys final where "fold_r (record_step E h) s1 (map (account_line E) accounts') =
    Inr (s1\<lparr>ps_accounts := ps_accounts s1 @ accounts', ps_event_count := ps_event_count s1 + word_of_nat (length accounts'),
      ps_account_keys := keys, ps_last_account := final\<rparr>)" (is "_ = Inr ?s2")
    using accounts_read [OF hex, of s1 b accounts' h] events st by (auto simp: s1_def open_state_def block_events_def)
  moreover obtain keys' final' where "fold_r (record_step E h) ?s2 (map storage_line storage') =
    Inr (?s2\<lparr>ps_storage := ps_storage ?s2 @ storage', ps_event_count := ps_event_count ?s2 + word_of_nat (length storage'),
      ps_storage_keys := keys', ps_last_storage := final'\<rparr>)" (is "_ = Inr ?s3")
    using storage_read [of ?s2 b storage' E h] events st by (auto simp: s1_def open_state_def block_events_def)
  moreover have "fold_r (record_step E h) ?s3 (map (code_line E) blobs') =
    Inr (?s3\<lparr>ps_code := ps_code ?s3 @ blobs', ps_event_count := ps_event_count ?s3 + word_of_nat (length blobs'),
      ps_code_hashes := rev (map cb_code_hash blobs') @ ps_code_hashes ?s3\<rparr>)" (is "_ = Inr ?s4")
    by (rule code_read [OF hex, of _ b]) (use events st codes in \<open>auto simp: s1_def open_state_def block_events_def\<close>)
  moreover have "record_step E h ?s4 (BlockEnd (quantity (bm_number b)) (quantity (word_of_nat (length accounts' + length storage' + length blobs')))) =
    Inr (?s4\<lparr>ps_current := None, ps_blocks := bs @ [b]\<rparr>)" (is "_ = Inr ?s5")
    using st by (simp add: record_step_def block_end_step_def checked_current_def parse_quantity_print s1_def)
  ultimately have "fold_r (record_step E h) st (block_lines E b accounts' storage' blobs') = Inr ?s5"
    by (simp add: block_lines_def fold_r_append)
  moreover have "closed_state ?s5 (bs @ [b]) (accounts @ accounts') (storage @ storage') (blobs @ blobs')"
    using st by (auto simp: closed_state_def s1_def)
  ultimately show ?thesis by blast
qed

section \<open>All blocks\<close>

lemma linked_ssorted: "linked bs \<Longrightarrow> ssorted (map bm_number bs)"
proof (induction bs rule: rev_induct)
  case (snoc b bs)
  then show ?case using linked_less [OF snoc.prems] by (auto simp: ssorted_append linked_snoc)
qed simp

lemma linked_prefix: "linked (xs @ ys) \<Longrightarrow> linked xs"
  by (induction xs rule: linked.induct) (auto elim: linked.elims)

lemma sorted_first: "sorted (map f xs) \<Longrightarrow> \<forall>x\<in>set xs. n \<le> f x \<Longrightarrow> filter (\<lambda>x. f x = n) xs @ filter (\<lambda>x. f x \<noteq> n) xs = xs"
proof (induction xs)
  case (Cons x xs)
  show ?case
  proof (cases "f x = n")
    case False
    with Cons.prems have "\<forall>y\<in>set xs. f y \<noteq> n" by force
    then show ?thesis using False by (simp add: filter_empty_conv)
  qed (use Cons in auto)
qed simp

lemma concat_at_block:
  "sorted (map f xs) \<Longrightarrow> f ` set xs \<subseteq> bm_number ` set bs \<Longrightarrow> ssorted (map bm_number bs) \<Longrightarrow> concat (map (at_block f xs) bs) = xs"
proof (induction bs arbitrary: xs)
  case (Cons b bs)
  let ?rest = "filter (\<lambda>x. f x \<noteq> bm_number b) xs"
  have "map (at_block f xs) bs = map (at_block f ?rest) bs"
    using Cons.prems(3) by (auto simp: at_block_def intro!: filter_cong)
  moreover have "concat (map (at_block f ?rest) bs) = ?rest"
    by (rule Cons.IH) (use Cons.prems in \<open>auto simp: sorted_filter\<close>)
  moreover have "\<forall>x\<in>set xs. bm_number b \<le> f x" using Cons.prems(2,3) by force
  ultimately show ?case using sorted_first [OF Cons.prems(1), of "bm_number b"]
    by (simp only: list.map concat.simps) (simp add: at_block_def)
qed simp

lemma segment_read:
  assumes hex: "hex_roundtrip E" and st: "closed_state st bs accounts storage blobs" and link: "linked (bs @ bs')" "first_follows h (bs @ bs')"
    and events: "\<forall>b\<in>set bs'. block_events E b (at_block ae_block (sg_accounts sg) b) (at_block se_block (sg_storage sg) b)
       (at_block cb_first_seen_block (sg_code sg) b)"
    and codes: "distinct (map cb_code_hash (blobs @ concat (map (at_block cb_first_seen_block (sg_code sg)) bs')))"
  shows "\<exists>st'. fold_r (record_step E h) st (segment_lines E sg bs') = Inr st' \<and>
    closed_state st' (bs @ bs') (accounts @ concat (map (at_block ae_block (sg_accounts sg)) bs'))
      (storage @ concat (map (at_block se_block (sg_storage sg)) bs')) (blobs @ concat (map (at_block cb_first_seen_block (sg_code sg)) bs'))"
  using st link events codes
proof (induction bs' arbitrary: st bs accounts storage blobs)
  case (Cons b bs')
  have "\<exists>st'. fold_r (record_step E h) st (block_lines E b (at_block ae_block (sg_accounts sg) b) (at_block se_block (sg_storage sg) b)
       (at_block cb_first_seen_block (sg_code sg) b)) = Inr st' \<and>
    closed_state st' (bs @ [b]) (accounts @ at_block ae_block (sg_accounts sg) b) (storage @ at_block se_block (sg_storage sg) b)
      (blobs @ at_block cb_first_seen_block (sg_code sg) b)"
  proof (rule block_read [OF hex Cons.prems(1)])
    show "linked (bs @ [b])" using Cons.prems(2) linked_prefix [of "bs @ [b]"] by simp
    show "first_follows h (bs @ [b])" using Cons.prems(3) by (cases bs) (simp_all add: first_follows_def)
  qed (use Cons.prems in auto)
  then obtain st' where st': "fold_r (record_step E h) st (block_lines E b (at_block ae_block (sg_accounts sg) b) (at_block se_block (sg_storage sg) b)
       (at_block cb_first_seen_block (sg_code sg) b)) = Inr st'"
    "closed_state st' (bs @ [b]) (accounts @ at_block ae_block (sg_accounts sg) b) (storage @ at_block se_block (sg_storage sg) b)
      (blobs @ at_block cb_first_seen_block (sg_code sg) b)" by blast
  with Cons.IH [OF st'(2)] Cons.prems(2-) show ?case by (simp add: segment_lines_def fold_r_append)
qed (simp add: segment_lines_def)

section \<open>Every well-formed package is accepted\<close>

lemma sorted_fst: "ssorted (map f xs) \<Longrightarrow> sorted (map (fst \<circ> f) xs)"
  by (induction xs) (auto simp: less_prod_def)

lemma ssorted_at_block:
  assumes "ssorted (map f xs)" "\<And>x. fst (f x) = g x"
  shows "ssorted (map (snd \<circ> f) (at_block g xs b))"
proof -
  have "ssorted (map f (at_block g xs b))" using ssorted_filter [OF assms(1)] by (simp add: at_block_def)
  moreover have "\<forall>x\<in>set (at_block g xs b). fst (f x) = bm_number b" by (simp add: at_block_def assms(2))
  ultimately show ?thesis by (induction "at_block g xs b") (auto simp: sorted_wrt_map less_prod_def sorted_wrt_iff_nth_less)
qed

definition package_header :: "package \<Rightarrow> header" where
  "package_header p =
     (let sg = pk_segment p; first = hd (sg_blocks sg)
      in \<lparr>hdr_chain_id = sg_chain_id sg, hdr_genesis_hash = sg_genesis_hash sg, hdr_mode = pk_mode p,
          hdr_anchor_number = (if pk_mode p = Anchor then Some (bm_number first) else None),
          hdr_anchor_hash = (if pk_mode p = Anchor then Some (bm_hash first) else None),
          hdr_preceding_number = pk_preceding_number p, hdr_preceding_hash = pk_preceding_hash p\<rparr>)"

lemma header_read: "parse_header (header_line p) = Inr (package_header p)"
  by (cases "pk_mode p"; cases "pk_preceding_number p")
    (simp_all add: header_line_def parse_header_def package_header_def Let_def parse_optional_def parse_quantity_print)

lemma header_checked: "package_ok E p \<Longrightarrow> check_header (package_header p) = Inr ()"
  by (cases "pk_mode p") (auto simp: check_header_def package_header_def package_ok_def Let_def Option.bind_eq_Some_conv)

lemma package_events:
  assumes "package_ok E p" "printable p"
  defines "sg \<equiv> pk_segment p"
  shows "block_events E b (at_block ae_block (sg_accounts sg) b) (at_block se_block (sg_storage sg) b) (at_block cb_first_seen_block (sg_code sg) b)"
    and "concat (map (at_block ae_block (sg_accounts sg)) (sg_blocks sg)) = sg_accounts sg"
    and "concat (map (at_block se_block (sg_storage sg)) (sg_blocks sg)) = sg_storage sg"
    and "concat (map (at_block cb_first_seen_block (sg_code sg)) (sg_blocks sg)) = sg_code sg"
proof -
  note ok = assms(1) [unfolded package_ok_def Let_def, folded sg_def] and pr = assms(2) [unfolded printable_def Let_def, folded sg_def]
  have orders: "snd \<circ> account_order = ae_address" "fst \<circ> account_order = ae_block" "fst \<circ> storage_order = se_block"
    by (simp_all add: fun_eq_iff account_order_def storage_order_def)
  have "ssorted (map (snd \<circ> account_order) (at_block ae_block (sg_accounts sg) b))"
    by (rule ssorted_at_block) (use ok in \<open>simp_all add: account_order_def\<close>)
  moreover have "ssorted (map (snd \<circ> storage_order) (at_block se_block (sg_storage sg) b))"
    by (rule ssorted_at_block) (use ok in \<open>simp_all add: storage_order_def\<close>)
  ultimately show "block_events E b (at_block ae_block (sg_accounts sg) b) (at_block se_block (sg_storage sg) b) (at_block cb_first_seen_block (sg_code sg) b)"
    using ok pr by (auto simp: block_events_def at_block_def orders code_valid_def list_all_iff)
  have bs: "ssorted (map bm_number (sg_blocks sg))" using ok by (simp add: linked_ssorted)
  have sorted: "sorted (map ae_block (sg_accounts sg))" "sorted (map se_block (sg_storage sg))"
    using ok sorted_fst [of account_order "sg_accounts sg"] sorted_fst [of storage_order "sg_storage sg"] by (simp_all add: orders)
  show "concat (map (at_block ae_block (sg_accounts sg)) (sg_blocks sg)) = sg_accounts sg"
    by (rule concat_at_block [OF sorted(1) _ bs]) (use ok in simp)
  show "concat (map (at_block se_block (sg_storage sg)) (sg_blocks sg)) = sg_storage sg"
    by (rule concat_at_block [OF sorted(2) _ bs]) (use ok in simp)
  show "concat (map (at_block cb_first_seen_block (sg_code sg)) (sg_blocks sg)) = sg_code sg"
    by (rule concat_at_block [OF _ _ bs]) (use ok pr in \<open>auto simp: code_valid_def\<close>)
qed

lemma package_of_lines:
  assumes hex: "hex_roundtrip E" and ok: "package_ok E p" "printable p"
  shows "package_of E (pk_input_sha256 p) (package_lines E p) = Inr p"
proof -
  define sg where "sg = pk_segment p"
  define h where "h = package_header p"
  note facts = ok(1) [unfolded package_ok_def Let_def, folded sg_def] and pr = ok(2) [unfolded printable_def Let_def, folded sg_def]
  obtain b bs where b: "sg_blocks sg = b # bs" using facts by (cases "sg_blocks sg") auto
  have "\<exists>st'. fold_r (record_step E h) ps_start (segment_lines E sg (sg_blocks sg)) = Inr st' \<and>
    closed_state st' ([] @ sg_blocks sg) ([] @ concat (map (at_block ae_block (sg_accounts sg)) (sg_blocks sg)))
      ([] @ concat (map (at_block se_block (sg_storage sg)) (sg_blocks sg))) ([] @ concat (map (at_block cb_first_seen_block (sg_code sg)) (sg_blocks sg)))"
  proof (rule segment_read [OF hex])
    show "closed_state ps_start [] [] [] []" by (simp add: closed_state_def ps_start_def)
    show "linked ([] @ sg_blocks sg)" "first_follows h ([] @ sg_blocks sg)"
      using facts by (auto simp: first_follows_def h_def package_header_def Let_def)
    show "distinct (map cb_code_hash ([] @ concat (map (at_block cb_first_seen_block (sg_code sg)) (sg_blocks sg))))"
      using facts package_events(4) [OF ok] by (simp add: sg_def code_valid_def)
  qed (use package_events(1) [OF ok] in \<open>auto simp: sg_def\<close>)
  then obtain st where st: "fold_r (record_step E h) ps_start (segment_lines E sg (sg_blocks sg)) = Inr st"
    "closed_state st (sg_blocks sg) (sg_accounts sg) (sg_storage sg) (sg_code sg)"
    using package_events(2-) [OF ok] by (auto simp: sg_def)
  define st' where "st' = st\<lparr>ps_trailer := Some (bm_number (last (sg_blocks sg)), bm_hash (last (sg_blocks sg)), word_of_nat (length (sg_blocks sg)))\<rparr>"
  have "record_step E h st (trailer_line sg) = Inr st'"
    using st(2) by (simp add: record_step_def trailer_line_def trailer_step_def closed_state_def parse_quantity_print st'_def)
  then have "fold_r (record_step E h) ps_start (segment_lines E sg (sg_blocks sg) @ [trailer_line sg]) = Inr st'"
    by (simp add: fold_r_append st)
  moreover have first: "first_opt (ps_blocks st') = Some (hd (sg_blocks sg))"
    using st(2) by (simp add: st'_def closed_state_def b)
  have "finish_package h (pk_input_sha256 p) st' = Inr p"
    using facts pr st(2) unfolding finish_package_def first by (cases p; cases "pk_segment p")
      (simp add: st'_def closed_state_def Let_def h_def package_header_def sg_def)
  moreover have "length (package_lines E p) \<ge> 3"
    by (simp add: package_lines_def Let_def sg_def [symmetric] b segment_lines_def block_lines_def)
  ultimately show ?thesis
    using header_read [of p] header_checked [OF ok(1)]
    by (auto simp: package_of_def package_lines_def Let_def sg_def h_def)
qed

section \<open>The records of an accepted package\<close>

lemma package_log_distinct:
  assumes "package_ok E p"
  shows "distinct (map rec_vkey (package_log p))"
proof -
  have "distinct (map account_order (sg_accounts (pk_segment p)))" "distinct (map storage_order (sg_storage (pk_segment p)))"
    "distinct (map cb_code_hash (sg_code (pk_segment p)))"
    using assms by (auto simp: package_ok_def Let_def code_valid_def strict_sorted_iff)
  then show ?thesis
    by (fastforce simp: package_log_def Let_def account_record_def storage_record_def code_record_def rec_vkey_def distinct_map inj_on_def
        account_order_def storage_order_def)
qed

definition staged_size :: "krecord list \<Rightarrow> nat" where
  "staged_size rs = sum_list (map (\<lambda>r. length (rec_key r) + length (rec_value r) + 32) rs)"

lemma add_records_total:
  assumes "\<forall>x\<in>set xs. first \<le> b x \<and> b x \<le> final"
    and "n + staged_size (map (\<lambda>x. \<lparr>rec_key = k x, rec_block = b x, rec_value = v x\<rparr>) xs) \<le> MAX_STAGED"
  shows "fold_r (\<lambda>st x. add_record first final st (k x) (b x) (v x)) (rs, n) xs =
    Inr (rs @ map (\<lambda>x. \<lparr>rec_key = k x, rec_block = b x, rec_value = v x\<rparr>) xs,
      n + staged_size (map (\<lambda>x. \<lparr>rec_key = k x, rec_block = b x, rec_value = v x\<rparr>) xs))"
  using assms
proof (induction xs arbitrary: rs n)
  case (Cons x xs)
  then show ?case by (simp add: staged_size_def add_record_def Let_def add.assoc)
qed (simp add: staged_size_def)

lemma fold_r_unguard: "\<forall>x\<in>set xs. \<not> P x \<Longrightarrow> fold_r (\<lambda>st x. if P x then bail msg else f st x) b xs = fold_r f b xs"
  by (induction xs arbitrary: b) (simp_all add: bind_r_def split: sum.splits)

lemma linked_range: "linked bs \<Longrightarrow> n \<in> bm_number ` set bs \<Longrightarrow> bm_number (hd bs) \<le> n \<and> n \<le> bm_number (last bs)"
proof (induction bs rule: rev_induct)
  case (snoc b bs)
  then show ?case using linked_less [OF snoc.prems(1)] linked_le [OF snoc.prems(1)]
    by (cases "bs = []") (auto simp: linked_snoc hd_append less_imp_le)
qed simp

lemma package_records_total:
  assumes ok: "package_ok E p" and code: "\<forall>c\<in>set (sg_code (pk_segment p)). length (cb_bytes c) \<le> MAX_CODE"
    and size: "staged_size (package_log p) \<le> MAX_STAGED"
  shows "package_records E p = Inr (sort_key rec_vkey (package_log p))"
proof -
  define sg where "sg = pk_segment p"
  note facts = ok [unfolded package_ok_def Let_def, folded sg_def]
  define first where "first = hd (sg_blocks sg)"
  define final where "final = last (sg_blocks sg)"
  have first: "first_opt (sg_blocks sg) = Some first" using facts by (cases "sg_blocks sg") (auto simp: first_def)
  have range: "n \<in> bm_number ` set (sg_blocks sg) \<Longrightarrow> bm_number first \<le> n \<and> n \<le> bm_number final" for n
    using linked_range [of "sg_blocks sg" n] facts by (simp add: first_def final_def)
  have in_range: "\<forall>e\<in>set (sg_accounts sg). bm_number first \<le> ae_block e \<and> ae_block e \<le> bm_number final"
    "\<forall>e\<in>set (sg_storage sg). bm_number first \<le> se_block e \<and> se_block e \<le> bm_number final"
    "\<forall>c\<in>set (sg_code sg). bm_number first \<le> cb_first_seen_block c \<and> cb_first_seen_block c \<le> bm_number final"
    using facts by (auto simp: code_valid_def intro!: range)
  have guard: "\<forall>c\<in>set (sg_code sg). \<not> (length (cb_bytes c) > MAX_CODE \<or> keccak256 E (cb_bytes c) \<noteq> cb_code_hash c)"
    using code facts by (auto simp: code_valid_def sg_def)
  have sizes: "staged_size (map account_record (sg_accounts sg)) + staged_size (map storage_record (sg_storage sg)) +
      staged_size (map code_record (sg_code sg)) \<le> MAX_STAGED"
    using size by (simp add: package_log_def staged_size_def Let_def sg_def)
  show ?thesis
    using sizes
    unfolding package_records_def Let_def sg_def [symmetric] first ok_or_simps bind_r_simps final_def [symmetric] fold_r_unguard [OF guard]
    by (simp add: add_records_total in_range account_record_def [abs_def] storage_record_def [abs_def] code_record_def [abs_def]
        package_log_def Let_def sg_def)
qed

lemma package_records_sorted: "package_ok E p \<Longrightarrow> ssorted (map rec_vkey (sort_key rec_vkey (package_log p)))"
  using package_log_distinct [of E p] by (simp add: strict_sorted_iff distinct_map)

end
