(* ===== verification/Package_Properties.thy ===== *)
theory Package_Properties
  imports Package_Text Small_Archive
begin

text \<open>
  Properties of the package parser, and its composition with publication. The
  witnesses read the genesis package of \<open>Small_Archive\<close> from a text with one
  letter per record.
\<close>

section \<open>A package text\<close>

definition sample_norm_ext :: ext_norm where
  "sample_norm_ext = ext.extend sample_ext (ext_norm.fields
     (\<lambda>line. case line of [b] \<Rightarrow> Inr (package_lines sample_ext sample_package ! (unat b - 65)) | _ \<Rightarrow> bail ''invalid record'') Inr (\<lambda>_. Inr))"

definition sample_text :: bytes where
  "sample_text = [65, 10, 66, 10, 67, 13, 10, 32, 10, 68, 10, 69]"

definition sample_read :: package where
  "sample_read = sample_package\<lparr>pk_input_sha256 := sha256 sample_norm_ext sample_text\<rparr>"

lemma sample_norm_simps:
  "sample_like sample_norm_ext" "hex_encode sample_norm_ext = hex_encode sample_ext" "keccak256 sample_norm_ext = keccak256 sample_ext"
  by (simp_all add: sample_norm_ext_def sample_like_def sample_ext_def ext.defs ext_norm.defs)

lemma sample_read_ok: "package_ok E sample_read" "printable sample_read"
  by (simp_all add: package_ok_def printable_def sample_read_def sample_package_def sample_block_def sample_account_def Let_def
      account_order_def code_valid_def SEGMENT_SCHEMA_def)

lemma sample_quantity: "quantity_u256 sample_norm_ext v = quantity_u256 sample_ext v"
  unfolding quantity_u256_def sample_norm_simps ..

lemma sample_lines: "package_lines sample_norm_ext sample_read = package_lines sample_ext sample_package"
  by (simp add: package_lines_def segment_lines_def block_lines_def header_line_def trailer_line_def sample_read_def sample_package_def
      account_line_def sample_quantity at_block_def Let_def)

lemma sample_text_lines: "filter (\<lambda>(i, line). \<not> blank line) (enumerate 0 (text_lines sample_text)) = [(0, [65]), (1, [66]), (2, [67]), (4, [68]), (5, [69])]"
  by (simp add: sample_text_def text_lines_def blank_def is_whitespace_def)

lemma sample_reads: "read_package sample_norm_ext sample_text = Inr sample_read"
proof -
  have "length (package_lines sample_ext sample_package) = 5"
    by (simp add: package_lines_def segment_lines_def block_lines_def sample_package_def sample_block_def sample_account_def at_block_def Let_def)
  then obtain a b c d e where "package_lines sample_ext sample_package = [a, b, c, d, e]"
    by (auto simp: length_Suc_conv numeral_eq_Suc)
  then have "map_r (parse_line sample_norm_ext) [(0, [65]), (1, [66]), (2, [67]), (4, [68]), (5, [69])] = Inr (package_lines sample_ext sample_package)"
    by (simp add: parse_line_def sample_norm_ext_def ext.defs ext_norm.defs)
  moreover have "utf8_decode sample_text \<noteq> None" by (simp add: sample_text_def)
  moreover have "package_of sample_norm_ext (sha256 sample_norm_ext sample_text) (package_lines sample_ext sample_package) = Inr sample_read"
    using package_of_lines [OF hex_sample [OF sample_norm_simps(1)] sample_read_ok] by (simp add: sample_lines) (simp add: sample_read_def)
  moreover have "\<not> prefix [0x28, 0xb5, 0x2f, 0xfd] sample_text" by (simp add: sample_text_def)
  ultimately show ?thesis
    by (simp add: read_package_def parse_package_def sample_text_lines del: bind_r_Inr map_r.simps)
qed

section \<open>Properties\<close>



text \<open>C15. The parser accepts every well-formed package and returns it: from the records of a package printed block by
  block, with deleted accounts without fields and code in block order, it rebuilds the package.\<close>

theorem package_text_roundtrip:
  assumes "hex_roundtrip E" "package_ok E p" "printable p"
  shows "package_of E (pk_input_sha256 p) (package_lines E p) = Inr p"
  by (rule package_of_lines [OF assms])

theorem package_text_roundtrip_witness:
  "package_of sample_norm_ext (pk_input_sha256 sample_read) (package_lines sample_norm_ext sample_read) = Inr sample_read \<and>
   length (package_lines sample_norm_ext sample_read) = 5"
  using package_text_roundtrip [OF hex_sample [OF sample_norm_simps(1)] sample_read_ok]
  by (simp add: package_lines_def segment_lines_def block_lines_def sample_read_def sample_package_def sample_block_def sample_account_def
      at_block_def Let_def)

text \<open>C16. Within the limits on code blobs and on the staged input, publication stages every event of a parsed package, in
  strictly increasing order of key and block, as a run requires.\<close>

theorem parsed_package_records:
  assumes "read_package E bs = Inr p"
    and "\<forall>c\<in>set (sg_code (pk_segment p)). length (cb_bytes c) \<le> MAX_CODE" "staged_size (package_log p) \<le> MAX_STAGED"
  shows "\<exists>recs. package_records E p = Inr recs \<and> set recs = set (package_log p) \<and> ssorted (map rec_vkey recs)"
proof -
  have "package_ok E p" using assms(1) by (auto simp: read_package_def parse_package_def split: if_splits dest!: package_of_ok)
  with package_records_total [OF this assms(2,3)] package_records_sorted [OF this] show ?thesis by simp
qed

theorem parsed_package_records_witness:
  "\<exists>recs. package_records sample_norm_ext sample_read = Inr recs \<and> set recs = set (package_log sample_read) \<and> ssorted (map rec_vkey recs)"
  by (rule parsed_package_records [OF sample_reads])
    (simp_all add: sample_read_def sample_package_def package_log_def staged_size_def account_record_def account_key_def
      account_value_def account_encode_def MAX_STAGED_def)

end
