(* ===== verification/Garbage.thy ===== *)
theory Garbage
  imports Publication
begin

text \<open>
  Garbage collection, from \<^verbatim>\<open>src/tiered.rs\<close>: marking what a head reaches, and deleting what is listed, old and
  not marked. The set \<^verbatim>\<open>live\<close> is a set of keys; the time of the call is an argument. Up to 32 deletions
  run at the same time in the code; they concern different keys, and the model runs them one
  after the other. The locale \<open>archive_deletes\<close> adds to the laws of a store what listing and deleting
  promise. The theorem is that a collection keeps the archive of its chain.
\<close>

section \<open>Operations\<close>

record gc_report =
  gc_live_objects :: nat
  gc_deleted_objects :: nat
  gc_deleted_bytes :: u64
  gc_kept_young :: nat

definition GC_MIN_AGE :: nat where "GC_MIN_AGE = 3 * 3600"

definition shard_paths :: "'x ext_scheme \<Rightarrow> head_run \<Rightarrow> string list" where
  "shard_paths E run =
     concat (map (\<lambda>kind. map (\<lambda>index. shard_path E (ref_digest (hr_root run)) (hr_shards run) kind (word_of_nat index))
       [0..<unat (hr_shards run)]) [Address, Spill])"

definition reachable_run :: "'x ext_scheme \<Rightarrow> 's archive_store \<Rightarrow> string set \<Rightarrow> head_run \<Rightarrow> ('s, string set) act" where
  "reachable_run E S live run =
     bind_a (lift_r (run_input E run)) (\<lambda>(root, bytes).
       let key = object_key E (ref_digest root)
       in if key \<in> live then ret live
          else
            bind_a (lift_r (decode_root E root bytes)) (\<lambda>rr.
            bind_a (object_refs E rr (fetch E S)) (\<lambda>refs.
              ret (insert key live \<union> (\<lambda>r. object_key E (ref_digest r)) ` set refs \<union> set (shard_paths E run)))))"

fun reachable_parents ::
  "'x ext_head_scheme \<Rightarrow> 's archive_store \<Rightarrow> nat \<Rightarrow> obj_ref option \<Rightarrow> string set \<Rightarrow> ('s, string set) act" where
  "reachable_parents E S (Suc n) (Some reference) live =
     (\<lambda>s. let key = object_key E (ref_digest reference)
          in case st_get_bounded S key MAX_HEAD s of
               (Inl _, s) \<Rightarrow> (Inr live, s)
             | (Inr bytes, s) \<Rightarrow>
                 reachable_parents E S n (case head_from_json E bytes of Inl _ \<Rightarrow> None | Inr head \<Rightarrow> hd_parent head) (insert key live) s)"
| "reachable_parents E S _ _ live = ret live"

definition reachable :: "'x ext_head_scheme \<Rightarrow> 's archive_store \<Rightarrow> head \<Rightarrow> nat \<Rightarrow> string set \<Rightarrow> ('s, string set) act" where
  "reachable E S head keep_heads live =
     bind_a (fold_a (reachable_run E S) live (head_runs head)) (reachable_parents E S keep_heads (hd_parent head))"

text \<open>The re-check and deletion of one candidate: its size when it was deleted.\<close>

definition gc_delete :: "'s archive_store \<Rightarrow> int \<Rightarrow> bool \<Rightarrow> listed \<Rightarrow> ('s, u64 option) act" where
  "gc_delete S cutoff dry_run listed =
     bind_a (st_modified S (l_key listed)) (\<lambda>modified.
       if (case modified of None \<Rightarrow> True | Some time \<Rightarrow> int time > cutoff) then ret None
       else
         bind_a (if dry_run then ret () else st_delete S (l_key listed)) (\<lambda>_.
           ret (Some (l_size listed))))"

definition gc_count :: "nat \<Rightarrow> nat \<Rightarrow> u64 option list \<Rightarrow> gc_report" where
  "gc_count live young deleted =
     (let sizes = concat (map (\<lambda>d. case d of None \<Rightarrow> [] | Some n \<Rightarrow> [n]) deleted)
      in \<lparr>gc_live_objects = live, gc_deleted_objects = length sizes, gc_deleted_bytes = sum_list sizes,
          gc_kept_young = young + length (filter (\<lambda>d. d = None) deleted)\<rparr>)"

text \<open>Everything before the deletions: the marked keys, and the candidates that are too young and those that are not.\<close>

definition gc_plan ::
  "'x ext_head_scheme \<Rightarrow> 's archive_store \<Rightarrow> int \<Rightarrow> u64 \<Rightarrow> nat \<Rightarrow> ('s, string set \<times> listed list \<times> listed list) act" where
  "gc_plan E S cutoff chain_id keep_heads =
     bind_a (read_head E S chain_id) (\<lambda>r.
     bind_a (lift_r (ok_or ''missing tiered head'' r)) (\<lambda>(_, head).
     bind_a (reachable E S head keep_heads {}) (\<lambda>live.
     bind_a (st_list S ''objects/'') (\<lambda>objects.
     bind_a (st_list S ''summaries/'') (\<lambda>summaries.
     bind_a (read_head E S chain_id) (\<lambda>r.
     bind_a (lift_r (ok_or ''tiered head vanished'' r)) (\<lambda>(_, head).
     bind_a (reachable E S head keep_heads live) (\<lambda>live.
       let dead = filter (\<lambda>listed. l_key listed \<notin> live) (objects @ summaries)
       in ret (live, filter (\<lambda>listed. int (l_modified listed) > cutoff) dead,
            filter (\<lambda>listed. \<not> int (l_modified listed) > cutoff) dead)))))))))"

definition collect_garbage ::
  "'x ext_head_scheme \<Rightarrow> 's archive_store \<Rightarrow> nat \<Rightarrow> u64 \<Rightarrow> nat \<Rightarrow> nat \<Rightarrow> bool \<Rightarrow> ('s, gc_report) act" where
  "collect_garbage E S started chain_id keep_heads min_age dry_run =
     (let cutoff = int started - int min_age
      in bind_a (gc_plan E S cutoff chain_id keep_heads) (\<lambda>(live, young, doomed).
         bind_a (map_a (gc_delete S cutoff dry_run) doomed) (\<lambda>deleted.
           ret (gc_count (card live) (length young) deleted))))"

section \<open>Stores that list and delete\<close>

locale archive_deletes = archive_laws S contents version fails
  for S :: "'s archive_store" and contents :: "'s \<Rightarrow> string \<Rightarrow> bytes option" and version :: "'s \<Rightarrow> string \<Rightarrow> string option"
    and fails :: "error \<Rightarrow> bool" +
  assumes list_sound: "st_list S p s = (res_list, s') \<Longrightarrow> contents s' = contents s \<and> version s' = version s \<and>
      (\<forall>ls. res_list = Inr ls \<longrightarrow> (\<forall>l\<in>set ls. prefix p (l_key l)))"
    and modified_sound: "st_modified S k s = (res_modified, s') \<Longrightarrow> contents s' = contents s \<and> version s' = version s"
    and delete_sound: "st_delete S k s = (res_delete, s') \<Longrightarrow>
      (contents s' = contents s \<or> contents s' = (contents s)(k := None)) \<and> (\<forall>k'. k' \<noteq> k \<longrightarrow> version s' k' = version s k')"
    and list_returns: "outcome fails (\<lambda>_ _. True) (st_list S p s)"
    and modified_returns: "outcome fails (\<lambda>_ _. True) (st_modified S k s)"
    and delete_returns: "outcome fails (\<lambda>_ _. True) (st_delete S k s)"

interpretation mem_deletes: archive_deletes memory_store mem_contents mem_version "\<lambda>_. False"
  by unfold_locales
    (auto simp: memory_store_def mem_list_def mem_modified_def mem_delete_def mem_contents_def mem_version_def fun_eq_iff delete_conv')

context archive_deletes begin

lemma counting_deletes:
  "archive_deletes (counting_store S) (\<lambda>cs. contents (snd cs)) (\<lambda>cs. version (snd cs)) fails"
proof (intro archive_deletes.intro [OF counting_laws] archive_deletes_axioms.intro)
  fix cs :: "counters \<times> 's" and k
  have inner: "outcome fails (\<lambda>_ _. True) (m (snd cs)) \<Longrightarrow> outcome fails (\<lambda>_ _. True) (inner m cs)" for m :: "('s, 'a) act"
    by (auto simp: inner_def outcome_def split: prod.splits sum.splits)
  show "outcome fails (\<lambda>_ _. True) (st_list (counting_store S) k cs)" "outcome fails (\<lambda>_ _. True) (st_modified (counting_store S) k cs)"
    "outcome fails (\<lambda>_ _. True) (st_delete (counting_store S) k cs)"
    by (simp_all add: counting_store_def inner list_returns modified_returns delete_returns)
qed (auto simp: counting_store_def inner_def split: prod.splits dest!: list_sound modified_sound delete_sound)

end

interpretation counted_deletes: archive_deletes "counting_store memory_store" "\<lambda>cs. mem_contents (snd cs)" "\<lambda>cs. mem_version (snd cs)" "\<lambda>_. False"
  by (rule mem_deletes.counting_deletes)

section \<open>What marking marks\<close>

text \<open>A run stays readable when the marked keys are kept.\<close>

definition run_live :: "'x ext_scheme \<Rightarrow> (string \<Rightarrow> bytes option) \<Rightarrow> string set \<Rightarrow> head_run \<Rightarrow> bool" where
  "run_live E c live r \<longleftrightarrow> (\<forall>recs. hrun_rep E c r recs \<longrightarrow> hrun_rep E (c |` live) r recs)"

text \<open>Runs of one head with the same root have summaries of the same size.\<close>

definition roots_agree :: "head \<Rightarrow> bool" where
  "roots_agree h \<longleftrightarrow> (\<forall>r\<in>set (head_runs h). \<forall>r'\<in>set (head_runs h). hr_root r = hr_root r' \<longrightarrow> hr_shards r = hr_shards r')"

definition root_key :: "'x ext_scheme \<Rightarrow> head_run \<Rightarrow> string" where
  "root_key E r = object_key E (ref_digest (hr_root r))"

lemma restrict_mono: "live \<subseteq> live' \<Longrightarrow> c |` live \<subseteq>\<^sub>m c |` live'"
  by (auto simp: map_le_def restrict_map_def dom_def split: if_splits)

lemma hrun_rep_mono: "hrun_rep E c r recs \<Longrightarrow> c \<subseteq>\<^sub>m c' \<Longrightarrow> hrun_rep E c' r recs"
  unfolding hrun_rep_def by (blast intro: built_rep_mono)

lemma run_live_mono: "run_live E c live r \<Longrightarrow> live \<subseteq> live' \<Longrightarrow> run_live E c live' r"
  unfolding run_live_def by (blast intro: hrun_rep_mono restrict_mono)

lemma probe_less:
  assumes "is_power_of_two n"
  shows "probe_address_index (probe_new E k n) < n" "probe_spill_index (probe_new E k n) < n"
proof -
  have "n \<noteq> 0" using assms by (auto simp: is_power_of_two_def)
  then show "probe_address_index (probe_new E k n) < n" "probe_spill_index (probe_new E k n) < n"
    by (simp_all add: probe_new_def shard_index_def spill_index_def word_less_nat_alt index_less)
qed

lemma shard_paths_all: "i < hr_shards r \<Longrightarrow> shard_path E (ref_digest (hr_root r)) (hr_shards r) kind i \<in> set (shard_paths E r)"
proof -
  assume "i < hr_shards r"
  then have "unat i \<in> set [0..<unat (hr_shards r)]" by (simp add: word_less_nat_alt)
  moreover have "i = word_of_nat (unat i)" by simp
  ultimately have "shard_path E (ref_digest (hr_root r)) (hr_shards r) kind i \<in>
      (\<lambda>index. shard_path E (ref_digest (hr_root r)) (hr_shards r) kind (word_of_nat index)) ` set [0..<unat (hr_shards r)]" by (metis imageI)
  then show ?thesis by (cases kind) (auto simp: shard_paths_def)
qed

lemma answers_restrict:
  assumes "answers E c run n k" "is_power_of_two n" "\<And>kind i. i < n \<Longrightarrow> shard_path E run n kind i \<in> live"
  shows "answers E (c |` live) run n k"
  using assms(1) probe_less [OF assms(2), of E k] assms(3) unfolding answers_def Let_def by (auto simp: restrict_map_def)

text \<open>The root, the objects that a walk names, and all shards suffice.\<close>

lemma run_live_fresh:
  assumes rep: "hrun_rep E c r recs" and nz: "nonzero (store_holds E c)"
    and rr: "hex_decode E (hr_root_bytes r) = Inr bs" "decode_root E (hr_root r) bs = Inr rr"
    and walk: "\<And>recs. reader_rep E (stored E c) rr recs \<Longrightarrow> reader_rep E (restrict_to (stored E c) refs) rr recs"
    and live: "root_key E r \<in> live" "(\<lambda>x. object_key E (ref_digest x)) ` refs \<subseteq> live" "set (shard_paths E r) \<subseteq> live"
  shows "hrun_rep E (c |` live) r recs"
proof -
  from rep obtain b where b: "built_rep E c b recs" "br_root b = hr_root r" "br_shards b = hr_shards r" "bs = br_root_bytes b"
    using rr(1) by (auto simp: hrun_rep_def)
  obtain rr' where rr': "decode_root E (br_root b) (br_root_bytes b) = Inr rr'" "reader_rep E (stored E c) rr' recs"
    "stored E c (br_root b) (br_root_bytes b)" using built_reader [OF b(1) nz] .
  then have "rr' = rr" using rr(2) b(2,4) by simp
  with walk rr'(2) have "reader_rep E (restrict_to (stored E c) refs) rr recs" by simp
  then have "reader_rep E (store_holds E (c |` live)) rr recs"
    by (rule reader_rep_mono) (use live(2) in \<open>auto simp: restrict_to_def stored_def store_holds_def restrict_map_def\<close>)
  moreover have root: "store_holds E (c |` live) (br_root b) (br_root_bytes b)"
    using rr'(3) live(1) b(2) by (simp add: stored_def store_holds_def root_key_def)
  ultimately have "run_rep E (store_holds E (c |` live)) (br_root b) recs"
    using rr'(1) \<open>rr' = rr\<close> by (auto simp: run_rep_def)
  moreover have shards: "shard_path E (ref_digest (br_root b)) (br_shards b) kind i \<in> live" if "i < br_shards b" for kind i
    using shard_paths_all [of i r E kind] that live(3) b(2,3) by auto
  moreover have "shards_stored E (c |` live) (ref_digest (br_root b)) (br_shards b)"
    using b(1) shards by (auto simp: built_rep_def shards_stored_def)
  ultimately have "built_rep E (c |` live) b recs"
    using b(1) root by (auto simp: built_rep_def shards_stored_def intro!: answers_restrict)
  with rep b rr(1) show ?thesis unfolding hrun_rep_def by blast
qed

text \<open>No object that a walk names is the root of a run.\<close>

definition no_root :: "'x ext_scheme \<Rightarrow> (string \<Rightarrow> bytes option) \<Rightarrow> obj_ref \<Rightarrow> bool" where
  "no_root E c r \<longleftrightarrow> (\<exists>bs. c (object_key E (ref_digest r)) = Some bs \<and> take 4 bs \<noteq> ROOT_MAGIC)"

lemma no_root_index: "stored E c r bs \<Longrightarrow> decode_index E r bs p magic = Inr fs \<Longrightarrow> magic \<in> {INDEX_MAGIC, INTERNAL_MAGIC} \<Longrightarrow> no_root E c r"
  using magic_of_index [of E r bs p magic fs]
  by (auto simp: no_root_def stored_def store_holds_def INDEX_MAGIC_def INTERNAL_MAGIC_def ROOT_MAGIC_def ascii_def)

lemma no_root_page: "stored E c r bs \<Longrightarrow> decode_data_page E r bs p = Inr rs \<Longrightarrow> no_root E c r"
  by (auto simp: no_root_def stored_def store_holds_def decode_data_page_def decode_compressed_def
      COMPRESSED_MAGIC_def ROOT_MAGIC_def ascii_def split: if_splits)

lemma root_magic: "decode_root E r bs = Inr rr \<Longrightarrow> take 4 bs = ROOT_MAGIC"
  by (simp add: decode_root_iff root_bytes_def ROOT_MAGIC_def)

context archive_laws begin

lemma walk_leaf_no_root:
  assumes "walk_leaf E shard (fetch E S) (refs, leaves) parent t = (Inr b, t')" "\<forall>r\<in>set refs. no_root E (contents t) r"
  shows "contents t' = contents t \<and> (\<forall>r\<in>set (fst b). no_root E (contents t) r)"
  using assms by (auto simp: walk_leaf_def dest: fetch_contents intro: no_root_index [OF fetch_sound])

lemma walk_no_root:
  assumes "walk E rr (fetch E S) s = (Inr (refs, pages), s')"
  shows "\<forall>r\<in>set refs. no_root E (contents s) r"
proof -
  have "(\<lambda>b t. contents t = contents s \<and> (\<forall>r\<in>set (fst b). no_root E (contents s) r)) (refs, pages) s'"
  proof (rule fold_a_invariant [OF assms [unfolded walk_def]])
    fix b x t b' t'
    assume ok: "contents t = contents s \<and> (\<forall>r\<in>set (fst b). no_root E (contents s) r)" and step: "walk_shard E (fetch E S) b x t = (Inr b', t')"
    obtain refs pages shard root where bx: "b = (refs, pages)" "x = (shard, root)" by (metis prod.exhaust)
    show "contents t' = contents s \<and> (\<forall>r\<in>set (fst b'). no_root E (contents s) r)"
    proof (cases "root = default_ref")
      case False
      with step obtain bs t1 where f: "fetch E S root t = (Inr bs, t1)"
        and rest: "bind_a (if take 4 bs = INTERNAL_MAGIC then
            bind_a (lift_r (decode_index E root bs shard INTERNAL_MAGIC)) (\<lambda>parents.
              fold_a (walk_leaf E shard (fetch E S)) (refs @ [root], []) parents)
          else
            bind_a (lift_r (decode_index E root bs shard INDEX_MAGIC)) (\<lambda>leaves.
              ret (refs @ [root], leaves)))
         (\<lambda>(refs, leaves).
            ret (refs, pages[shard := pages ! shard @ map fence_data leaves])) t1 = (Inr b', t')"
        unfolding bx walk_shard_def by auto
      have t1: "contents t1 = contents s" "stored E (contents s) root bs" using fetch_contents [OF f] fetch_sound [OF f] ok by simp_all
      show ?thesis
      proof (cases "take 4 bs = INTERNAL_MAGIC")
        case True
        with rest obtain parents c where d: "decode_index E root bs shard INTERNAL_MAGIC = Inr parents"
          and loop: "fold_a (walk_leaf E shard (fetch E S)) (refs @ [root], []) parents t1 = (Inr c, t')" "fst b' = fst c"
          by (auto split: prod.splits)
        have "(\<lambda>b t. contents t = contents s \<and> (\<forall>r\<in>set (fst b). no_root E (contents s) r)) c t'"
        proof (rule fold_a_invariant [OF loop(1)])
          show "contents t1 = contents s \<and> (\<forall>r\<in>set (fst (refs @ [root], [])). no_root E (contents s) r)"
            using t1 ok no_root_index [OF t1(2) d] by (simp add: bx)
        qed (use walk_leaf_no_root in \<open>metis prod.collapse\<close>)
        then show ?thesis by (simp add: loop(2))
      next
        case False
        with rest obtain leaves where "decode_index E root bs shard INDEX_MAGIC = Inr leaves" "fst b' = refs @ [root]" "t' = t1" by auto
        then show ?thesis using t1 ok no_root_index [OF t1(2)] by (auto simp: bx)
      qed
    qed (use step ok bx in \<open>auto simp: walk_shard_def\<close>)
  qed simp
  then show ?thesis by simp
qed

lemma object_refs_marked:
  assumes rep: "reader_rep E (stored E (contents s)) rr recs"
  shows "outcome fails (\<lambda>refs s'. contents s' = contents s \<and> (\<forall>r\<in>set refs. no_root E (contents s) r) \<and>
      (\<forall>recs. reader_rep E (stored E (contents s)) rr recs \<longrightarrow> reader_rep E (restrict_to (stored E (contents s)) (set refs)) rr recs))
    (object_refs E rr (fetch E S) s)"
proof -
  obtain res s' where walk: "walk E rr (fetch E S) s = (res, s')" by (rule prod.exhaust)
  have "keeps (grows (\<lambda>s x. x = contents s)) (fetch E S r)" for r by (rule keepsI) (simp add: fetch_contents)
  from keepsD [OF walk_keeps [OF this] walk] have c: "contents s' = contents s" by (simp add: le_fun_def)
  have rr: "outcome fails (\<lambda>(refs, pages) s'.
      reader_rep E (restrict_to (stored E (contents s)) (set refs \<union> set (concat pages))) rr recs' \<and> length pages = PARTITIONS \<and>
      (\<forall>p<PARTITIONS. \<exists>chunks. page_refs E (stored E (contents s)) p (pages ! p) chunks)) (res, s')"
    if "reader_rep E (stored E (contents s)) rr recs'" for recs'
    using source.walk_correct [OF that] unfolding walk by (rule outcome_mono) auto
  show ?thesis
  proof (cases res)
    case (Inl e)
    with rr [OF rep] walk show ?thesis by (simp add: object_refs_def bind_a_def)
  next
    case (Inr rp)
    obtain refs pages where rp: "rp = (refs, pages)" by (rule prod.exhaust)
    have "no_root E (contents s) r" if "r \<in> set (concat pages)" for r
    proof -
      from that obtain xs where "xs \<in> set pages" "r \<in> set xs" by auto
      then obtain p where p: "p < length pages" "r \<in> set (pages ! p)" by (metis in_set_conv_nth)
      with rr [OF rep] Inr rp obtain chunks where "page_refs E (stored E (contents s)) p (pages ! p) chunks" by auto
      with p(2) obtain bs rs where "stored E (contents s) r bs" "decode_data_page E r bs p = Inr rs"
        by (auto simp: page_refs_def list_all2_conv_all_nth in_set_conv_nth)
      then show ?thesis by (rule no_root_page)
    qed
    then show ?thesis
      using walk_no_root [OF walk [unfolded Inr rp]] rr Inr rp walk c by (auto simp: object_refs_def bind_a_def)
  qed
qed

end

text \<open>The runs in \<open>done\<close> are marked, and the only roots among the marked objects are theirs.\<close>

definition marked :: "'x ext_scheme \<Rightarrow> (string \<Rightarrow> bytes option) \<Rightarrow> head_run set \<Rightarrow> string set \<Rightarrow> bool" where
  "marked E c runs live \<longleftrightarrow> (\<forall>r\<in>runs. run_live E c live r) \<and>
     (\<forall>r. object_key E (ref_digest r) \<in> live \<longrightarrow> (\<exists>r'\<in>runs. object_key E (ref_digest r) = root_key E r') \<or> no_root E c r)"

lemma shard_paths_no_object: "object_key E d \<notin> set (shard_paths E r)"
  by (auto simp: shard_paths_def object_key_def shard_path_def Let_def)

lemma hrun_rep_root:
  assumes "hrun_rep E c r recs" "nonzero (store_holds E c)"
  obtains bs rr where "hex_decode E (hr_root_bytes r) = Inr bs" "decode_root E (hr_root r) bs = Inr rr"
    "stored E c (hr_root r) bs" "reader_rep E (stored E c) rr recs"
proof -
  from assms(1) obtain b where b: "built_rep E c b recs" "br_root b = hr_root r" "hex_decode E (hr_root_bytes r) = Inr (br_root_bytes b)"
    by (auto simp: hrun_rep_def)
  from built_reader [OF b(1) assms(2)] b(2,3) show thesis by (metis that)
qed

lemma run_live_same:
  assumes live: "run_live E c live r'" "hrun_rep E c r' recs'" and rep: "hrun_rep E c r recs" and nz: "nonzero (store_holds E c)"
    and key: "root_key E r = root_key E r'" and shards: "hr_root r = hr_root r' \<Longrightarrow> hr_shards r = hr_shards r'"
  shows "run_live E c live r"
proof -
  obtain bs rr where r: "hex_decode E (hr_root_bytes r) = Inr bs" "decode_root E (hr_root r) bs = Inr rr"
    "stored E c (hr_root r) bs" using hrun_rep_root [OF rep nz] by metis
  obtain bs' rr' where r': "hex_decode E (hr_root_bytes r') = Inr bs'" "decode_root E (hr_root r') bs' = Inr rr'"
    "stored E c (hr_root r') bs'" "reader_rep E (stored E c) rr' recs'" using hrun_rep_root [OF live(2) nz] by metis
  have "bs = bs'" using r(3) r'(3) key by (simp add: stored_def store_holds_def root_key_def)
  then have "hr_root r = hr_root r'"
    using r(2) r'(2) unfolding decode_root_iff by (intro obj_ref.equality) (simp_all add: word_unat_eq_iff)
  then have same: "hr_shards r = hr_shards r'" "rr = rr'" using shards r(2) r'(2) \<open>bs = bs'\<close> by auto
  show ?thesis unfolding run_live_def
  proof (intro allI impI)
    fix recs2 assume rep2: "hrun_rep E c r recs2"
    have "recs2 = recs'"
    proof -
      obtain bs2 rr2 where "decode_root E (hr_root r) bs2 = Inr rr2" "hex_decode E (hr_root_bytes r) = Inr bs2"
        "reader_rep E (stored E c) rr2 recs2" using hrun_rep_root [OF rep2 nz] by metis
      then have "reader_rep E (stored E c) rr' recs2" using r(1,2) same by simp
      moreover have "functional (stored E c)" by (auto simp: functional_def stored_def store_holds_def)
      ultimately show ?thesis using r'(4) reader_rep_unique by metis
    qed
    then have "hrun_rep E (c |` live) r' recs2" using live by (simp add: run_live_def)
    then obtain b where b: "built_rep E (c |` live) b recs2" "br_root b = hr_root r'" "br_shards b = hr_shards r'"
      "hex_decode E (hr_root_bytes r') = Inr (br_root_bytes b)" by (auto simp: hrun_rep_def)
    with rep2 r(1) r'(1) \<open>bs = bs'\<close> \<open>hr_root r = hr_root r'\<close> same(1) show "hrun_rep E (c |` live) r recs2"
      unfolding hrun_rep_def by (intro conjI exI [of _ b]) auto
  qed
qed

context archive_laws begin

lemma reachable_run_marks:
  assumes c: "contents t = c" and nz: "nonzero (store_holds E c)" and rep: "hrun_rep E c r recs" and marked: "marked E c runs live"
    and runs: "\<forall>r'\<in>runs. (\<exists>recs'. hrun_rep E c r' recs') \<and> (hr_root r = hr_root r' \<longrightarrow> hr_shards r = hr_shards r')"
  shows "outcome fails (\<lambda>live' t'. contents t' = c \<and> marked E c (insert r runs) live' \<and> live \<subseteq> live') (reachable_run E S live r t)"
proof -
  obtain bs rr where root: "hex_decode E (hr_root_bytes r) = Inr bs" "decode_root E (hr_root r) bs = Inr rr"
    "stored E c (hr_root r) bs" "reader_rep E (stored E c) rr recs" using hrun_rep_root [OF rep nz] by metis
  have input: "run_input E r = Inr (hr_root r, bs)" by (simp add: run_input_def root)
  show ?thesis
  proof (cases "root_key E r \<in> live")
    case True
    have "\<not> no_root E c (hr_root r)" using root(3) root_magic [OF root(2)] by (auto simp: no_root_def stored_def store_holds_def)
    with True marked obtain r' where r': "r' \<in> runs" "root_key E r = root_key E r'" unfolding marked_def root_key_def by blast
    with runs obtain recs' where "hrun_rep E c r' recs'" "hr_root r = hr_root r' \<Longrightarrow> hr_shards r = hr_shards r'" by blast
    with r' marked have "run_live E c live r" by (intro run_live_same [OF _ _ rep nz, of live r' recs']) (auto simp: marked_def)
    with marked have "marked E c (insert r runs) live" by (auto simp: marked_def)
    with True c show ?thesis by (simp add: reachable_run_def input root_key_def)
  next
    case False
    have "marked E c (insert r runs) (insert (root_key E r) live \<union> (\<lambda>r. object_key E (ref_digest r)) ` set refs \<union> set (shard_paths E r))"
      (is "marked E c _ ?live")
      if refs: "\<forall>r\<in>set refs. no_root E c r"
        "\<forall>recs. reader_rep E (stored E c) rr recs \<longrightarrow> reader_rep E (restrict_to (stored E c) (set refs)) rr recs" for refs
    proof -
      have "run_live E c ?live r"
        unfolding run_live_def by (intro allI impI run_live_fresh [OF _ nz root(1,2), where refs = "set refs"]) (use refs(2) in auto)
      moreover have "\<forall>r'\<in>runs. run_live E c ?live r'" using marked by (auto simp: marked_def intro: run_live_mono)
      moreover have "(\<exists>r'\<in>insert r runs. object_key E (ref_digest x) = root_key E r') \<or> no_root E c x" if "object_key E (ref_digest x) \<in> ?live" for x
        using that marked refs(1) shard_paths_no_object [of E "ref_digest x" r] unfolding marked_def by (auto simp: no_root_def)
      ultimately show ?thesis by (simp add: marked_def)
    qed
    moreover have "outcome fails (\<lambda>refs s'. contents s' = c \<and> (\<forall>r\<in>set refs. no_root E c r) \<and>
        (\<forall>recs. reader_rep E (stored E c) rr recs \<longrightarrow> reader_rep E (restrict_to (stored E c) (set refs)) rr recs)) (object_refs E rr (fetch E S) t)"
      using object_refs_marked [of E t rr recs] root(4) c by simp
    ultimately show ?thesis
      using False by (auto simp: reachable_run_def input root(2) root_key_def Let_def elim!: outcome_mono)
  qed
qed

end

section \<open>A collection keeps the archive\<close>

context archive_laws begin

lemma reachable_parents_returns:
  "\<exists>live' t'. reachable_parents E S n parent live t = (Inr live', t') \<and> contents t' = contents t \<and> live \<subseteq> live'"
proof (induction n arbitrary: parent live t)
  case (Suc n)
  show ?case
  proof (cases parent)
    case (Some r)
    obtain res u where get: "st_get_bounded S (object_key E (ref_digest r)) MAX_HEAD t = (res, u)" by (rule prod.exhaust)
    then have u: "contents u = contents t" using get_sound by blast
    show ?thesis
    proof (cases res)
      case (Inr bs)
      obtain live' t' where *: "reachable_parents E S n (case head_from_json E bs of Inl _ \<Rightarrow> None | Inr head \<Rightarrow> hd_parent head)
          (insert (object_key E (ref_digest r)) live) u = (Inr live', t')" "contents t' = contents u"
        "insert (object_key E (ref_digest r)) live \<subseteq> live'" using Suc.IH by blast
      with get Inr u Some show ?thesis by simp
    qed (use get u Some in simp)
  qed simp
qed simp

lemma reachable_run_grows:
  assumes "contents t = c" "nonzero (store_holds E c)" "hrun_rep E c r recs"
  shows "outcome fails (\<lambda>live' t'. contents t' = c \<and> live \<subseteq> live') (reachable_run E S live r t)"
proof -
  obtain bs rr where root: "hex_decode E (hr_root_bytes r) = Inr bs" "decode_root E (hr_root r) bs = Inr rr"
    "reader_rep E (stored E c) rr recs" using hrun_rep_root [OF assms(3,2)] by metis
  have "outcome fails (\<lambda>refs s'. contents s' = c) (object_refs E rr (fetch E S) t)"
    using object_refs_marked [of E t rr recs] root(3) assms(1) by (auto elim: outcome_mono)
  then show ?thesis
    using assms(1) root(1,2) by (auto simp: reachable_run_def run_input_def Let_def elim!: outcome_mono)
qed

lemma reachable_grows:
  assumes "contents t = c" "nonzero (store_holds E c)" "head_rep E c h hist"
  shows "outcome fails (\<lambda>live' t'. contents t' = c \<and> live \<subseteq> live') (reachable E S h keep live t)"
proof -
  have runs: "\<exists>recs. hrun_rep E c r recs" if "r \<in> set (head_runs h)" for r
    using assms(3) that by (auto simp: head_rep_def list_all2_conv_all_nth in_set_conv_nth)
  have "outcome fails ((\<lambda>_ live' t'. contents t' = c \<and> live \<subseteq> live') (head_runs h)) (fold_a (reachable_run E S) live (head_runs h) t)"
  proof (rule outcome_fold)
    fix ys x live' t'
    assume pre: "prefix (ys @ [x]) (head_runs h)" and I: "contents t' = c \<and> live \<subseteq> live'"
    from runs set_mono_prefix [OF pre] obtain recs where "hrun_rep E c x recs" by auto
    then have "outcome fails (\<lambda>l t''. contents t'' = c \<and> live' \<subseteq> l) (reachable_run E S live' x t')"
      using reachable_run_grows [OF _ assms(2), of t' x recs live'] I by simp
    then show "outcome fails (\<lambda>live' t'. contents t' = c \<and> live \<subseteq> live') (reachable_run E S live' x t')"
      by (rule outcome_mono) (use I in auto)
  qed (simp add: assms(1))
  then show ?thesis unfolding reachable_def outcome_bind
  proof (rule outcome_mono)
    fix live' t' assume *: "contents t' = c \<and> live \<subseteq> live'"
    obtain l u where "reachable_parents E S keep (hd_parent h) live' t' = (Inr l, u)" "contents u = contents t'" "live' \<subseteq> l"
      using reachable_parents_returns by blast
    with * show "outcome fails (\<lambda>live' t'. contents t' = c \<and> live \<subseteq> live') (reachable_parents E S keep (hd_parent h) live' t')" by auto
  qed
qed

lemma reachable_marks:
  assumes "contents t = c" "nonzero (store_holds E c)" "head_rep E c h hist" "roots_agree h"
  shows "outcome fails (\<lambda>live t'. contents t' = c \<and> (\<forall>r\<in>set (head_runs h). run_live E c live r)) (reachable E S h keep {} t)"
proof -
  have runs: "\<exists>recs. hrun_rep E c r recs" if "r \<in> set (head_runs h)" for r
    using assms(3) that by (auto simp: head_rep_def list_all2_conv_all_nth in_set_conv_nth)
  have "outcome fails ((\<lambda>ys live t'. contents t' = c \<and> marked E c (set ys) live) (head_runs h)) (fold_a (reachable_run E S) {} (head_runs h) t)"
  proof (rule outcome_fold)
    fix ys x live' t'
    assume pre: "prefix (ys @ [x]) (head_runs h)" and I: "contents t' = c \<and> marked E c (set ys) live'"
    have sub: "insert x (set ys) \<subseteq> set (head_runs h)" using set_mono_prefix [OF pre] by simp
    with runs obtain recs where "hrun_rep E c x recs" by blast
    moreover have "\<forall>r'\<in>set ys. (\<exists>recs'. hrun_rep E c r' recs') \<and> (hr_root x = hr_root r' \<longrightarrow> hr_shards x = hr_shards r')"
      using runs sub assms(4) unfolding roots_agree_def by blast
    ultimately show "outcome fails (\<lambda>live t'. contents t' = c \<and> marked E c (set (ys @ [x])) live) (reachable_run E S live' x t')"
      using reachable_run_marks [OF _ assms(2), of t' x recs "set ys" live'] I by (auto elim: outcome_mono)
  qed (simp add: assms(1) marked_def)
  then show ?thesis unfolding reachable_def outcome_bind
  proof (rule outcome_mono)
    fix live' t' assume *: "contents t' = c \<and> marked E c (set (head_runs h)) live'"
    obtain l u where "reachable_parents E S keep (hd_parent h) live' t' = (Inr l, u)" "contents u = contents t'" "live' \<subseteq> l"
      using reachable_parents_returns by blast
    with * show "outcome fails (\<lambda>live t'. contents t' = c \<and> (\<forall>r\<in>set (head_runs h). run_live E c live r)) (reachable_parents E S keep (hd_parent h) live' t')"
      by (auto simp: marked_def intro: run_live_mono)
  qed
qed

end

context archive_deletes begin

lemma gc_delete_sound:
  assumes "gc_delete S cutoff dry_run l t = (res, t')"
  shows "(contents t' = contents t \<or> contents t' = (contents t)(l_key l := None)) \<and> (dry_run \<longrightarrow> contents t' = contents t)"
proof -
  obtain m u where m: "st_modified S (l_key l) t = (m, u)" by (rule prod.exhaust)
  obtain d v where d: "st_delete S (l_key l) u = (d, v)" by (rule prod.exhaust)
  have "contents u = contents t" "t' = u \<or> \<not> dry_run \<and> t' = v"
    using modified_sound [OF m] assms m d
    by (auto simp: gc_delete_def bind_a_def split: sum.splits option.splits if_splits prod.splits)
  with delete_sound [OF d] show ?thesis by auto
qed

lemma gc_deletes_sound:
  assumes "map_a (gc_delete S cutoff dry_run) ls t = (res, t')"
  shows "(\<forall>k. k \<notin> l_key ` set ls \<longrightarrow> contents t' k = contents t k) \<and> (dry_run \<longrightarrow> contents t' = contents t)"
  using assms
proof (induction ls arbitrary: t res t')
  case (Cons l ls)
  obtain r u where r: "gc_delete S cutoff dry_run l t = (r, u)" by (rule prod.exhaust)
  obtain r' v where r': "map_a (gc_delete S cutoff dry_run) ls u = (r', v)" by (rule prod.exhaust)
  have "t' = u \<or> t' = v" using Cons.prems r r' by (auto simp: bind_a_def split: sum.splits prod.splits)
  with gc_delete_sound [OF r] Cons.IH [OF r'] show ?case by auto
qed simp

lemma gc_deletes_return: "outcome fails (\<lambda>_ _. True) (map_a (gc_delete S cutoff dry_run) ls t)"
proof -
  have "outcome fails (\<lambda>_ _. True) (gc_delete S cutoff dry_run l u)" for l u
    using modified_returns [of "l_key l" u] delete_returns [of "l_key l"]
    by (auto simp: gc_delete_def elim!: outcome_mono split: option.splits)
  then have "outcome fails (\<lambda>ys s'. True \<and> length ys = length ls \<and> (\<forall>i<length ls. True)) (map_a (gc_delete S cutoff dry_run) ls t)"
    by (intro outcome_map) auto
  then show ?thesis by (rule outcome_mono) auto
qed

lemma gc_plan_contents: "gc_plan E S cutoff chain_id keep s = (res, s') \<Longrightarrow> contents s' = contents s"
proof -
  let ?f = "\<lambda>s x. x = contents s"
  have fetch: "keeps (grows ?f) (fetch E S r)" for r by (rule keepsI) (simp add: fetch_contents)
  have read: "keeps (grows ?f) (read_head E S chain_id)" by (rule keepsI) (auto dest!: read_head_sound)
  have list: "keeps (grows ?f) (st_list S p)" for p by (rule keepsI) (auto dest!: list_sound)
  have parents: "keeps (grows ?f) (reachable_parents E S n p live)" for n p live
    using reachable_parents_returns [of E n p live] by (intro keepsI) (metis order_refl prod.inject)
  have "keeps (grows ?f) (reachable E S h keep live)" for h live
    unfolding reachable_def reachable_run_def object_refs_def Let_def
    by (auto intro!: keeps_rules parents walk_keeps fetch split: prod.splits)
  then have "keeps (grows ?f) (gc_plan E S cutoff chain_id keep)"
    unfolding gc_plan_def Let_def by (auto intro!: keeps_rules read list split: prod.splits)
  from keepsD [OF this] show "gc_plan E S cutoff chain_id keep s = (res, s') \<Longrightarrow> ?thesis" by (force simp: le_fun_def)
qed

lemma read_head_held:
  assumes "archive_rep E (contents s) chain_id (Some (h, hist))"
  shows "outcome fails (\<lambda>r s'. contents s' = contents s \<and> (\<exists>v. r = Some (v, h))) (read_head E S chain_id s)"
proof -
  obtain res s' where read: "read_head E S chain_id s = (res, s')" by (rule prod.exhaust)
  with read_head_total [OF assms] read_head_sound [OF read] show ?thesis by (cases res) auto
qed

text \<open>The plan never dooms an object that the archive needs.\<close>

lemma gc_plan_safe:
  assumes rep: "archive_rep E (contents s) chain_id (Some (h, hist))" and nz: "nonzero (store_holds E (contents s))" and agree: "roots_agree h"
  shows "outcome fails (\<lambda>(live, young, doomed) t. contents t = contents s \<and> (\<forall>r\<in>set (head_runs h). run_live E (contents s) live r) \<and>
      (\<forall>l\<in>set doomed. l_key l \<notin> live \<and> l_key l \<in> immutable_keys)) (gc_plan E S cutoff chain_id keep s)"
proof -
  let ?c = "contents s"
  have head: "head_rep E ?c h hist" using rep by (auto simp: archive_rep_def)
  have read: "outcome fails (\<lambda>r t'. contents t' = ?c \<and> (\<exists>v. r = Some (v, h))) (read_head E S chain_id t)" if "contents t = ?c" for t
    using read_head_held [of E t chain_id h hist] rep that by simp
  have list: "outcome fails (\<lambda>ls t'. contents t' = ?c \<and> (\<forall>l\<in>set ls. prefix p (l_key l))) (st_list S p t)" if "contents t = ?c" for p t
    using list_returns [of p t] list_sound [of p t] that by (cases "st_list S p t"; cases "fst (st_list S p t)") auto
  show ?thesis
    unfolding gc_plan_def outcome_bind Let_def
    apply (rule outcome_mono [OF read], rule refl, assumption)
    apply clarsimp
    apply (rule outcome_mono [OF reachable_marks [OF _ nz head agree]], assumption, assumption)
    apply (rule outcome_mono [OF list], blast, assumption)
    apply (rule outcome_mono [OF list], blast, assumption)
    apply (rule outcome_mono [OF read], blast, assumption)
    apply clarsimp
    apply (rule outcome_mono [OF reachable_grows [OF _ nz head]], assumption, assumption)
    apply (auto simp: immutable_keys_def intro: run_live_mono)
    done
qed

theorem collect_garbage_correct:
  assumes rep: "archive_rep E (contents s) chain_id (Some (h, hist))" and nz: "nonzero (store_holds E (contents s))" and agree: "roots_agree h"
    and run: "collect_garbage E S started chain_id keep_heads min_age dry_run s = (res, s')"
  shows "archive_rep E (contents s') chain_id (Some (h, hist))" "dry_run \<longrightarrow> contents s' = contents s" "\<forall>e. res = Inl e \<longrightarrow> fails e"
    "\<forall>k. k \<notin> immutable_keys \<longrightarrow> contents s' k = contents s k"
proof -
  let ?cutoff = "int started - int min_age"
  obtain r t where plan: "gc_plan E S ?cutoff chain_id keep_heads s = (r, t)" by (rule prod.exhaust)
  note safe = gc_plan_safe [OF rep nz agree, of ?cutoff keep_heads, unfolded plan]
  have t: "contents t = contents s" using plan by (rule gc_plan_contents)
  have "archive_rep E (contents s') chain_id (Some (h, hist)) \<and> (dry_run \<longrightarrow> contents s' = contents s) \<and> (\<forall>e. res = Inl e \<longrightarrow> fails e) \<and>
    (\<forall>k. k \<notin> immutable_keys \<longrightarrow> contents s' k = contents s k)"
  proof (cases r)
    case (Inl e)
    with run plan safe t rep show ?thesis by (auto simp: collect_garbage_def Let_def bind_a_def)
  next
    case (Inr p)
    obtain live young doomed where p: "p = (live, young, doomed)" by (metis prod.exhaust)
    obtain d u where deletes: "map_a (gc_delete S ?cutoff dry_run) doomed t = (d, u)" by (rule prod.exhaust)
    have s': "s' = u" "\<forall>e. res = Inl e \<longrightarrow> d = Inl e"
      using run plan deletes Inr p by (auto simp: collect_garbage_def Let_def bind_a_def split: sum.splits)
    note del = gc_deletes_sound [OF deletes]
    have live: "\<forall>r\<in>set (head_runs h). run_live E (contents s) live r" and doomed: "\<forall>l\<in>set doomed. l_key l \<notin> live \<and> l_key l \<in> immutable_keys"
      using safe Inr p by auto
    have le: "contents s |` live \<subseteq>\<^sub>m contents u"
    proof -
      have "contents u k = contents s k" if "k \<in> live" for k
      proof -
        have "k \<notin> l_key ` set doomed" using doomed that by auto
        with del t show ?thesis by simp
      qed
      then show ?thesis by (auto simp: map_le_def restrict_map_def dom_def split: if_splits)
    qed
    obtain parts where parts: "list_all2 (hrun_rep E (contents s)) (head_runs h) parts" "hist = versions (concat parts)" "head_wf E h" "bounded_runs (head_runs h)"
      using rep by (auto simp: archive_rep_def head_rep_def)
    have "list_all2 (hrun_rep E (contents u)) (head_runs h) parts"
      using parts(1) by (rule list.rel_mono_strong) (use live le in \<open>auto simp: run_live_def intro: hrun_rep_mono\<close>)
    then have "head_rep E (contents u) h hist" using parts by (auto simp: head_rep_def)
    moreover have kept: "contents u k = contents s k" if "k \<notin> immutable_keys" for k
    proof -
      have "k \<notin> l_key ` set doomed" using doomed that by auto
      with del t show ?thesis by simp
    qed
    ultimately have "archive_rep E (contents u) chain_id (Some (h, hist))"
      using rep head_key_mutable [of chain_id] by (auto simp: archive_rep_def)
    moreover have "\<forall>e. d = Inl e \<longrightarrow> fails e" using gc_deletes_return [of ?cutoff dry_run doomed t] deletes by auto
    ultimately show ?thesis using s' del t kept by auto
  qed
  then show "archive_rep E (contents s') chain_id (Some (h, hist))" "dry_run \<longrightarrow> contents s' = contents s" "\<forall>e. res = Inl e \<longrightarrow> fails e"
    "\<forall>k. k \<notin> immutable_keys \<longrightarrow> contents s' k = contents s k" by blast+
qed

end

end
