(* ===== verification/Gc_Properties.thy ===== *)
theory Gc_Properties
  imports Garbage Small_Archive
begin

text \<open>Properties of garbage collection on the memory store, alone and between publication and reads.\<close>

text \<open>C13. Garbage collection keeps the archive of its chain: it returns a report, and afterwards the store represents the
  same head with the same histories, whatever age, number of kept head copies or mode it runs with. It touches no mutable
  object, and a dry run changes nothing at all.\<close>

theorem gc_keeps_archive:
  assumes "archive_rep E (mem_contents s) chain_id (Some (h, hist))" "mem_contents s (object_key E 0) = None" "roots_agree h"
  shows "\<exists>report s'. collect_garbage E memory_store started chain_id keep_heads min_age dry_run s = (Inr report, s') \<and>
    archive_rep E (mem_contents s') chain_id (Some (h, hist)) \<and> (dry_run \<longrightarrow> mem_contents s' = mem_contents s) \<and>
    (\<forall>k. k \<notin> immutable_keys \<longrightarrow> mem_contents s' k = mem_contents s k)"
proof -
  obtain res s' where run: "collect_garbage E memory_store started chain_id keep_heads min_age dry_run s = (res, s')" by (rule prod.exhaust)
  note gc = mem_deletes.collect_garbage_correct [OF assms(1) nonzero_mem [OF assms(2)] assms(3) run]
  from gc(3) obtain report where "res = Inr report" by (cases res) auto
  with run gc(1,2,4) show ?thesis by blast
qed

theorem gc_keeps_archive_witness:
  "\<exists>s h report s'. collect_garbage sample_head_ext memory_store 100000 1 0 GC_MIN_AGE False s = (Inr report, s') \<and>
    archive_rep sample_head_ext (mem_contents s') 1 (Some (h, versions sample_genesis))"
proof -
  obtain s h run where s: "archive_rep sample_head_ext (mem_contents s) 1 (Some (h, versions sample_genesis))"
    "mem_contents s (object_key sample_head_ext 0) = None" "is_published h sample_package" "head_runs h = [run]"
    by (rule sample_archive_head [OF sample_head_like_ext])
  then have "roots_agree h" by (simp add: roots_agree_def)
  from gc_keeps_archive [OF s(1,2) this, of 100000 0 GC_MIN_AGE False] show ?thesis by blast
qed

end
