(* ===== verification/Writer_Properties.thy ===== *)
theory Writer_Properties
  imports Writers Small_Archive
begin

text \<open>Properties of concurrent writers: what every interleaving of publishers and compactors of a chain leaves in the store.\<close>

text \<open>C8. Every interleaving of publishers and compactors of a chain, each stopping at any request, is linearizable: the store
  always represents exactly the committed packages in the order of their commits. No package is lost,
  published twice or reordered, each one follows the one before by number and parent hash, and compaction is invisible.\<close>

theorem writers_linearizable:
  assumes "wreach E chain_id w" "zstd_roundtrip E" "hex_roundtrip E" "json_roundtrip E"
    and "mem_contents (w_store w) (object_key E 0) = None"
  shows "successively follows (w_log w) \<and>
    (if w_log w = [] then mem_contents (w_store w) (head_key chain_id) = None
     else \<exists>h. is_published h (last (w_log w)) \<and> archive_rep E (mem_contents (w_store w)) chain_id (Some (h, log_history (w_log w))))"
proof -
  from writers_correct [OF assms(1-4) nonzero_mem [OF assms(5)]]
  obtain st where st: "archive_rep E (mem_contents (w_store w)) chain_id st" "logged (w_log w) st" by (auto simp: winv_def)
  show ?thesis
  proof (cases st)
    case None
    with st show ?thesis by (simp add: logged_def archive_rep_def)
  next
    case (Some x)
    with st show ?thesis by (cases x) (auto simp: logged_def)
  qed
qed

theorem writers_linearizable_witness:
  "\<exists>w h. wreach sample_head_ext 1 w \<and> w_log w = [sample_package] \<and> is_published h sample_package \<and>
     archive_rep sample_head_ext (mem_contents (w_store w)) 1 (Some (h, log_history [sample_package]))"
proof -
  obtain s t run where *: "publish_start sample_head_ext memory_store sample_package (Finalized 0 3) mem_empty = (Inr (Some (run, None)), t)"
    "publish_swap sample_head_ext memory_store sample_package run None t = (Inr (), s)" "m_next_version t \<le> m_next_version s"
    "mem_contents s (object_key sample_head_ext 0) = None" using sample_steps [OF sample_head_like_ext] .
  let ?w = "\<lparr>w_store = s, w_tasks = [], w_log = [sample_package]\<rparr>"
  have "wreach sample_head_ext 1 \<lparr>w_store = t, w_tasks = [Publishing sample_package run None], w_log = []\<rparr>"
    using wreach.run [OF wreach.start begin_publish [OF *(1) sample_chain, of "[]" "[]", folded w_empty_def]]
    by (simp add: w_empty_def mem_empty_def)
  from wreach.run [OF this commit_publish [OF *(2)]] *(3) have reach: "wreach sample_head_ext 1 ?w" by simp
  from writers_linearizable [OF this sample_hyps [OF sample_head_like_ext]] *(4)
  have "\<exists>h. is_published h sample_package \<and> archive_rep sample_head_ext (mem_contents (w_store ?w)) 1 (Some (h, log_history [sample_package]))" by simp
  with reach show ?thesis by (metis select_convs(3))
qed

end
