(* ===== verification/Spec2Isabelle.thy ===== *)
theory Spec2Isabelle
  imports Gateway Package_Properties Gc_Properties Writer_Properties
begin

text \<open>
  Verification of Fossil, an immutable archive of the historical state of an EVM chain.

  \<^bold>\<open>The program.\<close> A package of consecutive blocks with their account, storage and code events is parsed
  and published: its events become a sorted \<^emph>\<open>run\<close> of immutable objects named by their SHA-256,
  and the one mutable object of the chain, its \<^emph>\<open>head\<close>, is replaced by compare-and-swap with a head
  that lists the new run. Compaction merges adjacent runs into the levels of the head. Readers pin a
  head, ask the Bloom summaries which runs may hold a key, and look the key up in those runs, newest
  first. Garbage collection deletes what the head no longer reaches. Two services read archives: a
  JSON-RPC server over the native reader, and a Worker over an object bucket, which also serves
  single objects.

  \<^bold>\<open>The theories\<close>, in the order of their imports, with the sources under \<^verbatim>\<open>src/\<close> they translate.

  \<^item> \<open>Fossil_Prelude\<close>: machine types, errors, results, actions on a state, the third-party operations,
    and the lemmas every other theory uses.
  \<^item> \<open>Run_Codec\<close> (\<^verbatim>\<open>codec/src/run.rs\<close>, \<^verbatim>\<open>codec/src/hash.rs\<close>): the byte forms of pages, fences and roots.
    \<open>Run_Tree\<close> says what a run represents; \<open>Run_Builder\<close>, \<open>Run_Reader\<close> and \<open>Run_Scanner\<close> are
    \<^verbatim>\<open>RunBuilder\<close>, \<^verbatim>\<open>RunReader\<close> and \<^verbatim>\<open>RunScanner\<close>, proved against it.
  \<^item> \<open>Summary\<close> (\<^verbatim>\<open>codec/src/summary.rs\<close>): the membership summaries, with no false negatives.
  \<^item> \<open>Head\<close> (\<^verbatim>\<open>codec/src/head.rs\<close>) and \<open>Format\<close> (\<^verbatim>\<open>src/format.rs\<close>): heads, keys, account states, text forms.
  \<^item> \<open>Store\<close> (\<^verbatim>\<open>src/store.rs\<close>): the trait \<^verbatim>\<open>ArchiveStore\<close> as a record of actions, the memory store, the
    counting store, and the laws that the rest relies on (locale \<open>archive_laws\<close>).
  \<^item> \<open>Compact\<close> and \<open>Merge\<close> (\<^verbatim>\<open>src/compact.rs\<close>): writing a run with its summaries, and the k-way merge.
  \<^item> \<open>Tiered\<close> (\<^verbatim>\<open>src/tiered.rs\<close>): \<^verbatim>\<open>publish\<close> and \<^verbatim>\<open>compact_once\<close>. \<open>History\<close> defines which histories a head
    represents; \<open>Publication\<close>, \<open>Compaction\<close> and \<open>Garbage\<close> prove what publication, compaction and
    \<^verbatim>\<open>collect_garbage\<close> do to them. \<open>Writers\<close> interleaves the requests of several writers (a step relation).
  \<^item> \<open>Metering\<close> and \<open>Tiered_Reader\<close> (\<^verbatim>\<open>src/tiered.rs\<close>): reads under a budget, and the pinned \<^verbatim>\<open>Reader\<close>.
  \<^item> \<open>Normalized\<close> and \<open>Package_Text\<close> (\<^verbatim>\<open>src/normalized.rs\<close>): the package parser, and which texts it accepts.
  \<^item> \<open>Rpc\<close> (\<^verbatim>\<open>src/rpc.rs\<close>): the server: dispatch, selectors, batches, errors and the refresh of the reader.
    \<open>Rpc_Spec\<close> states by rules, without the code of the services, what a call is answered from the histories of a
    head and what a response looks like; both services are proved against these rules.
  \<^item> \<open>Worker_Core\<close> (\<^verbatim>\<open>worker/src/core.rs\<close>), \<open>Worker_Rpc\<close> and \<open>Gateway\<close> (\<^verbatim>\<open>worker/src/lib.rs\<close>): the reader of the
    Worker, its dispatch over the R2 store, request bodies, ranges and object keys.
  \<^item> \<open>Small_Run\<close>, \<open>Small_Archive\<close> and \<open>Small_Chain\<close>: concrete instances of the third-party operations and a
    concrete archive of a genesis and a second block, on which the hypotheses of the properties hold.
  \<^item> The theories named \<open>_Properties\<close>, and \<open>Gateway\<close>: the properties C1 to C32.

  \<^bold>\<open>How the code is rendered.\<close> Unsigned integers are words of their width and wrap as in a release
  build; a \<^verbatim>\<open>usize\<close> is a natural number. A \<^verbatim>\<open>Result\<close> is a sum of \<open>error\<close> and a type; every early
  return is a branch. An operation with effects is an action on the state it changes, and keeps the
  state reached when it fails. Operations of other crates (SHA-256, Keccak, hex, zstd, the code
  that \<^verbatim>\<open>serde\<close> generates, the evictions of the cache, the bucket of the platform) are fields of the
  records \<open>ext\<close>, \<open>ext_head\<close>, \<open>ext_cache\<close>, \<open>ext_norm\<close> and \<open>ext_rpc\<close> or arguments; what is used of them is
  stated as hypotheses (\<open>hex_roundtrip\<close>, \<open>hex_lower\<close>, \<open>json_roundtrip\<close>, \<open>zstd_roundtrip\<close>, \<open>bucket_ok\<close>), which hold
  for the instances of \<open>Small_Run\<close>, \<open>Small_Archive\<close> and \<open>Worker_Properties\<close>. That SHA-256 has no collisions
  is never assumed: an object is what the store holds under its key, and the code reports a collision. Assumed is
  only that no object is stored under the zero digest, which marks an absent reference.

  \<^bold>\<open>What is shown.\<close>

  \<^item> Reads (C1 to C3, C9): an answer of the pinned reader is what the represented histories say at that
    block, the budget suffices up to the stated number of runs, and no publisher or compactor changes
    the answers of a pinned reader.
  \<^item> Services (C4 to C7, C10): the responses of the server and of the Worker are those of the rules over the
    histories, the two agree where both answer a call other than for the version, and a refresh never serves
    an older head and adopts a newer one.
  \<^item> Writers (C8, C11 to C13): publication appends the records of its package, compaction keeps every history,
    garbage collection keeps the archive of its chain, and any interleaving of publishers and
    compactors amounts to the commits in their order.
  \<^item> Packages (C14 to C16): accepted packages are well formed, all well-formed ones are accepted, and
    their records can be written as a run.
  \<^item> Runs (C17 to C22): lookups, scans, summaries, merges and \<^verbatim>\<open>object_refs\<close> agree with the records
    written, with a bound on the cost of a lookup.
  \<^item> Gateway (C23 to C25) and encodings (C26 to C32): accepted keys, ranges, bodies, heads, plans,
    account states, keys and text forms. C26 to C28 exclude heads with a run that ends at the last 64-bit block:
    there the next start wraps around and \<^verbatim>\<open>Head::decode\<close> accepts runs that overlap.

  \<^bold>\<open>Interfaces.\<close> The builder and the readers are verified against \<open>object_sink\<close> and \<open>object_source\<close>, which
  every store with \<open>archive_laws\<close> provides (sublocales in \<open>Compact\<close> and \<open>Merge\<close>); the memory store and the
  counting store are interpretations, also of \<open>archive_deletes\<close>. Both readers are instances of \<open>metered_source\<close>,
  and the R2 store one of \<open>object_store\<close>.

  \<^bold>\<open>Loops and bounds.\<close> The CAS loops recurse on the attempts left, as many as the code makes. The
  scanner's \<open>ready_loop\<close> and the \<open>cascade\<close> over the levels have termination proofs. The loop of a
  merge is a partial function with value \<open>None\<close> for divergence; it is proved to return on represented runs
  (C12, C18). No fuel is used.

  \<^bold>\<open>Not modelled.\<close> The file and S3 stores (\<^verbatim>\<open>FsArchiveStore\<close>, \<^verbatim>\<open>ObjectArchiveStore\<close>), which are calls of the file system and
  of a crate: \<open>archive_laws\<close> is what the archive needs of them, and it is not shown for them. The command line
  (\<^verbatim>\<open>src/main.rs\<close>), the HTTP routes, timers and metrics of the server, and the requests and responses of the
  Worker platform. \<^verbatim>\<open>src/bootstrap.rs\<close>, which prints a package from untyped JSON and returns it
  only if the modelled parser accepts it. The exporter under \<^verbatim>\<open>tools/\<close>. Concurrency within one
  operation (the tasks of a merge, prefetches of a reader, the entries of a batch, parallel deletions) is
  sequential; garbage collection is verified alone, not interleaved with writers, and two runs of
  a head with the same root are assumed to have equally many shards.
\<close>

end
